(* ===== verification/Prelude.thy ===== *)
theory Prelude
  imports Main "HOL-Library.Word"
begin

text \<open>
  Shared vocabulary of the development.

  \<^item> Machine types: a byte is \<^typ>\<open>8 word\<close>, \<open>uint32_t\<close> is \<^typ>\<open>32 word\<close>,
    \<open>uint64_t\<close>, \<open>size_t\<close> values that are stored are \<^typ>\<open>64 word\<close>; lengths of
    in-memory buffers are \<^typ>\<open>nat\<close>.
  \<^item> A C function that returns an \<open>int\<close> status and updates an object through a
    pointer is a function to \<open>'s cret\<close>, the status and the new object.
  \<^item> A C++ function that may throw is a function to \<open>'e + 'a\<close>, \<open>Inl\<close> the exception.
  \<^item> \<open>memcpy\<close> and \<open>memset\<close> at an offset, and the byte-order macros of
    \<open>mbedtls/library/common.h\<close>.
\<close>

unbundle bit_operations_syntax

type_synonym byte = "8 word"
type_synonym u8 = "8 word"
type_synonym u16 = "16 word"
type_synonym u32 = "32 word"
type_synonym u64 = "64 word"
type_synonym bytes = "byte list"

type_synonym 's cret = "int \<times> 's"

named_theorems buf_simps "rewriting of buffer updates"
named_theorems sum_simps "rewriting of fallible computations"

definition MBEDTLS_ERR_ERROR_GENERIC_ERROR :: int where
  "MBEDTLS_ERR_ERROR_GENERIC_ERROR = - 0x0001"
definition MBEDTLS_ERR_ERROR_CORRUPTION_DETECTED :: int where
  "MBEDTLS_ERR_ERROR_CORRUPTION_DETECTED = - 0x006E"

section \<open>Fallible computations\<close>

definition bindE :: "'e + 'a \<Rightarrow> ('a \<Rightarrow> 'e + 'b) \<Rightarrow> 'e + 'b" where
  "bindE m f = (case m of Inl e \<Rightarrow> Inl e | Inr a \<Rightarrow> f a)"

definition guardE :: "bool \<Rightarrow> 'e \<Rightarrow> 'e + unit" where
  "guardE b e = (if b then Inr () else Inl e)"

lemma bindE_Inl [simp, sum_simps]: "bindE (Inl e) f = Inl e"
  by (simp add: bindE_def)

lemma bindE_Inr [simp, sum_simps]: "bindE (Inr a) f = f a"
  by (simp add: bindE_def)

lemma bindE_eq_Inr [sum_simps]: "bindE m f = Inr b \<longleftrightarrow> (\<exists>a. m = Inr a \<and> f a = Inr b)"
  by (auto simp: bindE_def split: sum.splits)

lemma bindE_eq_Inl [sum_simps]:
  "bindE m f = Inl e \<longleftrightarrow> m = Inl e \<or> (\<exists>a. m = Inr a \<and> f a = Inl e)"
  by (auto simp: bindE_def split: sum.splits)

lemma bindE_cong [fundef_cong]:
  "m = m' \<Longrightarrow> (\<And>a. m' = Inr a \<Longrightarrow> f a = f' a) \<Longrightarrow> bindE m f = bindE m' f'"
  by (auto simp: bindE_def split: sum.splits)

lemma bindE_assoc: "bindE (bindE m f) g = bindE m (\<lambda>a. bindE (f a) g)"
  by (auto simp: bindE_def split: sum.splits)

lemma guardE_True [simp, sum_simps]: "guardE True e = Inr ()"
  by (simp add: guardE_def)

lemma guardE_False [simp, sum_simps]: "guardE False e = Inl e"
  by (simp add: guardE_def)

lemma guardE_eq_Inr [sum_simps]: "guardE b e = Inr u \<longleftrightarrow> b"
  by (simp add: guardE_def)

lemma guardE_eq_Inl [sum_simps]: "guardE b e = Inl e' \<longleftrightarrow> \<not> b \<and> e' = e"
  by (auto simp: guardE_def)

section \<open>Buffers\<close>

text \<open>\<open>memcpy(buf + off, src, length src)\<close> and \<open>memset(buf + off, c, n)\<close>.\<close>

definition memcpy_at :: "'a list \<Rightarrow> nat \<Rightarrow> 'a list \<Rightarrow> 'a list" where
  "memcpy_at buf off src = take off buf @ src @ drop (off + length src) buf"

definition memset_at :: "'a list \<Rightarrow> nat \<Rightarrow> 'a \<Rightarrow> nat \<Rightarrow> 'a list" where
  "memset_at buf off c n = memcpy_at buf off (replicate n c)"

lemma length_memcpy_at [simp, buf_simps]:
  "off + length src \<le> length buf \<Longrightarrow> length (memcpy_at buf off src) = length buf"
  by (simp add: memcpy_at_def)

lemma length_memset_at [simp, buf_simps]:
  "off + n \<le> length buf \<Longrightarrow> length (memset_at buf off c n) = length buf"
  by (simp add: memset_at_def)

lemma take_memcpy_at [buf_simps]:
  "off \<le> length buf \<Longrightarrow> take (off + length src) (memcpy_at buf off src) = take off buf @ src"
  by (simp add: memcpy_at_def)

lemma take_memcpy_before [buf_simps]:
  "n \<le> off \<Longrightarrow> off \<le> length buf \<Longrightarrow> take n (memcpy_at buf off src) = take n buf"
  by (simp add: memcpy_at_def min_absorb1)

lemma drop_memcpy_after [buf_simps]:
  "off \<le> length buf \<Longrightarrow> drop (off + length src) (memcpy_at buf off src) = drop (off + length src) buf"
  by (simp add: memcpy_at_def)

lemma memcpy_at_full:
  "off + length src = length buf \<Longrightarrow> memcpy_at buf off src = take off buf @ src"
  by (simp add: memcpy_at_def)

lemma memcpy_at_nil [simp]: "memcpy_at buf off [] = buf"
  by (simp add: memcpy_at_def)

lemma nth_memcpy_at:
  "off + length src \<le> length buf \<Longrightarrow> i < length buf \<Longrightarrow>
   memcpy_at buf off src ! i
     = (if i < off then buf ! i else if i < off + length src then src ! (i - off) else buf ! i)"
  by (auto simp: memcpy_at_def nth_append min_def)

lemma memcpy_at_append:
  "off \<le> length buf \<Longrightarrow> memcpy_at (memcpy_at buf off xs) (off + length xs) ys = memcpy_at buf off (xs @ ys)"
  by (simp add: memcpy_at_def ac_simps)

lemma concat_map_nth: "concat (map f xs) = concat (map (\<lambda>i. f (xs ! i)) [0..<length xs])"
proof -
  have "map (\<lambda>i. f (xs ! i)) [0..<length xs] = map f (map (\<lambda>i. xs ! i) [0..<length xs])"
    by simp
  then show ?thesis by (simp only: map_nth)
qed

section \<open>Masks\<close>

named_theorems mask_simps "masking with a power of two minus one"

lemma unat_and_mask [mask_simps]: "unat ((x::'a::len word) AND mask n) = unat x mod 2 ^ n"
  unfolding take_bit_eq_mask [symmetric] unsigned_take_bit_eq by (rule take_bit_eq_mod)

lemma unat_and_0x3F [mask_simps]: "unat ((x::u32) AND 0x3F) = unat x mod 64"
  using unat_and_mask [of x 6] by (simp add: mask_eq_exp_minus_1)

lemma unat_and_0x7F [mask_simps]: "unat ((x::u64) AND 0x7F) = unat x mod 128"
  using unat_and_mask [of x 7] by (simp add: mask_eq_exp_minus_1)

lemma and_ones32 [mask_simps]: "(x::u32) AND 0xFFFFFFFF = x"
  using take_bit_eq_mask [of 32 x] by (simp add: mask_eq_exp_minus_1 take_bit_word_eq_self)

lemma and_0x0F: "(n::nat) AND 0x0F = n mod 16"
  using take_bit_eq_mask [of 4 n] by (simp add: mask_eq_exp_minus_1 take_bit_eq_mod)

lemma rotl32:
  assumes "n < 32"
  shows "push_bit n x OR drop_bit (32 - n) (x::u32) = word_rotl n x"
proof (rule bit_word_eqI)
  fix i assume i: "i < LENGTH(32)"
  have e: "(i + (LENGTH(32) - n mod LENGTH(32))) mod LENGTH(32) = (if n \<le> i then i - n else 32 - n + i)"
    using i assms by (auto simp: mod_if)
  have "bit x (32 - n + i) \<Longrightarrow> i < n"
    using bit_imp_le_length [of x "32 - n + i"] assms by simp
  then show "bit (push_bit n x OR drop_bit (32 - n) x) i = bit (word_rotl n x) i"
    unfolding bit_word_rotl_iff e bit_or_iff bit_push_bit_iff bit_drop_bit_eq using i
    by auto
qed

lemma rotl64:
  assumes "n < 64"
  shows "push_bit n x OR drop_bit (64 - n) (x::u64) = word_rotl n x"
proof (rule bit_word_eqI)
  fix i assume i: "i < LENGTH(64)"
  have e: "(i + (LENGTH(64) - n mod LENGTH(64))) mod LENGTH(64) = (if n \<le> i then i - n else 64 - n + i)"
    using i assms by (auto simp: mod_if)
  have "bit x (64 - n + i) \<Longrightarrow> i < n"
    using bit_imp_le_length [of x "64 - n + i"] assms by simp
  then show "bit (push_bit n x OR drop_bit (64 - n) x) i = bit (word_rotl n x) i"
    unfolding bit_word_rotl_iff e bit_or_iff bit_push_bit_iff bit_drop_bit_eq using i
    by auto
qed

lemma rotr32:
  assumes "n < 32"
  shows "drop_bit n x OR push_bit (32 - n) (x::u32) = word_rotr n x"
proof (rule bit_word_eqI)
  fix i assume i: "i < LENGTH(32)"
  have "(i + n) mod LENGTH(32) = (if i + n < 32 then i + n else i + n - 32)"
    using i assms by (auto simp: mod_if)
  moreover have "bit x (n + i) \<Longrightarrow> i + n < 32"
    using bit_imp_le_length [of x "n + i"] by simp
  ultimately show "bit (drop_bit n x OR push_bit (32 - n) x) i = bit (word_rotr n x) i"
    unfolding bit_word_rotr_iff bit_or_iff bit_push_bit_iff bit_drop_bit_eq using i assms
    by (auto simp: add.commute)
qed

lemma rotr64:
  assumes "n < 64"
  shows "drop_bit n x OR push_bit (64 - n) (x::u64) = word_rotr n x"
proof (rule bit_word_eqI)
  fix i assume i: "i < LENGTH(64)"
  have "(i + n) mod LENGTH(64) = (if i + n < 64 then i + n else i + n - 64)"
    using i assms by (auto simp: mod_if)
  moreover have "bit x (n + i) \<Longrightarrow> i + n < 64"
    using bit_imp_le_length [of x "n + i"] by simp
  ultimately show "bit (drop_bit n x OR push_bit (64 - n) x) i = bit (word_rotr n x) i"
    unfolding bit_word_rotr_iff bit_or_iff bit_push_bit_iff bit_drop_bit_eq using i assms
    by (auto simp: add.commute)
qed

section \<open>Byte order\<close>

definition MBEDTLS_BYTE_0 :: "'a::len word \<Rightarrow> byte" where
  "MBEDTLS_BYTE_0 x = ucast (x AND 0xff)"
definition MBEDTLS_BYTE_1 :: "'a::len word \<Rightarrow> byte" where
  "MBEDTLS_BYTE_1 x = ucast (drop_bit 8 x AND 0xff)"
definition MBEDTLS_BYTE_2 :: "'a::len word \<Rightarrow> byte" where
  "MBEDTLS_BYTE_2 x = ucast (drop_bit 16 x AND 0xff)"
definition MBEDTLS_BYTE_3 :: "'a::len word \<Rightarrow> byte" where
  "MBEDTLS_BYTE_3 x = ucast (drop_bit 24 x AND 0xff)"
definition MBEDTLS_BYTE_4 :: "'a::len word \<Rightarrow> byte" where
  "MBEDTLS_BYTE_4 x = ucast (drop_bit 32 x AND 0xff)"
definition MBEDTLS_BYTE_5 :: "'a::len word \<Rightarrow> byte" where
  "MBEDTLS_BYTE_5 x = ucast (drop_bit 40 x AND 0xff)"
definition MBEDTLS_BYTE_6 :: "'a::len word \<Rightarrow> byte" where
  "MBEDTLS_BYTE_6 x = ucast (drop_bit 48 x AND 0xff)"
definition MBEDTLS_BYTE_7 :: "'a::len word \<Rightarrow> byte" where
  "MBEDTLS_BYTE_7 x = ucast (drop_bit 56 x AND 0xff)"

definition GET_UINT32_BE :: "bytes \<Rightarrow> nat \<Rightarrow> u32" where
  "GET_UINT32_BE data off =
     push_bit 24 (ucast (data ! off)) OR push_bit 16 (ucast (data ! (off + 1)))
     OR push_bit 8 (ucast (data ! (off + 2))) OR ucast (data ! (off + 3))"

definition GET_UINT32_LE :: "bytes \<Rightarrow> nat \<Rightarrow> u32" where
  "GET_UINT32_LE data off =
     ucast (data ! off) OR push_bit 8 (ucast (data ! (off + 1)))
     OR push_bit 16 (ucast (data ! (off + 2))) OR push_bit 24 (ucast (data ! (off + 3)))"

definition GET_UINT64_BE :: "bytes \<Rightarrow> nat \<Rightarrow> u64" where
  "GET_UINT64_BE data off =
     push_bit 56 (ucast (data ! off)) OR push_bit 48 (ucast (data ! (off + 1)))
     OR push_bit 40 (ucast (data ! (off + 2))) OR push_bit 32 (ucast (data ! (off + 3)))
     OR push_bit 24 (ucast (data ! (off + 4))) OR push_bit 16 (ucast (data ! (off + 5)))
     OR push_bit 8 (ucast (data ! (off + 6))) OR ucast (data ! (off + 7))"

definition GET_UINT64_LE :: "bytes \<Rightarrow> nat \<Rightarrow> u64" where
  "GET_UINT64_LE data off =
     ucast (data ! off) OR push_bit 8 (ucast (data ! (off + 1)))
     OR push_bit 16 (ucast (data ! (off + 2))) OR push_bit 24 (ucast (data ! (off + 3)))
     OR push_bit 32 (ucast (data ! (off + 4))) OR push_bit 40 (ucast (data ! (off + 5)))
     OR push_bit 48 (ucast (data ! (off + 6))) OR push_bit 56 (ucast (data ! (off + 7)))"

text \<open>The bytes the \<open>PUT\<close> macros store, in the order of the addresses they store them at.\<close>

definition BYTES32_BE :: "u32 \<Rightarrow> bytes" where
  "BYTES32_BE n = [MBEDTLS_BYTE_3 n, MBEDTLS_BYTE_2 n, MBEDTLS_BYTE_1 n, MBEDTLS_BYTE_0 n]"
definition BYTES32_LE :: "u32 \<Rightarrow> bytes" where
  "BYTES32_LE n = [MBEDTLS_BYTE_0 n, MBEDTLS_BYTE_1 n, MBEDTLS_BYTE_2 n, MBEDTLS_BYTE_3 n]"
definition BYTES64_BE :: "u64 \<Rightarrow> bytes" where
  "BYTES64_BE n = [MBEDTLS_BYTE_7 n, MBEDTLS_BYTE_6 n, MBEDTLS_BYTE_5 n, MBEDTLS_BYTE_4 n,
                   MBEDTLS_BYTE_3 n, MBEDTLS_BYTE_2 n, MBEDTLS_BYTE_1 n, MBEDTLS_BYTE_0 n]"
definition BYTES64_LE :: "u64 \<Rightarrow> bytes" where
  "BYTES64_LE n = [MBEDTLS_BYTE_0 n, MBEDTLS_BYTE_1 n, MBEDTLS_BYTE_2 n, MBEDTLS_BYTE_3 n,
                   MBEDTLS_BYTE_4 n, MBEDTLS_BYTE_5 n, MBEDTLS_BYTE_6 n, MBEDTLS_BYTE_7 n]"

definition PUT_UINT32_BE :: "u32 \<Rightarrow> bytes \<Rightarrow> nat \<Rightarrow> bytes" where
  "PUT_UINT32_BE n data off = memcpy_at data off (BYTES32_BE n)"
definition PUT_UINT32_LE :: "u32 \<Rightarrow> bytes \<Rightarrow> nat \<Rightarrow> bytes" where
  "PUT_UINT32_LE n data off = memcpy_at data off (BYTES32_LE n)"
definition PUT_UINT64_BE :: "u64 \<Rightarrow> bytes \<Rightarrow> nat \<Rightarrow> bytes" where
  "PUT_UINT64_BE n data off = memcpy_at data off (BYTES64_BE n)"
definition PUT_UINT64_LE :: "u64 \<Rightarrow> bytes \<Rightarrow> nat \<Rightarrow> bytes" where
  "PUT_UINT64_LE n data off = memcpy_at data off (BYTES64_LE n)"

lemma length_BYTES [simp]:
  "length (BYTES32_BE n) = 4" "length (BYTES32_LE n) = 4"
  "length (BYTES64_BE m) = 8" "length (BYTES64_LE m) = 8"
  by (simp_all add: BYTES32_BE_def BYTES32_LE_def BYTES64_BE_def BYTES64_LE_def)

lemmas BYTE_defs =
  MBEDTLS_BYTE_0_def MBEDTLS_BYTE_1_def MBEDTLS_BYTE_2_def MBEDTLS_BYTE_3_def
  MBEDTLS_BYTE_4_def MBEDTLS_BYTE_5_def MBEDTLS_BYTE_6_def MBEDTLS_BYTE_7_def

text \<open>Reading back what was stored gives the value, in either byte order.\<close>

lemma and_0xff: "(x AND 0xff) = take_bit 8 (x :: 'a::len word)"
  using take_bit_eq_mask [of 8 x] by (simp add: mask_eq_exp_minus_1)

lemma ucast_and_0xff: "(ucast (x AND 0xff) :: byte) = ucast (x :: 'a::len word)"
  unfolding and_0xff by (rule bit_word_eqI) (auto simp: bit_simps dest: bit_imp_le_length)

lemma MBEDTLS_BYTE_alt:
  "MBEDTLS_BYTE_0 x = ucast x" "MBEDTLS_BYTE_1 x = ucast (drop_bit 8 x)"
  "MBEDTLS_BYTE_2 x = ucast (drop_bit 16 x)" "MBEDTLS_BYTE_3 x = ucast (drop_bit 24 x)"
  "MBEDTLS_BYTE_4 x = ucast (drop_bit 32 x)" "MBEDTLS_BYTE_5 x = ucast (drop_bit 40 x)"
  "MBEDTLS_BYTE_6 x = ucast (drop_bit 48 x)" "MBEDTLS_BYTE_7 x = ucast (drop_bit 56 x)"
  by (simp_all add: BYTE_defs ucast_and_0xff)

lemma octet_cases:
  fixes n :: nat
  assumes "n < 32"
  obtains "n < 8" | "8 \<le> n" "n < 16" | "16 \<le> n" "n < 24" | "24 \<le> n" "n < 32"
  using assms by linarith

lemma GET_BYTES32_BE: "GET_UINT32_BE (BYTES32_BE n) 0 = n"
proof (rule bit_word_eqI)
  fix i assume "i < LENGTH(32)"
  then have "i < 32" by simp
  then show "bit (GET_UINT32_BE (BYTES32_BE n) 0) i = bit n i"
    unfolding GET_UINT32_BE_def BYTES32_BE_def MBEDTLS_BYTE_alt
    by (cases rule: octet_cases) (auto simp: bit_simps)
qed

lemma GET_BYTES32_LE: "GET_UINT32_LE (BYTES32_LE n) 0 = n"
proof (rule bit_word_eqI)
  fix i assume "i < LENGTH(32)"
  then have "i < 32" by simp
  then show "bit (GET_UINT32_LE (BYTES32_LE n) 0) i = bit n i"
    unfolding GET_UINT32_LE_def BYTES32_LE_def MBEDTLS_BYTE_alt
    by (cases rule: octet_cases) (auto simp: bit_simps)
qed

end
