(* ===== verification/HashStream.thy ===== *)
theory HashStream
  imports Prelude
begin

text \<open>
  The block-buffering engine the mbed TLS message digests share (\<open>md5.c\<close>, \<open>sha1.c\<close>,
  \<open>ripemd160.c\<close>, \<open>sha256.c\<close>, \<open>sha512.c\<close>): the context layout, the block loop, the
  padding, and the locale \<open>md_stream\<close> in which streaming and finalisation are proved
  once. Each digest theory interprets the locale on its own definitions.
\<close>

record 'w md_context =
  total0 :: 'w
  total1 :: 'w
  state :: "'w list"
  buffer :: bytes

section \<open>The abstract digest: absorbing whole blocks\<close>

function absorb :: "nat \<Rightarrow> ('s \<Rightarrow> bytes \<Rightarrow> 's) \<Rightarrow> 's \<Rightarrow> bytes \<Rightarrow> 's" where
  "absorb B cf st m =
     (if 0 < B \<and> B \<le> length m then absorb B cf (cf st (take B m)) (drop B m) else st)"
  by pat_completeness auto
termination
  by (relation "measure (\<lambda>(B, cf, st, m). length m)") auto

declare absorb.simps [simp del]

lemma absorb_short: "length m < B \<Longrightarrow> absorb B cf st m = st"
  by (simp add: absorb.simps)

lemma absorb_nil [simp]: "absorb B cf st [] = st"
  by (subst absorb.simps) auto

lemma absorb_block:
  "0 < B \<Longrightarrow> length b = B \<Longrightarrow> absorb B cf st (b @ m) = absorb B cf (cf st b) m"
  by (subst absorb.simps) simp

lemma absorb_length:
  "length st = k \<Longrightarrow> (\<And>s d. length (cf s d) = k) \<Longrightarrow> length (absorb B cf st m) = k"
  by (induction B cf st m rule: absorb.induct) (subst absorb.simps, auto)

lemma absorb_cong:
  fixes st :: 's
  assumes "P st" and "\<And>s d. P s \<Longrightarrow> cf s d = cg s d \<and> P (cg s d)"
  shows "absorb B cf st m = absorb B cg st m"
  using assms(1)
proof (induction "length m" arbitrary: m st rule: less_induct)
  case less
  show ?case
  proof (cases "0 < B \<and> B \<le> length m")
    case True
    have "absorb B h st m = absorb B h (h st (take B m)) (drop B m)" for h :: "'s \<Rightarrow> bytes \<Rightarrow> 's"
      using True absorb_block [of B "take B m" h st "drop B m"] by simp
    moreover have "absorb B cf (cg st (take B m)) (drop B m) = absorb B cg (cg st (take B m)) (drop B m)"
      using True assms(2) [OF less(2), of "take B m"] by (intro less(1)) auto
    ultimately show ?thesis using assms(2) [OF less(2), of "take B m"] by simp
  next
    case False
    then show ?thesis
      using absorb.simps [of B cf st m] absorb.simps [of B cg st m] by (simp only: False if_False)
  qed
qed

lemma absorb_append:
  assumes "0 < B" and "length m mod B = 0"
  shows "absorb B cf st (m @ x) = absorb B cf (absorb B cf st m) x"
  using assms(2)
proof (induction "length m" arbitrary: m st rule: less_induct)
  case less
  show ?case
  proof (cases "m = []")
    case False
    then have le: "B \<le> length m"
      using less.prems assms(1) by (metis length_0_conv mod_less not_le)
    then have rest: "length (drop B m) mod B = 0"
      using less.prems by (simp add: mod_if)
    have ms: "m = take B m @ drop B m" by simp
    have "absorb B cf st (m @ x) = absorb B cf (cf st (take B m)) (drop B m @ x)"
      using absorb_block [of B "take B m" cf st "drop B m @ x"] assms(1) le
      by (simp flip: append_assoc)
    also have "\<dots> = absorb B cf (absorb B cf (cf st (take B m)) (drop B m)) x"
      using less.hyps [OF _ rest] le assms(1) False by simp
    also have "absorb B cf (cf st (take B m)) (drop B m) = absorb B cf st m"
      using absorb_block [of B "take B m" cf st "drop B m"] assms(1) le by simp
    finally show ?thesis .
  qed simp
qed

text \<open>A message splits into its whole blocks and its tail.\<close>

definition blocks_of :: "nat \<Rightarrow> bytes \<Rightarrow> bytes" where
  "blocks_of B m = take (length m - length m mod B) m"

definition tail_of :: "nat \<Rightarrow> bytes \<Rightarrow> bytes" where
  "tail_of B m = drop (length m - length m mod B) m"

lemma blocks_tail: "m = blocks_of B m @ tail_of B m"
  by (simp add: blocks_of_def tail_of_def)

lemma length_blocks_of: "length (blocks_of B m) = length m - length m mod B"
  by (simp add: blocks_of_def)

lemma length_blocks_mod [simp]: "length (blocks_of B m) mod B = 0"
  by (simp add: length_blocks_of minus_mod_eq_mult_div)

lemma length_tail_of [simp]: "length (tail_of B m) = length m mod B"
  by (simp add: tail_of_def)

lemma absorb_blocks_of:
  assumes "0 < B" shows "absorb B cf st (blocks_of B m) = absorb B cf st m"
proof -
  have "absorb B cf st m = absorb B cf (absorb B cf st (blocks_of B m)) (tail_of B m)"
    using absorb_append [OF assms, of "blocks_of B m" cf st "tail_of B m"] blocks_tail [of m B]
    by simp
  also have "\<dots> = absorb B cf st (blocks_of B m)"
    using assms by (simp add: absorb_short)
  finally show ?thesis by simp
qed

lemma absorb_tail:
  assumes "0 < B"
  shows "absorb B cf st (m @ x) = absorb B cf (absorb B cf st m) (tail_of B m @ x)"
proof -
  have "m @ x = blocks_of B m @ (tail_of B m @ x)"
    using blocks_tail [of m B] by (metis append.assoc)
  then have "absorb B cf st (m @ x) = absorb B cf st (blocks_of B m @ (tail_of B m @ x))"
    by (rule arg_cong)
  then show ?thesis
    using absorb_append [OF assms, of "blocks_of B m" cf st "tail_of B m @ x"]
      absorb_blocks_of [OF assms, of cf st m]
    by simp
qed

lemma drop_length_add: "drop (length xs + k) (xs @ ys) = drop k ys"
  by simp

lemma tail_of_append:
  assumes "0 < B" shows "tail_of B (m @ x) = tail_of B (tail_of B m @ x)"
proof -
  have m: "m @ x = blocks_of B m @ (tail_of B m @ x)"
    using blocks_tail [of m B] by (metis append.assoc)
  have len: "length m + length x = length (blocks_of B m) + length (tail_of B m @ x)"
    using m by (metis length_append)
  have md: "(length m + length x) mod B = length (tail_of B m @ x) mod B"
    by (simp add: mod_simps)
  have sub: "length m + length x - (length m + length x) mod B
     = length (blocks_of B m) + (length (tail_of B m @ x) - length (tail_of B m @ x) mod B)"
    using md by (simp add: len mod_less_eq_dividend)
  have "tail_of B (m @ x)
     = drop (length m + length x - (length m + length x) mod B) (blocks_of B m @ (tail_of B m @ x))"
    unfolding tail_of_def [of B "m @ x"] length_append using m by (rule arg_cong)
  also have "\<dots> = drop (length (tail_of B m @ x) - length (tail_of B m @ x) mod B) (tail_of B m @ x)"
    unfolding sub by (rule drop_length_add)
  finally show ?thesis
    by (simp add: tail_of_def [of B "tail_of B m @ x"])
qed

section \<open>Big-endian and little-endian byte strings of a number\<close>

definition be_bytes :: "nat \<Rightarrow> nat \<Rightarrow> bytes" where
  "be_bytes k n = map (\<lambda>i. of_nat (n div 256 ^ (k - 1 - i))) [0..<k]"

definition le_bytes :: "nat \<Rightarrow> nat \<Rightarrow> bytes" where
  "le_bytes k n = map (\<lambda>i. of_nat (n div 256 ^ i)) [0..<k]"

lemma length_be_bytes [simp]: "length (be_bytes k n) = k"
  by (simp add: be_bytes_def)

lemma length_le_bytes [simp]: "length (le_bytes k n) = k"
  by (simp add: le_bytes_def)

lemma be_bytes_add: "be_bytes (a + b) n = be_bytes a (n div 256 ^ b) @ be_bytes b n"
proof -
  have "map (\<lambda>i. of_nat (n div 256 ^ (a + b - 1 - i)) :: byte) [0..<a]
     = map (\<lambda>i. of_nat (n div 256 ^ b div 256 ^ (a - 1 - i))) [0..<a]"
    by (rule map_cong) (auto simp: div_mult2_eq [symmetric] power_add [symmetric] add.commute)
  moreover have "map (\<lambda>i. of_nat (n div 256 ^ (a + b - 1 - i)) :: byte) [a..<a + b]
     = map (\<lambda>i. of_nat (n div 256 ^ (b - 1 - i))) [0..<b]"
    by (rule nth_equalityI) auto
  ultimately show ?thesis
    by (simp add: be_bytes_def upt_add_eq_append [of 0 a b] del: upt_Suc)
qed

lemma le_bytes_add: "le_bytes (a + b) n = le_bytes a n @ le_bytes b (n div 256 ^ a)"
proof -
  have "map (\<lambda>i. of_nat (n div 256 ^ i) :: byte) [a..<a + b]
     = map (\<lambda>i. of_nat (n div 256 ^ a div 256 ^ i)) [0..<b]"
    by (rule nth_equalityI) (auto simp: div_mult2_eq [symmetric] power_add [symmetric] add.commute)
  then show ?thesis
    by (simp add: le_bytes_def upt_add_eq_append [of 0 a b] del: upt_Suc)
qed

lemma ucast_drop_bit_of_nat:
  assumes "8 * i + 8 \<le> LENGTH('w::len)"
  shows "(ucast (drop_bit (8 * i) (of_nat n :: 'w word)) :: byte) = of_nat (n div 256 ^ i)"
proof (rule bit_word_eqI)
  fix j assume "j < LENGTH(8)"
  then have j: "j < 8" by simp
  have e: "(256::nat) ^ i = 2 ^ (8 * i)"
    by (simp add: power_mult)
  show "bit (ucast (drop_bit (8 * i) (of_nat n :: 'w word)) :: byte) j
      = bit (of_nat (n div 256 ^ i) :: byte) j"
    using j assms unfolding e
    by (simp add: bit_simps drop_bit_eq_div [symmetric])
qed

lemma BYTES32_BE_of_nat: "BYTES32_BE (of_nat n) = be_bytes 4 n"
  using ucast_drop_bit_of_nat [of 0 n, where 'w = 32] ucast_drop_bit_of_nat [of 1 n, where 'w = 32]
    ucast_drop_bit_of_nat [of 2 n, where 'w = 32] ucast_drop_bit_of_nat [of 3 n, where 'w = 32]
  by (simp add: BYTES32_BE_def be_bytes_def MBEDTLS_BYTE_alt upt_rec)

lemma BYTES32_LE_of_nat: "BYTES32_LE (of_nat n) = le_bytes 4 n"
  using ucast_drop_bit_of_nat [of 0 n, where 'w = 32] ucast_drop_bit_of_nat [of 1 n, where 'w = 32]
    ucast_drop_bit_of_nat [of 2 n, where 'w = 32] ucast_drop_bit_of_nat [of 3 n, where 'w = 32]
  by (simp add: BYTES32_LE_def le_bytes_def MBEDTLS_BYTE_alt upt_rec)

lemma BYTES64_BE_of_nat: "BYTES64_BE (of_nat n) = be_bytes 8 n"
  using ucast_drop_bit_of_nat [of 0 n, where 'w = 64] ucast_drop_bit_of_nat [of 1 n, where 'w = 64]
    ucast_drop_bit_of_nat [of 2 n, where 'w = 64] ucast_drop_bit_of_nat [of 3 n, where 'w = 64]
    ucast_drop_bit_of_nat [of 4 n, where 'w = 64] ucast_drop_bit_of_nat [of 5 n, where 'w = 64]
    ucast_drop_bit_of_nat [of 6 n, where 'w = 64] ucast_drop_bit_of_nat [of 7 n, where 'w = 64]
  by (simp add: BYTES64_BE_def be_bytes_def MBEDTLS_BYTE_alt upt_rec)

section \<open>Rotating variable roles\<close>

text \<open>The unrolled rounds rename their five variables instead of moving values: at step \<open>t\<close>
  the variable with role \<open>j\<close> is number \<open>role5 j t\<close>.\<close>

definition role5 :: "nat \<Rightarrow> nat \<Rightarrow> nat" where
  "role5 j t = (j + 4 * t) mod 5"

lemma role5_mod: "role5 j t = (j + 4 * (t mod 5)) mod 5"
  unfolding role5_def by (metis mod_add_right_eq mod_mult_right_eq)

lemma role5_eq:
  assumes "t mod 5 = r"
  shows "role5 j t = (j + 4 * r) mod 5" and "role5 j (Suc t) = (j + 4 * (Suc r mod 5)) mod 5"
  using role5_mod [of j t] role5_mod [of j "Suc t"] assms by (auto simp: mod_Suc_eq)

section \<open>The engine as the digests write it\<close>

text \<open>The loop \<open>while( ilen >= B ) { process( ctx, input ); input += B; ilen -= B; }\<close>
  with its early return on a non-zero status.\<close>

function md_loop :: "nat \<Rightarrow> ('c \<Rightarrow> bytes \<Rightarrow> 'c cret) \<Rightarrow> 'c \<Rightarrow> bytes \<Rightarrow> int \<times> 'c \<times> bytes" where
  "md_loop B process ctx input =
     (if 0 < B \<and> B \<le> length input then
        (let (ret, ctx) = process ctx (take B input) in
         if ret \<noteq> 0 then (ret, ctx, input) else md_loop B process ctx (drop B input))
      else (0, ctx, input))"
  by pat_completeness auto
termination
  by (relation "measure (\<lambda>(B, process, ctx, input). length input)") auto

declare md_loop.simps [simp del]

text \<open>\<open>sha256.c\<close> and \<open>sha512.c\<close> split the loop: \<open>process_many\<close> runs over all whole blocks and
  returns the number of bytes it consumed, 0 when a block fails; \<open>update\<close> calls it until less
  than a block is left, with \<open>MBEDTLS_ERR_ERROR_GENERIC_ERROR\<close> when no block was consumed.\<close>

function md_many :: "nat \<Rightarrow> ('c \<Rightarrow> bytes \<Rightarrow> 'c cret) \<Rightarrow> 'c \<Rightarrow> bytes \<Rightarrow> nat \<Rightarrow> nat \<times> 'c" where
  "md_many B process ctx data processed =
     (if 0 < B \<and> B \<le> length data then
        (let (ret, ctx) = process ctx (take B data) in
         if ret \<noteq> 0 then (0, ctx) else md_many B process ctx (drop B data) (processed + B))
      else (processed, ctx))"
  by pat_completeness auto
termination
  by (relation "measure (\<lambda>(B, process, ctx, data, processed). length data)") auto

declare md_many.simps [simp del]

function md_many_loop ::
  "nat \<Rightarrow> int \<Rightarrow> ('c \<Rightarrow> bytes \<Rightarrow> nat \<times> 'c) \<Rightarrow> 'c \<Rightarrow> bytes \<Rightarrow> int \<times> 'c \<times> bytes" where
  "md_many_loop B err many ctx input =
     (if 0 < B \<and> B \<le> length input then
        (let (processed, ctx) = many ctx input in
         if processed < B then (err, ctx, input)
         else md_many_loop B err many ctx (drop processed input))
      else (0, ctx, input))"
  by pat_completeness auto
termination
  by (relation "measure (\<lambda>(B, err, many, ctx, input). length input)") auto

declare md_many_loop.simps [simp del]

definition md_update_rest ::
  "nat \<Rightarrow> (('w, 'z) md_context_scheme \<Rightarrow> bytes \<Rightarrow> ('w, 'z) md_context_scheme cret) \<Rightarrow>
   ('w, 'z) md_context_scheme \<Rightarrow> bytes \<Rightarrow> nat \<Rightarrow> ('w, 'z) md_context_scheme cret" where
  "md_update_rest B process ctx input left =
     (let (ret, ctx, input) = md_loop B process ctx input in
      if ret \<noteq> 0 then (ret, ctx)
      else if length input > 0 then (0, ctx\<lparr>buffer := memcpy_at (buffer ctx) left input\<rparr>)
      else (0, ctx))"

definition md_update ::
  "nat \<Rightarrow> (('w::len word, 'z) md_context_scheme \<Rightarrow> bytes \<Rightarrow> ('w word, 'z) md_context_scheme cret) \<Rightarrow>
   ('w word, 'z) md_context_scheme \<Rightarrow> bytes \<Rightarrow> ('w word, 'z) md_context_scheme cret" where
  "md_update B process ctx input =
     (let ilen = length input in
      if ilen = 0 then (0, ctx)
      else
        let left = unat (total0 ctx) mod B;
            fill = B - left;
            ctx = ctx\<lparr>total0 := total0 ctx + of_nat ilen\<rparr>;
            ctx = (if total0 ctx < of_nat ilen then ctx\<lparr>total1 := total1 ctx + 1\<rparr> else ctx)
        in if left \<noteq> 0 \<and> fill \<le> ilen then
             let ctx = ctx\<lparr>buffer := memcpy_at (buffer ctx) left (take fill input)\<rparr>;
                 (ret, ctx) = process ctx (buffer ctx)
             in if ret \<noteq> 0 then (ret, ctx) else md_update_rest B process ctx (drop fill input) 0
           else md_update_rest B process ctx input left)"

text \<open>The padding and last block of \<open>finish\<close>: \<open>L\<close> bytes of the last block hold the bit
  length, stored by \<open>lenb high low\<close>.\<close>

definition md_last ::
  "nat \<Rightarrow> nat \<Rightarrow> ('w::len word \<Rightarrow> 'w word \<Rightarrow> bytes) \<Rightarrow>
   (('w word, 'z) md_context_scheme \<Rightarrow> bytes \<Rightarrow> ('w word, 'z) md_context_scheme cret) \<Rightarrow>
   ('w word, 'z) md_context_scheme \<Rightarrow> ('w word, 'z) md_context_scheme cret" where
  "md_last B L lenb process ctx =
     (let high = drop_bit (LENGTH('w) - 3) (total0 ctx) OR push_bit 3 (total1 ctx);
          low = push_bit 3 (total0 ctx);
          ctx = ctx\<lparr>buffer := memcpy_at (buffer ctx) (B - L) (lenb high low)\<rparr>
      in process ctx (buffer ctx))"

definition md_finish ::
  "nat \<Rightarrow> nat \<Rightarrow> ('w::len word \<Rightarrow> 'w word \<Rightarrow> bytes) \<Rightarrow>
   (('w word, 'z) md_context_scheme \<Rightarrow> bytes \<Rightarrow> ('w word, 'z) md_context_scheme cret) \<Rightarrow>
   ('w word, 'z) md_context_scheme \<Rightarrow> ('w word, 'z) md_context_scheme cret" where
  "md_finish B L lenb process ctx =
     (let used = unat (total0 ctx) mod B;
          ctx = ctx\<lparr>buffer := (buffer ctx)[used := 0x80]\<rparr>;
          used = used + 1
      in if used \<le> B - L then
           md_last B L lenb process
             (ctx\<lparr>buffer := memset_at (buffer ctx) used 0 (B - L - used)\<rparr>)
         else
           let ctx = ctx\<lparr>buffer := memset_at (buffer ctx) used 0 (B - used)\<rparr>;
               (ret, ctx) = process ctx (buffer ctx)
           in if ret \<noteq> 0 then (ret, ctx)
              else md_last B L lenb process
                     (ctx\<lparr>buffer := memset_at (buffer ctx) 0 0 (B - L)\<rparr>))"

text \<open>What the digest of a message is: absorb the padded message.\<close>

definition md_zeros :: "nat \<Rightarrow> nat \<Rightarrow> nat \<Rightarrow> nat" where
  "md_zeros B L n = (B - (n + 1 + L) mod B) mod B"

definition md_pad :: "nat \<Rightarrow> nat \<Rightarrow> (nat \<Rightarrow> nat \<Rightarrow> bytes) \<Rightarrow> bytes \<Rightarrow> bytes" where
  "md_pad B L enc m =
     m @ 0x80 # replicate (md_zeros B L (length m)) 0 @ enc L (8 * length m)"

text \<open>The context \<open>ctx\<close> holds the message \<open>m\<close>: its blocks absorbed, its tail buffered, its
  length counted in two words.\<close>

definition md_repr ::
  "nat \<Rightarrow> ('w::len word list \<Rightarrow> bytes \<Rightarrow> 'w word list) \<Rightarrow> 'w word list \<Rightarrow> bytes \<Rightarrow>
   ('w word, 'z) md_context_scheme \<Rightarrow> bool" where
  "md_repr B cf iv m ctx \<longleftrightarrow>
     state ctx = absorb B cf iv m \<and>
     length (buffer ctx) = B \<and>
     take (length m mod B) (buffer ctx) = tail_of B m \<and>
     total0 ctx = of_nat (length m) \<and>
     total1 ctx = of_nat (length m div 2 ^ LENGTH('w))"

section \<open>The engine is correct: the locale of block digests\<close>

lemma of_nat_add_less_iff:
  fixes n i :: nat
  assumes "i < 2 ^ LENGTH('w::len)"
  shows "(of_nat n + of_nat i :: 'w word) < of_nat i
     \<longleftrightarrow> n mod 2 ^ LENGTH('w) + i \<ge> 2 ^ LENGTH('w)"
proof -
  let ?M = "2 ^ LENGTH('w) :: nat"
  have i: "unat (of_nat i :: 'w word) = i"
    using assms by (simp add: unat_of_nat)
  have "unat (of_nat n + of_nat i :: 'w word) = (n mod ?M + i) mod ?M"
    by (simp add: unat_word_ariths unat_of_nat mod_simps)
  then have w: "(of_nat n + of_nat i :: 'w word) < of_nat i \<longleftrightarrow> (n mod ?M + i) mod ?M < i"
    by (simp only: word_less_nat_alt i)
  have lt: "n mod ?M < ?M" by simp
  show ?thesis
  proof (cases "n mod ?M + i < ?M")
    case True
    then show ?thesis by (simp only: w mod_less) simp
  next
    case False
    then have "(n mod ?M + i) mod ?M = n mod ?M + i - ?M"
      using assms lt by (simp only: le_mod_geq not_less) (metis add_less_mono less_diff_conv2 mod_less)
    with False lt show ?thesis by (simp only: w) linarith
  qed
qed

lemma div_add_carry:
  fixes n i M :: nat
  assumes "i < M"
  shows "(n + i) div M = n div M + (if M \<le> n mod M + i then 1 else 0)"
proof -
  have M: "0 < M" using assms by simp
  have "(n + i) div M = ((n mod M + i) + n div M * M) div M"
    by (metis add.assoc add.commute div_mult_mod_eq)
  also have "\<dots> = n div M + (n mod M + i) div M"
    using M by (simp only: div_mult_self1)
  also have "(n mod M + i) div M = (if M \<le> n mod M + i then 1 else 0)"
    using assms mod_less_divisor [OF M, of n] by (auto simp: div_if simp del: mod_less_divisor)
  finally show ?thesis .
qed

lemma low_len_word: "push_bit 3 (of_nat n :: 'w::len word) = of_nat (8 * n)"
  by (simp add: push_bit_eq_mult)

lemma high_len_word:
  assumes "3 \<le> LENGTH('w::len)"
  shows "drop_bit (LENGTH('w) - 3) (of_nat n :: 'w word) OR push_bit 3 (of_nat (n div 2 ^ LENGTH('w)))
     = of_nat (8 * n div 2 ^ LENGTH('w))"
proof (rule bit_word_eqI)
  fix i assume i: "i < LENGTH('w)"
  have n8: "8 * n = push_bit 3 n"
    by (simp add: push_bit_eq_mult)
  have r: "bit (of_nat (8 * n div 2 ^ LENGTH('w)) :: 'w word) i \<longleftrightarrow> bit n (LENGTH('w) + i - 3)"
    unfolding n8 using i assms by (simp add: bit_simps flip: drop_bit_eq_div)
  have a: "bit (drop_bit (LENGTH('w) - 3) (of_nat n :: 'w word)) i
      \<longleftrightarrow> i < 3 \<and> bit n (LENGTH('w) + i - 3)"
    using i assms by (auto simp: bit_simps add.commute)
  have b: "bit (push_bit 3 (of_nat (n div 2 ^ LENGTH('w)) :: 'w word)) i
      \<longleftrightarrow> 3 \<le> i \<and> bit n (LENGTH('w) + i - 3)"
    using i by (auto simp: bit_simps simp flip: drop_bit_eq_div)
  show "bit (drop_bit (LENGTH('w) - 3) (of_nat n :: 'w word)
        OR push_bit 3 (of_nat (n div 2 ^ LENGTH('w)))) i
      = bit (of_nat (8 * n div 2 ^ LENGTH('w)) :: 'w word) i"
    unfolding r bit_or_iff a b by auto
qed

lemma len_field_be32:
  "BYTES32_BE (drop_bit 29 (of_nat n) OR push_bit 3 (of_nat (n div 2 ^ 32))) @ BYTES32_BE (push_bit 3 (of_nat n))
     = be_bytes 8 (8 * n)"
  using high_len_word [of n, where 'w = 32] be_bytes_add [of 4 4 "8 * n"]
    BYTES32_BE_of_nat [of "8 * n"] BYTES32_BE_of_nat [of "8 * n div 2 ^ 32"]
  by (simp add: low_len_word)

lemma len_field_le32:
  "BYTES32_LE (push_bit 3 (of_nat n)) @ BYTES32_LE (drop_bit 29 (of_nat n) OR push_bit 3 (of_nat (n div 2 ^ 32)))
     = le_bytes 8 (8 * n)"
  using high_len_word [of n, where 'w = 32] le_bytes_add [of 4 4 "8 * n"]
    BYTES32_LE_of_nat [of "8 * n"] BYTES32_LE_of_nat [of "8 * n div 2 ^ 32"]
  by (simp add: low_len_word)

lemma len_field_be64:
  "BYTES64_BE (drop_bit 61 (of_nat n) OR push_bit 3 (of_nat (n div 2 ^ 64))) @ BYTES64_BE (push_bit 3 (of_nat n))
     = be_bytes 16 (8 * n)"
  using high_len_word [of n, where 'w = 64] be_bytes_add [of 8 8 "8 * n"]
    BYTES64_BE_of_nat [of "8 * n"] BYTES64_BE_of_nat [of "8 * n div 2 ^ 64"]
  by (simp add: low_len_word)

text \<open>Feeding a message chunk by chunk, stopping at the first non-zero status.\<close>

fun feed :: "('c \<Rightarrow> bytes \<Rightarrow> 'c cret) \<Rightarrow> 'c \<Rightarrow> bytes list \<Rightarrow> 'c cret" where
  "feed upd ctx [] = (0, ctx)"
| "feed upd ctx (x # xs) = (let (ret, ctx) = upd ctx x in if ret \<noteq> 0 then (ret, ctx) else feed upd ctx xs)"

lemma feed_single [simp]: "feed upd c [x] = (0, c') \<longleftrightarrow> upd c x = (0, c')"
  by (auto split: prod.splits)

locale md_stream =
  fixes B k :: nat
    and process :: "('w::len word, 'z) md_context_scheme \<Rightarrow> bytes \<Rightarrow> ('w word, 'z) md_context_scheme cret"
    and cf :: "'w word list \<Rightarrow> bytes \<Rightarrow> 'w word list"
  assumes B_pow: "B = 2 ^ k"
    and k_le: "k \<le> LENGTH('w)"
    and process_eq: "length d = B \<Longrightarrow> process ctx d = (0, ctx\<lparr>state := cf (state ctx) d\<rparr>)"
begin

lemma B_pos [simp]: "0 < B"
  by (simp add: B_pow)

lemma unat_of_nat_mod [simp]: "unat (of_nat n :: 'w word) mod B = n mod B"
proof -
  have "B dvd 2 ^ LENGTH('w)"
    using k_le by (simp add: B_pow le_imp_power_dvd)
  then show ?thesis
    by (simp add: unat_of_nat mod_mod_cancel)
qed

lemma md_loop_eq:
  "md_loop B process ctx input
     = (0, ctx\<lparr>state := absorb B cf (state ctx) input\<rparr>, tail_of B input)"
proof (induction "length input" arbitrary: input ctx rule: less_induct)
  case less
  show ?case
  proof (cases "B \<le> length input")
    case True
    have t: "tail_of B (drop B input) = tail_of B input"
      using tail_of_append [OF B_pos, of "take B input" "drop B input"] True
      by (simp add: tail_of_def)
    have "length (drop B input) < length input"
      using True B_pos by (simp only: length_drop)
    then show ?thesis
      using True less [of "drop B input"] B_pos absorb.simps [of B cf "state ctx" input]
      by (subst md_loop.simps) (simp add: process_eq t)
  next
    case False
    then show ?thesis
      by (subst md_loop.simps) (simp add: absorb_short tail_of_def)
  qed
qed

lemma md_many_eq:
  "md_many B process ctx data n
     = (n + (length data - length data mod B), ctx\<lparr>state := absorb B cf (state ctx) data\<rparr>)"
proof (induction "length data" arbitrary: ctx data n rule: less_induct)
  case less
  show ?case
  proof (cases "B \<le> length data")
    case True
    have d: "length (drop B data) < length data" using True B_pos by (simp del: B_pos)
    have m: "(length data - B) mod B = length data mod B" using True by (simp add: le_mod_geq)
    have ml: "length data mod B \<le> length data - B"
      using m by (metis mod_less_eq_dividend)
    have a: "absorb B cf (cf (state ctx) (take B data)) (drop B data) = absorb B cf (state ctx) data"
      using True B_pos by (subst (2) absorb.simps) simp
    show ?thesis
      using less.hyps [OF d, of "ctx\<lparr>state := cf (state ctx) (take B data)\<rparr>" "n + B"] True B_pos a m ml
      by (subst md_many.simps) (simp add: process_eq)
  next
    case False
    then show ?thesis
      by (subst md_many.simps) (simp add: absorb_short)
  qed
qed

lemma md_many_loop_eq:
  "md_many_loop B err (\<lambda>c d. md_many B process c d 0) ctx input = md_loop B process ctx input"
proof (cases "B \<le> length input")
  case True
  let ?p = "length input - length input mod B"
  have m: "length input mod B < B" by simp
  have p: "B \<le> ?p"
    using True B_pos by (metis div_greater_zero_iff le_add2 minus_mod_eq_mult_div mult_le_mono2 nat_mult_1_right Suc_leI One_nat_def)
  have "\<not> B \<le> length (drop ?p input)"
    using m mod_less_eq_dividend [of "length input" B] by (simp only: length_drop)
  then have "md_many_loop B err (\<lambda>c d. md_many B process c d 0) c (drop ?p input) = (0, c, drop ?p input)" for c
    by (subst md_many_loop.simps) (simp only: if_False simp_thms)
  then show ?thesis
    using True B_pos p
    by (subst md_many_loop.simps) (simp add: md_many_eq md_loop_eq tail_of_def)
next
  case False
  then show ?thesis by (simp add: md_many_loop.simps md_loop.simps)
qed

lemma md_update_rest_eq:
  "md_update_rest B process ctx input left
     = (0, ctx\<lparr>state := absorb B cf (state ctx) input,
              buffer := memcpy_at (buffer ctx) left (tail_of B input)\<rparr>)"
  by (simp add: md_update_rest_def md_loop_eq)

lemma md_repr_memcpy0:
  assumes "length b = B" and "length (m @ x) mod B = length y mod B"
    and "tail_of B (m @ x) = tail_of B y"
  shows "length (memcpy_at b 0 (tail_of B y)) = B"
    and "take ((length m + length x) mod B) (memcpy_at b 0 (tail_of B y)) = tail_of B (m @ x)"
  using assms take_memcpy_at [of 0 b "tail_of B y"]
    less_imp_le [OF mod_less_divisor [OF B_pos, of "length y"]]
  by (simp_all del: mod_less_divisor)

lemma md_update_short:
  assumes bl: "length buf = B" and tl: "take (length m mod B) buf = tail_of B m"
    and F: "length m mod B = 0 \<or> length x < B - length m mod B"
  shows "tail_of B (m @ x) = take (length (m @ x) mod B)
           (memcpy_at buf (length m mod B) (tail_of B x))"
    and "absorb B cf iv (m @ x) = absorb B cf (absorb B cf iv m) x"
    and "length m mod B + length (tail_of B x) \<le> B"
proof (atomize (full), cases "length m mod B = 0")
  case True
  then have tm: "tail_of B m = []" by (simp add: tail_of_def)
  have "length (m @ x) mod B = length x mod B"
    using True by (simp add: mod_add_left_eq [symmetric])
  moreover have "tail_of B (m @ x) = tail_of B x"
    using tail_of_append [OF B_pos, of m x] tm by simp
  moreover have "absorb B cf iv (m @ x) = absorb B cf (absorb B cf iv m) x"
    using absorb_tail [OF B_pos, of cf iv m x] tm by simp
  ultimately show "tail_of B (m @ x) = take (length (m @ x) mod B)
      (memcpy_at buf (length m mod B) (tail_of B x)) \<and>
      absorb B cf iv (m @ x) = absorb B cf (absorb B cf iv m) x \<and>
      length m mod B + length (tail_of B x) \<le> B"
    using True take_memcpy_at [of 0 buf "tail_of B x"]
      less_imp_le [OF mod_less_divisor [OF B_pos, of "length x"]]
    by (simp del: mod_less_divisor length_append)
next
  case False
  with F have sh: "length x + length m mod B < B" by linarith
  then have tx: "tail_of B x = x" by (simp add: tail_of_def)
  have lm: "length (m @ x) mod B = length m mod B + length x"
    using sh by (metis add.commute length_append mod_add_left_eq mod_less)
  have sh': "length (tail_of B m @ x) < B" using sh by simp
  have "tail_of B (tail_of B m @ x) = tail_of B m @ x"
    using sh by (simp add: tail_of_def [of B "tail_of B m @ x"])
  then show "tail_of B (m @ x) = take (length (m @ x) mod B)
      (memcpy_at buf (length m mod B) (tail_of B x)) \<and>
      absorb B cf iv (m @ x) = absorb B cf (absorb B cf iv m) x \<and>
      length m mod B + length (tail_of B x) \<le> B"
    using tail_of_append [OF B_pos, of m x] absorb_tail [OF B_pos, of cf iv m x] sh
      take_memcpy_at [of "length m mod B" buf x] tl bl
      absorb_short [OF sh', of cf "absorb B cf iv m"] absorb_short [of x B cf "absorb B cf iv m"]
    by (simp add: tx lm add.commute del: length_append)
qed

text \<open>Feeding \<open>x\<close> to a context that holds \<open>m\<close> makes it hold \<open>m @ x\<close>.\<close>

lemma md_update_repr:
  fixes ctx :: "('w word, 'z) md_context_scheme"
  assumes R: "md_repr B cf iv m ctx" and len: "length x < 2 ^ LENGTH('w)"
  shows "\<exists>ctx'. md_update B process ctx x = (0, ctx') \<and> md_repr B cf iv (m @ x) ctx'
     \<and> md_context.more ctx' = md_context.more ctx"
proof (cases "x = []")
  case True
  with R show ?thesis by (simp add: md_update_def)
next
  case False
  define left where "left = length m mod B"
  define ctx1 where "ctx1 = ctx\<lparr>total0 := of_nat (length (m @ x)),
    total1 := of_nat (length (m @ x) div 2 ^ LENGTH('w))\<rparr>"
  have cnt: "(if total0 ctx + of_nat (length x) < of_nat (length x)
      then ctx\<lparr>total0 := total0 ctx + of_nat (length x), total1 := total1 ctx + 1\<rparr>
      else ctx\<lparr>total0 := total0 ctx + of_nat (length x)\<rparr>) = ctx1"
    using R len
    by (simp add: md_repr_def ctx1_def of_nat_add_less_iff div_add_carry)
  have lt: "left < B" by (simp add: left_def)
  have tl: "take left (buffer ctx1) = tail_of B m" and bl: "length (buffer ctx1) = B"
    using R by (auto simp: md_repr_def ctx1_def left_def)
  have st: "state ctx1 = absorb B cf iv m"
    using R by (simp add: md_repr_def ctx1_def)
  have l: "unat (total0 ctx) mod B = left"
    using R by (simp add: md_repr_def left_def)
  have upd: "md_update B process ctx x =
     (if left \<noteq> 0 \<and> B - left \<le> length x then
        let c = ctx1\<lparr>buffer := memcpy_at (buffer ctx1) left (take (B - left) x)\<rparr>;
            (ret, c) = process c (buffer c)
        in if ret \<noteq> 0 then (ret, c) else md_update_rest B process c (drop (B - left) x) 0
      else md_update_rest B process ctx1 x left)"
    using False l
    by (cases "total0 ctx + of_nat (length x) < of_nat (length x)")
      (simp_all add: md_update_def Let_def cnt [symmetric])
  show ?thesis
  proof (cases "left \<noteq> 0 \<and> B - left \<le> length x")
    case True
    let ?b = "memcpy_at (buffer ctx1) left (take (B - left) x)"
    have b: "?b = tail_of B m @ take (B - left) x"
      using True lt tl bl by (simp add: memcpy_at_full)
    have lb: "length ?b = B"
      using True lt bl by simp
    have xs: "tail_of B m @ x = ?b @ drop (B - left) x"
      by (simp add: b)
    have ab: "absorb B cf iv (m @ x) = absorb B cf (cf (absorb B cf iv m) ?b) (drop (B - left) x)"
      unfolding absorb_tail [OF B_pos, of cf iv m x] xs by (rule absorb_block [OF B_pos lb])
    have tb: "tail_of B (m @ x) = tail_of B (drop (B - left) x)"
    proof -
      have "tail_of B (m @ x) = tail_of B (?b @ drop (B - left) x)"
        unfolding tail_of_append [OF B_pos, of m x] xs ..
      also have "\<dots> = tail_of B (tail_of B ?b @ drop (B - left) x)"
        by (rule tail_of_append [OF B_pos])
      also have "tail_of B ?b = []"
        by (simp add: tail_of_def lb)
      finally show ?thesis by simp
    qed
    have lm: "length (m @ x) mod B = length (drop (B - left) x) mod B"
      using tb by (metis length_tail_of)
    let ?c = "ctx1\<lparr>state := absorb B cf iv (m @ x),
      buffer := memcpy_at ?b 0 (tail_of B (drop (B - left) x))\<rparr>"
    have "md_update B process ctx x = (0, ?c)"
      unfolding upd using True lb st ab by (simp add: process_eq md_update_rest_eq)
    moreover have "md_repr B cf iv (m @ x) ?c"
      using md_repr_memcpy0 [OF lb lm tb] by (simp add: md_repr_def ctx1_def)
    moreover have "md_context.more ?c = md_context.more ctx"
      by (simp add: ctx1_def)
    ultimately show ?thesis by blast
  next
    case F: False
    have tb: "tail_of B (m @ x) = take (length (m @ x) mod B)
        (memcpy_at (buffer ctx1) left (tail_of B x))"
      and ab: "absorb B cf iv (m @ x) = absorb B cf (absorb B cf iv m) x"
      and fits: "left + length (tail_of B x) \<le> B"
      using md_update_short [OF bl tl [unfolded left_def]] F by (auto simp: left_def)
    let ?c = "ctx1\<lparr>state := absorb B cf iv (m @ x),
      buffer := memcpy_at (buffer ctx1) left (tail_of B x)\<rparr>"
    have "md_update B process ctx x = (0, ?c)"
      unfolding upd if_not_P [OF F] using st ab by (simp add: md_update_rest_eq)
    moreover have "md_repr B cf iv (m @ x) ?c"
      using tb fits bl by (simp add: md_repr_def ctx1_def)
    moreover have "md_context.more ?c = md_context.more ctx"
      by (simp add: ctx1_def)
    ultimately show ?thesis by blast
  qed
qed

text \<open>Finalisation absorbs the padded message.\<close>

lemma md_last_state:
  assumes "length (buffer ctx) = B" and "L \<le> B" and "length e = L"
    and "take (B - L) (buffer ctx) = p"
    and "lenb (drop_bit (LENGTH('w) - 3) (total0 ctx) OR push_bit 3 (total1 ctx))
           (push_bit 3 (total0 ctx)) = e"
  shows "\<exists>c. md_last B L lenb process ctx = (0, c) \<and> state c = cf (state ctx) (p @ e)
     \<and> md_context.more c = md_context.more ctx"
proof -
  have "memcpy_at (buffer ctx) (B - L) e = p @ e" and "length (p @ e) = B"
    using assms by (auto simp: memcpy_at_def)
  then show ?thesis
    using assms(5) by (simp add: md_last_def Let_def process_eq)
qed

lemma md_zeros_one_block:
  assumes "n mod B + 1 + L \<le> B"
  shows "md_zeros B L n = B - L - (n mod B + 1)"
proof (cases "n mod B + 1 + L = B")
  case True
  then have "(n + 1 + L) mod B = 0"
    by (metis add.assoc mod_add_left_eq mod_self)
  with True show ?thesis by (simp add: md_zeros_def)
next
  case False
  then have "(n + 1 + L) mod B = n mod B + 1 + L"
    using assms by (metis add.assoc mod_add_left_eq mod_less nat_less_le)
  then show ?thesis by (simp add: md_zeros_def)
qed

lemma md_zeros_two_blocks:
  assumes "B < n mod B + 1 + L" and "L < B"
  shows "md_zeros B L n = B - (n mod B + 1) + (B - L)"
proof -
  have m: "n mod B < B" by simp
  have "(n + 1 + L) mod B = (n mod B + 1 + L) mod B"
    by (metis add.assoc mod_add_left_eq)
  also have "\<dots> = n mod B + 1 + L - B"
    using assms m by (simp only: le_mod_geq less_imp_le) (rule mod_less, linarith)
  finally show ?thesis
    using assms m by (simp only: md_zeros_def) (subst mod_less; linarith)
qed

lemma md_finish_state:
  fixes ctx :: "('w word, 'z) md_context_scheme"
  assumes R: "md_repr B cf iv m ctx" and L: "0 < L" "L < B"
    and len: "\<And>h l. length (lenb h l) = L"
    and e: "lenb (drop_bit (LENGTH('w) - 3) (of_nat (length m))
                   OR push_bit 3 (of_nat (length m div 2 ^ LENGTH('w))))
                 (push_bit 3 (of_nat (length m))) = enc L (8 * length m)"
  shows "\<exists>c. md_finish B L lenb process ctx = (0, c)
     \<and> state c = absorb B cf iv (md_pad B L enc m)
     \<and> md_context.more c = md_context.more ctx"
proof -
  let ?u = "length m mod B"
  have u: "unat (total0 ctx) mod B = ?u" and ul: "?u < B"
    and bl: "length (buffer ctx) = B"
    and tl: "take ?u (buffer ctx) = tail_of B m"
    and st: "state ctx = absorb B cf iv m"
    using R by (simp_all add: md_repr_def)
  have le: "length (enc L (8 * length m)) = L"
    using e len by metis
  have tot: "total0 ctx = of_nat (length m)" "total1 ctx = of_nat (length m div 2 ^ LENGTH('w))"
    using R by (simp_all add: md_repr_def)
  let ?b = "(buffer ctx)[?u := 0x80]"
  have tb: "take (?u + 1) ?b = tail_of B m @ [0x80]"
    using ul bl tl by (simp add: take_Suc_conv_app_nth take_update_cancel)
  have lb: "length ?b = B" using bl by simp
  have pad: "absorb B cf iv (md_pad B L enc m) = absorb B cf (state ctx)
     (tail_of B m @ [0x80] @ replicate (md_zeros B L (length m)) 0 @ enc L (8 * length m))"
    unfolding md_pad_def st using absorb_tail [OF B_pos] by simp
  show ?thesis
  proof (cases "?u + 1 \<le> B - L")
    case True
    let ?c = "ctx\<lparr>buffer := memset_at ?b (?u + 1) 0 (B - L - (?u + 1))\<rparr>"
    have fin: "md_finish B L lenb process ctx = md_last B L lenb process ?c"
      using True u by (simp add: md_finish_def Let_def)
    have z: "md_zeros B L (length m) = B - L - (?u + 1)"
      using True L by (intro md_zeros_one_block) linarith
    have p: "take (B - L) (buffer ?c) = tail_of B m @ [0x80] @ replicate (md_zeros B L (length m)) 0"
    proof -
      have "?u + 1 + length (replicate (B - L - (?u + 1)) (0::byte)) = B - L" and "?u + 1 \<le> length ?b"
        using True lb ul by simp_all
      from take_memcpy_at [OF this(2), of "replicate (B - L - (?u + 1)) 0", unfolded this(1)]
      show ?thesis using tb by (simp add: z memset_at_def)
    qed
    have "length (buffer ?c) = B"
      using lb True by simp
    from md_last_state [OF this _ le p] L tot e
    obtain c where c: "md_last B L lenb process ?c = (0, c)"
      "state c = cf (state ctx) ((tail_of B m @ [0x80] @ replicate (md_zeros B L (length m)) 0) @ enc L (8 * length m))"
      "md_context.more c = md_context.more ctx"
      by auto
    have "length ((tail_of B m @ [0x80] @ replicate (md_zeros B L (length m)) 0) @ enc L (8 * length m)) = B"
      using True L ul by (simp add: le z)
    then have "state c = absorb B cf iv (md_pad B L enc m)"
      using absorb_block [OF B_pos, of _ cf "state ctx" "[]"] c(2) unfolding pad by simp
    with fin c show ?thesis by auto
  next
    case False
    let ?c1 = "ctx\<lparr>buffer := memset_at ?b (?u + 1) 0 (B - (?u + 1))\<rparr>"
    let ?blk = "tail_of B m @ [0x80] @ replicate (B - (?u + 1)) 0"
    have b1: "buffer ?c1 = ?blk"
      using tb lb ul by (simp add: memset_at_def memcpy_at_def)
    have l1: "length ?blk = B" using ul by (simp del: mod_less_divisor)
    let ?c2 = "?c1\<lparr>state := cf (state ctx) ?blk\<rparr>"
    let ?c3 = "?c2\<lparr>buffer := memset_at ?blk 0 0 (B - L)\<rparr>"
    have fin: "md_finish B L lenb process ctx = md_last B L lenb process ?c3"
      using False u b1 l1 process_eq [OF l1, of ?c1] by (simp add: md_finish_def Let_def)
    have z: "md_zeros B L (length m) = B - (?u + 1) + (B - L)"
      using False L by (intro md_zeros_two_blocks) linarith+
    have p: "take (B - L) (buffer ?c3) = replicate (B - L) 0"
      using take_memcpy_at [of 0 ?blk "replicate (B - L) (0::byte)"] l1 by (simp add: memset_at_def)
    have "length (buffer ?c3) = B"
      using l1 by simp
    from md_last_state [OF this _ le p] L tot e
    obtain c where c: "md_last B L lenb process ?c3 = (0, c)"
      "state c = cf (cf (state ctx) ?blk) (replicate (B - L) 0 @ enc L (8 * length m))"
      "md_context.more c = md_context.more ctx"
      by auto
    have l2: "length (replicate (B - L) 0 @ enc L (8 * length m)) = B"
      using L by (simp add: le)
    have "tail_of B m @ [0x80] @ replicate (md_zeros B L (length m)) 0 @ enc L (8 * length m)
        = ?blk @ (replicate (B - L) 0 @ enc L (8 * length m)) @ []"
      by (simp add: z replicate_add)
    then have "state c = absorb B cf iv (md_pad B L enc m)"
      unfolding pad using c(2) absorb_block [OF B_pos l1] absorb_block [OF B_pos l2] by (metis absorb_nil)
    with fin c show ?thesis by auto
  qed
qed

lemma feed_repr:
  fixes ctx :: "('w word, 'z) md_context_scheme"
  assumes "md_repr B cf iv m ctx" and "\<forall>x\<in>set xs. length x < 2 ^ LENGTH('w)"
  shows "\<exists>ctx'. feed (md_update B process) ctx xs = (0, ctx')
     \<and> md_repr B cf iv (m @ concat xs) ctx' \<and> md_context.more ctx' = md_context.more ctx"
  using assms
proof (induction xs arbitrary: m ctx)
  case (Cons x xs)
  from md_update_repr [OF Cons.prems(1), of x] Cons.prems(2)
  obtain c where "md_update B process ctx x = (0, c)" "md_repr B cf iv (m @ x) c"
    "md_context.more c = md_context.more ctx" by auto
  with Cons.IH [of "m @ x" c] Cons.prems(2) show ?case by auto
qed auto

lemma md_repr_start:
  "length (buffer ctx) = B \<Longrightarrow> state ctx = iv \<Longrightarrow> total0 ctx = 0 \<Longrightarrow> total1 ctx = 0 \<Longrightarrow>
   md_repr B cf iv [] ctx"
  by (simp add: md_repr_def tail_of_def)

end

end
