(* ===== verification/Md5.thy ===== *)
theory Md5
  imports HashStream
begin

text \<open>
  \<open>libs/mbedtls/library/md5.c\<close>: MD5. The local variables \<open>A, B, C, D\<close> of the block function
  are the positions 0 to 3 of a list; each macro call \<open>P(a,b,c,d,k,s,t)\<close> is one row
  \<open>(a,b,c,d,k,s,t)\<close> of the round tables. \<open>md5_hash_chunks\<close> shows that hashing a message in
  any chunks gives the MD5 of the concatenation.
\<close>

type_synonym md5_context = "u32 md_context"

definition mbedtls_md5_init :: md5_context where
  "mbedtls_md5_init = \<lparr>total0 = 0, total1 = 0, state = replicate 4 0, buffer = replicate 64 0\<rparr>"

definition mbedtls_md5_free :: "md5_context option \<Rightarrow> md5_context option" where
  "mbedtls_md5_free ctx = (case ctx of None \<Rightarrow> None
     | Some c \<Rightarrow> Some \<lparr>total0 = 0, total1 = 0, state = replicate 4 0, buffer = replicate 64 0\<rparr>)"

definition mbedtls_md5_clone :: "md5_context \<Rightarrow> md5_context \<Rightarrow> md5_context" where
  "mbedtls_md5_clone dst src = src"

definition mbedtls_md5_starts :: "md5_context \<Rightarrow> md5_context cret" where
  "mbedtls_md5_starts ctx =
     (let ctx = ctx\<lparr>total0 := 0\<rparr>;
          ctx = ctx\<lparr>total1 := 0\<rparr>;
          ctx = ctx\<lparr>state := [0x67452301, 0xEFCDAB89, 0x98BADCFE, 0x10325476]\<rparr>
      in (0, ctx))"

definition md5_S :: "u32 \<Rightarrow> nat \<Rightarrow> u32" where
  "md5_S x n = push_bit n x OR drop_bit (32 - n) (x AND 0xFFFFFFFF)"

definition md5_P ::
  "(u32 \<Rightarrow> u32 \<Rightarrow> u32 \<Rightarrow> u32) \<Rightarrow> u32 list \<Rightarrow> u32 list \<Rightarrow>
   nat \<times> nat \<times> nat \<times> nat \<times> nat \<times> nat \<times> u32 \<Rightarrow> u32 list" where
  "md5_P F X v = (\<lambda>(a, b, c, d, k, s, t).
     let v = v[a := v ! a + (F (v ! b) (v ! c) (v ! d) + X ! k + t)]
     in v[a := md5_S (v ! a) s + v ! b])"

definition md5_F1 :: "u32 \<Rightarrow> u32 \<Rightarrow> u32 \<Rightarrow> u32" where
  "md5_F1 x y z = z XOR (x AND (y XOR z))"
definition md5_F2 :: "u32 \<Rightarrow> u32 \<Rightarrow> u32 \<Rightarrow> u32" where
  "md5_F2 x y z = y XOR (z AND (x XOR y))"
definition md5_F3 :: "u32 \<Rightarrow> u32 \<Rightarrow> u32 \<Rightarrow> u32" where
  "md5_F3 x y z = x XOR y XOR z"
definition md5_F4 :: "u32 \<Rightarrow> u32 \<Rightarrow> u32 \<Rightarrow> u32" where
  "md5_F4 x y z = y XOR (x OR NOT z)"

definition md5_round1 :: "(nat \<times> nat \<times> nat \<times> nat \<times> nat \<times> nat \<times> u32) list" where
  "md5_round1 =
   [(0, 1, 2, 3,  0,  7, 0xD76AA478),
    (3, 0, 1, 2,  1, 12, 0xE8C7B756),
    (2, 3, 0, 1,  2, 17, 0x242070DB),
    (1, 2, 3, 0,  3, 22, 0xC1BDCEEE),
    (0, 1, 2, 3,  4,  7, 0xF57C0FAF),
    (3, 0, 1, 2,  5, 12, 0x4787C62A),
    (2, 3, 0, 1,  6, 17, 0xA8304613),
    (1, 2, 3, 0,  7, 22, 0xFD469501),
    (0, 1, 2, 3,  8,  7, 0x698098D8),
    (3, 0, 1, 2,  9, 12, 0x8B44F7AF),
    (2, 3, 0, 1, 10, 17, 0xFFFF5BB1),
    (1, 2, 3, 0, 11, 22, 0x895CD7BE),
    (0, 1, 2, 3, 12,  7, 0x6B901122),
    (3, 0, 1, 2, 13, 12, 0xFD987193),
    (2, 3, 0, 1, 14, 17, 0xA679438E),
    (1, 2, 3, 0, 15, 22, 0x49B40821)]"

definition md5_round2 :: "(nat \<times> nat \<times> nat \<times> nat \<times> nat \<times> nat \<times> u32) list" where
  "md5_round2 =
   [(0, 1, 2, 3,  1,  5, 0xF61E2562),
    (3, 0, 1, 2,  6,  9, 0xC040B340),
    (2, 3, 0, 1, 11, 14, 0x265E5A51),
    (1, 2, 3, 0,  0, 20, 0xE9B6C7AA),
    (0, 1, 2, 3,  5,  5, 0xD62F105D),
    (3, 0, 1, 2, 10,  9, 0x02441453),
    (2, 3, 0, 1, 15, 14, 0xD8A1E681),
    (1, 2, 3, 0,  4, 20, 0xE7D3FBC8),
    (0, 1, 2, 3,  9,  5, 0x21E1CDE6),
    (3, 0, 1, 2, 14,  9, 0xC33707D6),
    (2, 3, 0, 1,  3, 14, 0xF4D50D87),
    (1, 2, 3, 0,  8, 20, 0x455A14ED),
    (0, 1, 2, 3, 13,  5, 0xA9E3E905),
    (3, 0, 1, 2,  2,  9, 0xFCEFA3F8),
    (2, 3, 0, 1,  7, 14, 0x676F02D9),
    (1, 2, 3, 0, 12, 20, 0x8D2A4C8A)]"

definition md5_round3 :: "(nat \<times> nat \<times> nat \<times> nat \<times> nat \<times> nat \<times> u32) list" where
  "md5_round3 =
   [(0, 1, 2, 3,  5,  4, 0xFFFA3942),
    (3, 0, 1, 2,  8, 11, 0x8771F681),
    (2, 3, 0, 1, 11, 16, 0x6D9D6122),
    (1, 2, 3, 0, 14, 23, 0xFDE5380C),
    (0, 1, 2, 3,  1,  4, 0xA4BEEA44),
    (3, 0, 1, 2,  4, 11, 0x4BDECFA9),
    (2, 3, 0, 1,  7, 16, 0xF6BB4B60),
    (1, 2, 3, 0, 10, 23, 0xBEBFBC70),
    (0, 1, 2, 3, 13,  4, 0x289B7EC6),
    (3, 0, 1, 2,  0, 11, 0xEAA127FA),
    (2, 3, 0, 1,  3, 16, 0xD4EF3085),
    (1, 2, 3, 0,  6, 23, 0x04881D05),
    (0, 1, 2, 3,  9,  4, 0xD9D4D039),
    (3, 0, 1, 2, 12, 11, 0xE6DB99E5),
    (2, 3, 0, 1, 15, 16, 0x1FA27CF8),
    (1, 2, 3, 0,  2, 23, 0xC4AC5665)]"

definition md5_round4 :: "(nat \<times> nat \<times> nat \<times> nat \<times> nat \<times> nat \<times> u32) list" where
  "md5_round4 =
   [(0, 1, 2, 3,  0,  6, 0xF4292244),
    (3, 0, 1, 2,  7, 10, 0x432AFF97),
    (2, 3, 0, 1, 14, 15, 0xAB9423A7),
    (1, 2, 3, 0,  5, 21, 0xFC93A039),
    (0, 1, 2, 3, 12,  6, 0x655B59C3),
    (3, 0, 1, 2,  3, 10, 0x8F0CCC92),
    (2, 3, 0, 1, 10, 15, 0xFFEFF47D),
    (1, 2, 3, 0,  1, 21, 0x85845DD1),
    (0, 1, 2, 3,  8,  6, 0x6FA87E4F),
    (3, 0, 1, 2, 15, 10, 0xFE2CE6E0),
    (2, 3, 0, 1,  6, 15, 0xA3014314),
    (1, 2, 3, 0, 13, 21, 0x4E0811A1),
    (0, 1, 2, 3,  4,  6, 0xF7537E82),
    (3, 0, 1, 2, 11, 10, 0xBD3AF235),
    (2, 3, 0, 1,  2, 15, 0x2AD7D2BB),
    (1, 2, 3, 0,  9, 21, 0xEB86D391)]"

definition md5_block :: "u32 list \<Rightarrow> bytes \<Rightarrow> u32 list" where
  "md5_block st data =
     (let X = map (\<lambda>i. GET_UINT32_LE data (4 * i)) [0..<16];
          v = [st ! 0, st ! 1, st ! 2, st ! 3];
          v = foldl (md5_P md5_F1 X) v md5_round1;
          v = foldl (md5_P md5_F2 X) v md5_round2;
          v = foldl (md5_P md5_F3 X) v md5_round3;
          v = foldl (md5_P md5_F4 X) v md5_round4
      in [st ! 0 + v ! 0, st ! 1 + v ! 1, st ! 2 + v ! 2, st ! 3 + v ! 3])"

definition mbedtls_internal_md5_process :: "md5_context \<Rightarrow> bytes \<Rightarrow> md5_context cret" where
  "mbedtls_internal_md5_process ctx data = (0, ctx\<lparr>state := md5_block (state ctx) data\<rparr>)"

definition md5_update_rest :: "md5_context \<Rightarrow> bytes \<Rightarrow> nat \<Rightarrow> md5_context cret" where
  "md5_update_rest ctx input left =
     (let (ret, ctx, input) = md_loop 64 mbedtls_internal_md5_process ctx input in
      if ret \<noteq> 0 then (ret, ctx)
      else if length input > 0 then (0, ctx\<lparr>buffer := memcpy_at (buffer ctx) left input\<rparr>)
      else (0, ctx))"

definition mbedtls_md5_update :: "md5_context \<Rightarrow> bytes \<Rightarrow> md5_context cret" where
  "mbedtls_md5_update ctx input =
     (let ilen = length input in
      if ilen = 0 then (0, ctx)
      else
        let left = unat (total0 ctx AND 0x3F);
            fill = 64 - left;
            ctx = ctx\<lparr>total0 := total0 ctx + of_nat ilen\<rparr>;
            ctx = ctx\<lparr>total0 := total0 ctx AND 0xFFFFFFFF\<rparr>;
            ctx = (if total0 ctx < of_nat ilen then ctx\<lparr>total1 := total1 ctx + 1\<rparr> else ctx)
        in if left \<noteq> 0 \<and> ilen \<ge> fill then
             let ctx = ctx\<lparr>buffer := memcpy_at (buffer ctx) left (take fill input)\<rparr>;
                 (ret, ctx) = mbedtls_internal_md5_process ctx (buffer ctx)
             in if ret \<noteq> 0 then (ret, ctx) else md5_update_rest ctx (drop fill input) 0
           else md5_update_rest ctx input left)"

text \<open>The length field, the last block and the output of \<open>mbedtls_md5_finish\<close>.\<close>

definition md5_finish_tail :: "md5_context \<Rightarrow> int \<times> md5_context \<times> bytes" where
  "md5_finish_tail ctx =
     (let high = drop_bit 29 (total0 ctx) OR push_bit 3 (total1 ctx);
          low = push_bit 3 (total0 ctx);
          ctx = ctx\<lparr>buffer := PUT_UINT32_LE low (buffer ctx) 56\<rparr>;
          ctx = ctx\<lparr>buffer := PUT_UINT32_LE high (buffer ctx) 60\<rparr>;
          (ret, ctx) = mbedtls_internal_md5_process ctx (buffer ctx)
      in if ret \<noteq> 0 then (ret, ctx, [])
         else (0, ctx, BYTES32_LE (state ctx ! 0) @ BYTES32_LE (state ctx ! 1)
                       @ BYTES32_LE (state ctx ! 2) @ BYTES32_LE (state ctx ! 3)))"

definition mbedtls_md5_finish :: "md5_context \<Rightarrow> int \<times> md5_context \<times> bytes" where
  "mbedtls_md5_finish ctx =
     (let used = unat (total0 ctx AND 0x3F);
          ctx = ctx\<lparr>buffer := (buffer ctx)[used := 0x80]\<rparr>;
          used = used + 1
      in if used \<le> 56 then
           md5_finish_tail (ctx\<lparr>buffer := memset_at (buffer ctx) used 0 (56 - used)\<rparr>)
         else
           let ctx = ctx\<lparr>buffer := memset_at (buffer ctx) used 0 (64 - used)\<rparr>;
               (ret, ctx) = mbedtls_internal_md5_process ctx (buffer ctx)
           in if ret \<noteq> 0 then (ret, ctx, [])
              else md5_finish_tail (ctx\<lparr>buffer := memset_at (buffer ctx) 0 0 56\<rparr>))"

definition mbedtls_md5 :: "bytes \<Rightarrow> int \<times> bytes" where
  "mbedtls_md5 input =
     (let ctx = mbedtls_md5_init;
          (ret, ctx) = mbedtls_md5_starts ctx
      in if ret \<noteq> 0 then (ret, []) else
      let (ret, ctx) = mbedtls_md5_update ctx input
      in if ret \<noteq> 0 then (ret, []) else
      let (ret, ctx, output) = mbedtls_md5_finish ctx
      in (ret, output))"

section \<open>The code is an instance of the block engine\<close>

interpretation md5: md_stream 64 6 mbedtls_internal_md5_process md5_block
  by unfold_locales (simp_all add: mbedtls_internal_md5_process_def)

lemma md5_update_rest_eq: "md5_update_rest = md_update_rest 64 mbedtls_internal_md5_process"
  by (intro ext) (simp add: md5_update_rest_def md_update_rest_def)

lemma md5_update_eq: "mbedtls_md5_update = md_update 64 mbedtls_internal_md5_process"
  unfolding mbedtls_md5_update_def [abs_def] md5_update_rest_eq
  by (intro ext) (auto simp: md_update_def mask_simps Let_def)

abbreviation md5_lenb :: "u32 \<Rightarrow> u32 \<Rightarrow> bytes" where
  "md5_lenb high low \<equiv> BYTES32_LE low @ BYTES32_LE high"

lemma md5_finish_tail_eq:
  assumes "length (buffer ctx) = 64"
    and "md_last 64 8 md5_lenb mbedtls_internal_md5_process ctx = (0, c)" and "length (state c) = 4"
  shows "md5_finish_tail ctx = (0, c, concat (map BYTES32_LE (state c)))"
proof -
  have "md5_finish_tail ctx = (0, c, BYTES32_LE (state c ! 0) @ BYTES32_LE (state c ! 1)
      @ BYTES32_LE (state c ! 2) @ BYTES32_LE (state c ! 3))"
    using assms(1,2) memcpy_at_append [of 56 "buffer ctx" "BYTES32_LE (push_bit 3 (total0 ctx))"]
    by (auto simp: md5_finish_tail_def md_last_def PUT_UINT32_LE_def mbedtls_internal_md5_process_def Let_def)
  then show ?thesis
    using assms(3) by (simp add: concat_map_nth [of _ "state c"] upt_rec numeral_eq_Suc)
qed

lemma length_md5_block: "length (md5_block st d) = 4"
  by (simp add: md5_block_def Let_def)

lemma md5_finish_eq:
  assumes "length (buffer ctx) = 64"
    and "md_finish 64 8 md5_lenb mbedtls_internal_md5_process ctx = (0, c)"
  shows "mbedtls_md5_finish ctx = (0, c, concat (map BYTES32_LE (state c)))"
proof -
  have u: "unat (total0 ctx) mod 64 < 64" by simp
  have l: "length (state c') = 4" if "md_last 64 8 md5_lenb mbedtls_internal_md5_process x = (0, c')" for x c'
    using that by (auto simp: md_last_def mbedtls_internal_md5_process_def length_md5_block Let_def)
  show ?thesis
    using assms u l
    by (auto simp: mbedtls_md5_finish_def md_finish_def mask_simps mbedtls_internal_md5_process_def Let_def
        split: if_splits intro!: md5_finish_tail_eq)
qed

definition md5_iv :: "u32 list" where
  "md5_iv = [0x67452301, 0xEFCDAB89, 0x98BADCFE, 0x10325476]"

definition md5_digest :: "bytes \<Rightarrow> bytes" where
  "md5_digest m = concat (map BYTES32_LE (absorb 64 md5_block md5_iv (md_pad 64 8 le_bytes m)))"

lemma md5_finish_digest:
  assumes "md_repr 64 md5_block md5_iv m ctx"
  shows "\<exists>c. mbedtls_md5_finish ctx = (0, c, md5_digest m)"
proof -
  obtain c where c: "md_finish 64 8 md5_lenb mbedtls_internal_md5_process ctx = (0, c)"
    "state c = absorb 64 md5_block md5_iv (md_pad 64 8 le_bytes m)"
    using md5.md_finish_state [OF assms, of 8 md5_lenb le_bytes] len_field_le32 [of "length m"] by auto
  have "length (buffer ctx) = 64"
    using assms by (simp add: md_repr_def)
  from md5_finish_eq [OF this c(1)] c(2) show ?thesis
    by (simp add: md5_digest_def)
qed

lemma md5_starts_repr:
  "\<exists>c. mbedtls_md5_starts mbedtls_md5_init = (0, c) \<and> md_repr 64 md5_block md5_iv [] c"
  by (simp add: mbedtls_md5_starts_def mbedtls_md5_init_def md5_iv_def md5.md_repr_start)

text \<open>Feeding a message in any chunks (each shorter than 4 GiB) gives the MD5 of the whole.\<close>

lemma md5_hash_chunks:
  assumes "\<forall>x\<in>set xs. length x < 2 ^ 32"
  shows "\<exists>c0 c1 c2. mbedtls_md5_starts mbedtls_md5_init = (0, c0)
     \<and> feed mbedtls_md5_update c0 xs = (0, c1)
     \<and> mbedtls_md5_finish c1 = (0, c2, md5_digest (concat xs))"
proof -
  obtain c0 where c0: "mbedtls_md5_starts mbedtls_md5_init = (0, c0)" "md_repr 64 md5_block md5_iv [] c0"
    using md5_starts_repr by blast
  obtain c1 where "feed mbedtls_md5_update c0 xs = (0, c1)" "md_repr 64 md5_block md5_iv (concat xs) c1"
    using md5.feed_repr [OF c0(2), of xs] assms by (auto simp: md5_update_eq)
  with c0(1) md5_finish_digest [of "concat xs" c1] show ?thesis by auto
qed

lemma mbedtls_md5_digest:
  assumes "length m < 2 ^ 32"
  shows "mbedtls_md5 m = (0, md5_digest m)"
proof -
  obtain c0 c1 c2 where "mbedtls_md5_starts mbedtls_md5_init = (0, c0)"
    "feed mbedtls_md5_update c0 [m] = (0, c1)" "mbedtls_md5_finish c1 = (0, c2, md5_digest (concat [m]))"
    using md5_hash_chunks [of "[m]"] assms by auto
  then show ?thesis
    by (simp add: mbedtls_md5_def del: feed.simps)
qed

section \<open>The block function is the compression function of RFC 1321\<close>

text \<open>RFC 1321, section 3.4: the step number \<open>i\<close> uses the round function, the message word, the
  rotation and the sine table entry of that step, and the registers rotate.\<close>

definition rfc_md5_f :: "nat \<Rightarrow> u32 \<Rightarrow> u32 \<Rightarrow> u32 \<Rightarrow> u32" where
  "rfc_md5_f i x y z =
     (if i < 16 then (x AND y) OR (NOT x AND z)
      else if i < 32 then (x AND z) OR (y AND NOT z)
      else if i < 48 then x XOR y XOR z
      else y XOR (x OR NOT z))"

definition rfc_md5_k :: "nat \<Rightarrow> nat" where
  "rfc_md5_k i =
     (if i < 16 then i else if i < 32 then (5 * i + 1) mod 16
      else if i < 48 then (3 * i + 5) mod 16 else (7 * i) mod 16)"

definition rfc_md5_s :: "nat \<Rightarrow> nat" where
  "rfc_md5_s i = [[7, 12, 17, 22], [5, 9, 14, 20], [4, 11, 16, 23], [6, 10, 15, 21]] ! (i div 16) ! (i mod 4)"

definition rfc_md5_T :: "u32 list" where
  "rfc_md5_T =
   [0xD76AA478, 0xE8C7B756, 0x242070DB, 0xC1BDCEEE, 0xF57C0FAF, 0x4787C62A, 0xA8304613, 0xFD469501,
    0x698098D8, 0x8B44F7AF, 0xFFFF5BB1, 0x895CD7BE, 0x6B901122, 0xFD987193, 0xA679438E, 0x49B40821,
    0xF61E2562, 0xC040B340, 0x265E5A51, 0xE9B6C7AA, 0xD62F105D, 0x02441453, 0xD8A1E681, 0xE7D3FBC8,
    0x21E1CDE6, 0xC33707D6, 0xF4D50D87, 0x455A14ED, 0xA9E3E905, 0xFCEFA3F8, 0x676F02D9, 0x8D2A4C8A,
    0xFFFA3942, 0x8771F681, 0x6D9D6122, 0xFDE5380C, 0xA4BEEA44, 0x4BDECFA9, 0xF6BB4B60, 0xBEBFBC70,
    0x289B7EC6, 0xEAA127FA, 0xD4EF3085, 0x04881D05, 0xD9D4D039, 0xE6DB99E5, 0x1FA27CF8, 0xC4AC5665,
    0xF4292244, 0x432AFF97, 0xAB9423A7, 0xFC93A039, 0x655B59C3, 0x8F0CCC92, 0xFFEFF47D, 0x85845DD1,
    0x6FA87E4F, 0xFE2CE6E0, 0xA3014314, 0x4E0811A1, 0xF7537E82, 0xBD3AF235, 0x2AD7D2BB, 0xEB86D391]"

definition rfc_md5_step :: "u32 list \<Rightarrow> nat \<Rightarrow> u32 \<times> u32 \<times> u32 \<times> u32 \<Rightarrow> u32 \<times> u32 \<times> u32 \<times> u32" where
  "rfc_md5_step X i = (\<lambda>(a, b, c, d).
     (d, b + word_rotl (rfc_md5_s i) (a + rfc_md5_f i b c d + X ! rfc_md5_k i + rfc_md5_T ! i), b, c))"

definition rfc_md5 :: "u32 list \<Rightarrow> bytes \<Rightarrow> u32 list" where
  "rfc_md5 st data =
     (let X = map (\<lambda>i. GET_UINT32_LE data (4 * i)) [0..<16];
          (a, b, c, d) = fold (rfc_md5_step X) [0..<64] (st ! 0, st ! 1, st ! 2, st ! 3)
      in [st ! 0 + a, st ! 1 + b, st ! 2 + c, st ! 3 + d])"

definition role4 :: "nat \<Rightarrow> nat \<Rightarrow> nat" where
  "role4 j t = (j + 3 * t) mod 4"

lemma role4_mod: "role4 j t = (j + 3 * (t mod 4)) mod 4"
  unfolding role4_def by (metis mod_add_right_eq mod_mult_right_eq)

lemma role4_eq:
  assumes "t mod 4 = r"
  shows "role4 j t = (j + 3 * r) mod 4" and "role4 j (Suc t) = (j + 3 * (Suc r mod 4)) mod 4"
  using role4_mod [of j t] role4_mod [of j "Suc t"] assms by (auto simp: mod_Suc_eq)

definition md5_rel :: "nat \<Rightarrow> u32 list \<Rightarrow> u32 \<times> u32 \<times> u32 \<times> u32 \<Rightarrow> bool" where
  "md5_rel t v s \<longleftrightarrow> length v = 4 \<and> s = (v ! role4 0 t, v ! role4 1 t, v ! role4 2 t, v ! role4 3 t)"

definition md5_row :: "nat \<Rightarrow> nat \<times> nat \<times> nat \<times> nat \<times> nat \<times> nat \<times> u32" where
  "md5_row t = (role4 0 t, role4 1 t, role4 2 t, role4 3 t, rfc_md5_k t, rfc_md5_s t, rfc_md5_T ! t)"

lemma md5_S_rotl: "n < 32 \<Longrightarrow> md5_S x n = word_rotl n x"
  by (simp add: md5_S_def rotl32 mask_simps)

lemma md5_shifts: "t < 64 \<Longrightarrow> rfc_md5_s t < 32"
proof -
  have "list_all (\<lambda>t. rfc_md5_s t < 32) [0..<64]" by code_simp
  then show "t < 64 \<Longrightarrow> rfc_md5_s t < 32" by (simp add: list_all_iff)
qed

lemma md5_P_step:
  assumes v: "md5_rel t v s" and t: "t < 64"
  shows "md5_rel (Suc t) (md5_P (rfc_md5_f t) X v (md5_row t)) (rfc_md5_step X t s)"
proof -
  obtain A B C D where vv: "v = [A, B, C, D]"
    using v by (auto simp: md5_rel_def length_Suc_conv numeral_eq_Suc)
  have rel: ?thesis if r: "t mod 4 = q" and "q \<in> {0, 1, 2, 3}" for q
    using that(2) v md5_shifts [OF t] unfolding vv
    by (elim insertE emptyE; simp add: md5_P_def md5_rel_def md5_row_def rfc_md5_step_def
        md5_S_rotl role4_eq [OF r] Let_def add.assoc add.left_commute add.commute)
  have m4: "t mod 4 \<in> {0, 1, 2, 3}"
    using mod_less_divisor [of 4 t] by (simp only: insert_iff) linarith
  show ?thesis by (rule rel [OF refl m4])
qed

lemma md5_rounds:
  assumes "md5_rel t v s" and "t + n \<le> 64" and "\<And>i. t \<le> i \<Longrightarrow> i < t + n \<Longrightarrow> F = rfc_md5_f i"
  shows "md5_rel (t + n) (foldl (md5_P F X) v (map md5_row [t..<t + n])) (fold (rfc_md5_step X) [t..<t + n] s)"
  using assms(2,3)
proof (induction n)
  case 0
  then show ?case using assms(1) by simp
next
  case (Suc n)
  have IH: "md5_rel (t + n) (foldl (md5_P F X) v (map md5_row [t..<t + n])) (fold (rfc_md5_step X) [t..<t + n] s)"
    using Suc by simp
  have "F = rfc_md5_f (t + n)" using Suc.prems(2) by simp
  then show ?case using md5_P_step [OF IH, of X] Suc.prems(1) by simp
qed

lemma md5_tables:
  "md5_round1 = map md5_row [0..<16]" "md5_round2 = map md5_row [16..<32]"
  "md5_round3 = map md5_row [32..<48]" "md5_round4 = map md5_row [48..<64]"
  by code_simp+

lemma md5_f_round:
  "j < 16 \<Longrightarrow> md5_F1 = rfc_md5_f j"
  "16 \<le> j \<Longrightarrow> j < 32 \<Longrightarrow> md5_F2 = rfc_md5_f j"
  "32 \<le> j \<Longrightarrow> j < 48 \<Longrightarrow> md5_F3 = rfc_md5_f j"
  "48 \<le> j \<Longrightarrow> md5_F4 = rfc_md5_f j"
  by (auto intro!: ext bit_word_eqI simp: rfc_md5_f_def md5_F1_def md5_F2_def md5_F3_def md5_F4_def
      bit_and_iff bit_or_iff bit_xor_iff bit_not_iff)

lemma md5_block_rfc: "md5_block st data = rfc_md5 st data"
proof -
  define X where "X = map (\<lambda>i. GET_UINT32_LE data (4 * i)) [0..<16]"
  define v where "v = [st ! 0, st ! 1, st ! 2, st ! 3]"
  define s where "s = (st ! 0, st ! 1, st ! 2, st ! 3)"
  define w1 where "w1 = foldl (md5_P md5_F1 X) v md5_round1"
  define w2 where "w2 = foldl (md5_P md5_F2 X) w1 md5_round2"
  define w3 where "w3 = foldl (md5_P md5_F3 X) w2 md5_round3"
  define w4 where "w4 = foldl (md5_P md5_F4 X) w3 md5_round4"
  have 0: "md5_rel 0 v s" by (simp add: md5_rel_def role4_def v_def s_def)
  have 1: "md5_rel 16 w1 (fold (rfc_md5_step X) [0..<16] s)"
    using md5_rounds [OF 0, of 16 md5_F1 X] unfolding w1_def md5_tables
    by (simp add: md5_f_round del: upt_rec_numeral)
  have 2: "md5_rel 32 w2 (fold (rfc_md5_step X) [16..<32] (fold (rfc_md5_step X) [0..<16] s))"
    using md5_rounds [OF 1, of 16 md5_F2 X] unfolding w2_def md5_tables
    by (simp add: md5_f_round del: upt_rec_numeral)
  have 3: "md5_rel 48 w3 (fold (rfc_md5_step X) [32..<48] (fold (rfc_md5_step X) [16..<32] (fold (rfc_md5_step X) [0..<16] s)))"
    using md5_rounds [OF 2, of 16 md5_F3 X] unfolding w3_def md5_tables
    by (simp add: md5_f_round del: upt_rec_numeral)
  have 4: "md5_rel 64 w4 (fold (rfc_md5_step X) [48..<64] (fold (rfc_md5_step X) [32..<48]
      (fold (rfc_md5_step X) [16..<32] (fold (rfc_md5_step X) [0..<16] s))))"
    using md5_rounds [OF 3, of 16 md5_F4 X] unfolding w4_def md5_tables
    by (simp add: md5_f_round del: upt_rec_numeral)
  have "[0..<64] = [0..<16] @ [16..<32] @ [32..<48] @ [48..<64]" by code_simp
  then have "md5_rel 64 w4 (fold (rfc_md5_step X) [0..<64] s)"
    using 4 by (simp del: upt_rec_numeral)
  then have f: "fold (rfc_md5_step X) [0..<64] s = (w4 ! 0, w4 ! 1, w4 ! 2, w4 ! 3)"
    by (simp add: md5_rel_def role4_def del: upt_rec_numeral)
  show ?thesis
    unfolding md5_block_def rfc_md5_def Let_def X_def [symmetric] v_def [symmetric] s_def [symmetric]
      w1_def [symmetric] w2_def [symmetric] w3_def [symmetric] w4_def [symmetric] f
    by simp
qed

section \<open>Properties\<close>

text \<open>The hash of the standard: padding, then its compression function over the blocks.\<close>

definition rfc_md5_hash :: "bytes \<Rightarrow> bytes" where
  "rfc_md5_hash m = concat (map BYTES32_LE (absorb 64 rfc_md5 md5_iv (md_pad 64 8 le_bytes m)))"

lemma md5_digest_spec: "md5_digest m = rfc_md5_hash m"
  by (simp add: md5_digest_def rfc_md5_hash_def md5_block_rfc [abs_def])

lemma md5_abc: "mbedtls_md5 [0x61, 0x62, 0x63] = (0,
        [0x90, 0x01, 0x50, 0x98, 0x3c, 0xd2, 0x4f, 0xb0, 0xd6, 0x96, 0x3f, 0x7d, 0x28, 0xe1, 0x7f, 0x72])"
  by code_simp

lemmas md5_digest_abc = md5_abc [unfolded mbedtls_md5_digest [of "[0x61, 0x62, 0x63]", simplified]]

text \<open>C40. MD5 as an incremental hash: whatever way a message is cut into chunks (empty ones
  included, each shorter than 4 GiB), starting a context, feeding the chunks and finishing gives
  return code 0 at every call and the RFC 1321 hash of the concatenation.\<close>

theorem md5_chunks_correct:
  assumes "\<forall>x\<in>set xs. length x < 2 ^ 32"
  shows "\<exists>c0 c1 c2. mbedtls_md5_starts mbedtls_md5_init = (0, c0)
     \<and> feed mbedtls_md5_update c0 xs = (0, c1)
     \<and> mbedtls_md5_finish c1 = (0, c2, rfc_md5_hash (concat xs))"
  using md5_hash_chunks [OF assms] by (simp only: md5_digest_spec)

text \<open>The hash of \<open>abc\<close>, given as three chunks.\<close>

theorem md5_chunks_correct_witness:
  "\<exists>c0 c1 c2. mbedtls_md5_starts mbedtls_md5_init = (0, c0)
     \<and> feed mbedtls_md5_update c0 [[0x61], [], [0x62, 0x63]] = (0, c1)
     \<and> mbedtls_md5_finish c1 = (0, c2,
        [0x90, 0x01, 0x50, 0x98, 0x3c, 0xd2, 0x4f, 0xb0, 0xd6, 0x96, 0x3f, 0x7d, 0x28, 0xe1, 0x7f, 0x72])"
  using md5_chunks_correct [of "[[0x61], [], [0x62, 0x63]]"] md5_digest_abc
  by (simp add: md5_digest_spec del: feed.simps)

end
