(* ===== verification/Sha1.thy ===== *)
theory Sha1
  imports HashStream
begin

text \<open>
  \<open>libs/mbedtls/library/sha1.c\<close>: SHA-1. The local variables \<open>A .. E\<close> are the positions 0 to 4
  of a list and each macro call \<open>P(a,b,c,d,e,x)\<close> is one row \<open>(a,b,c,d,e,t)\<close>, where \<open>x\<close> is
  \<open>W[t]\<close> for the first sixteen calls and \<open>R(t)\<close>, which rewrites the circular buffer
  \<open>W[16]\<close>, for the others. The block function is shown to be the FIPS 180-4 compression
  function over the eighty-word message schedule.
\<close>

type_synonym sha1_context = "u32 md_context"

definition mbedtls_sha1_init :: sha1_context where
  "mbedtls_sha1_init = \<lparr>total0 = 0, total1 = 0, state = replicate 5 0, buffer = replicate 64 0\<rparr>"

definition mbedtls_sha1_free :: "sha1_context option \<Rightarrow> sha1_context option" where
  "mbedtls_sha1_free ctx = (case ctx of None \<Rightarrow> None
     | Some c \<Rightarrow> Some \<lparr>total0 = 0, total1 = 0, state = replicate 5 0, buffer = replicate 64 0\<rparr>)"

definition mbedtls_sha1_clone :: "sha1_context \<Rightarrow> sha1_context \<Rightarrow> sha1_context" where
  "mbedtls_sha1_clone dst src = src"

definition mbedtls_sha1_starts :: "sha1_context \<Rightarrow> sha1_context cret" where
  "mbedtls_sha1_starts ctx =
     (let ctx = ctx\<lparr>total0 := 0\<rparr>;
          ctx = ctx\<lparr>total1 := 0\<rparr>;
          ctx = ctx\<lparr>state := [0x67452301, 0xEFCDAB89, 0x98BADCFE, 0x10325476, 0xC3D2E1F0]\<rparr>
      in (0, ctx))"

definition sha1_S :: "u32 \<Rightarrow> nat \<Rightarrow> u32" where
  "sha1_S x n = push_bit n x OR drop_bit (32 - n) (x AND 0xFFFFFFFF)"

definition sha1_R :: "u32 list \<Rightarrow> nat \<Rightarrow> u32 list" where
  "sha1_R W t =
     (let temp = W ! ((t - 3) AND 0x0F) XOR W ! ((t - 8) AND 0x0F)
               XOR W ! ((t - 14) AND 0x0F) XOR W ! (t AND 0x0F)
      in W[t AND 0x0F := sha1_S temp 1])"

text \<open>One macro call: the operand \<open>x\<close> is evaluated (updating \<open>W\<close> for \<open>R(t)\<close>), then
  \<open>e += S(a,5) + F(b,c,d) + K + x; b = S(b,30)\<close>.\<close>

definition sha1_P ::
  "(u32 \<Rightarrow> u32 \<Rightarrow> u32 \<Rightarrow> u32) \<Rightarrow> u32 \<Rightarrow> u32 list \<times> u32 list \<Rightarrow>
   nat \<times> nat \<times> nat \<times> nat \<times> nat \<times> nat \<Rightarrow> u32 list \<times> u32 list" where
  "sha1_P F K = (\<lambda>(v, W) (a, b, c, d, e, t).
     let W = (if t < 16 then W else sha1_R W t);
         x = W ! (t AND 0x0F);
         v = v[e := v ! e + (sha1_S (v ! a) 5 + F (v ! b) (v ! c) (v ! d) + K + x)];
         v = v[b := sha1_S (v ! b) 30]
     in (v, W))"

definition sha1_F1 :: "u32 \<Rightarrow> u32 \<Rightarrow> u32 \<Rightarrow> u32" where
  "sha1_F1 x y z = z XOR (x AND (y XOR z))"
definition sha1_F2 :: "u32 \<Rightarrow> u32 \<Rightarrow> u32 \<Rightarrow> u32" where
  "sha1_F2 x y z = x XOR y XOR z"
definition sha1_F3 :: "u32 \<Rightarrow> u32 \<Rightarrow> u32 \<Rightarrow> u32" where
  "sha1_F3 x y z = (x AND y) OR (z AND (x OR y))"

definition sha1_round1 :: "(nat \<times> nat \<times> nat \<times> nat \<times> nat \<times> nat) list" where
  "sha1_round1 =
   [(0, 1, 2, 3, 4, 0), (4, 0, 1, 2, 3, 1), (3, 4, 0, 1, 2, 2), (2, 3, 4, 0, 1, 3), (1, 2, 3, 4, 0, 4),
    (0, 1, 2, 3, 4, 5), (4, 0, 1, 2, 3, 6), (3, 4, 0, 1, 2, 7), (2, 3, 4, 0, 1, 8), (1, 2, 3, 4, 0, 9),
    (0, 1, 2, 3, 4, 10), (4, 0, 1, 2, 3, 11), (3, 4, 0, 1, 2, 12), (2, 3, 4, 0, 1, 13), (1, 2, 3, 4, 0, 14),
    (0, 1, 2, 3, 4, 15), (4, 0, 1, 2, 3, 16), (3, 4, 0, 1, 2, 17), (2, 3, 4, 0, 1, 18), (1, 2, 3, 4, 0, 19)]"

definition sha1_round2 :: "(nat \<times> nat \<times> nat \<times> nat \<times> nat \<times> nat) list" where
  "sha1_round2 =
   [(0, 1, 2, 3, 4, 20), (4, 0, 1, 2, 3, 21), (3, 4, 0, 1, 2, 22), (2, 3, 4, 0, 1, 23), (1, 2, 3, 4, 0, 24),
    (0, 1, 2, 3, 4, 25), (4, 0, 1, 2, 3, 26), (3, 4, 0, 1, 2, 27), (2, 3, 4, 0, 1, 28), (1, 2, 3, 4, 0, 29),
    (0, 1, 2, 3, 4, 30), (4, 0, 1, 2, 3, 31), (3, 4, 0, 1, 2, 32), (2, 3, 4, 0, 1, 33), (1, 2, 3, 4, 0, 34),
    (0, 1, 2, 3, 4, 35), (4, 0, 1, 2, 3, 36), (3, 4, 0, 1, 2, 37), (2, 3, 4, 0, 1, 38), (1, 2, 3, 4, 0, 39)]"

definition sha1_round3 :: "(nat \<times> nat \<times> nat \<times> nat \<times> nat \<times> nat) list" where
  "sha1_round3 =
   [(0, 1, 2, 3, 4, 40), (4, 0, 1, 2, 3, 41), (3, 4, 0, 1, 2, 42), (2, 3, 4, 0, 1, 43), (1, 2, 3, 4, 0, 44),
    (0, 1, 2, 3, 4, 45), (4, 0, 1, 2, 3, 46), (3, 4, 0, 1, 2, 47), (2, 3, 4, 0, 1, 48), (1, 2, 3, 4, 0, 49),
    (0, 1, 2, 3, 4, 50), (4, 0, 1, 2, 3, 51), (3, 4, 0, 1, 2, 52), (2, 3, 4, 0, 1, 53), (1, 2, 3, 4, 0, 54),
    (0, 1, 2, 3, 4, 55), (4, 0, 1, 2, 3, 56), (3, 4, 0, 1, 2, 57), (2, 3, 4, 0, 1, 58), (1, 2, 3, 4, 0, 59)]"

definition sha1_round4 :: "(nat \<times> nat \<times> nat \<times> nat \<times> nat \<times> nat) list" where
  "sha1_round4 =
   [(0, 1, 2, 3, 4, 60), (4, 0, 1, 2, 3, 61), (3, 4, 0, 1, 2, 62), (2, 3, 4, 0, 1, 63), (1, 2, 3, 4, 0, 64),
    (0, 1, 2, 3, 4, 65), (4, 0, 1, 2, 3, 66), (3, 4, 0, 1, 2, 67), (2, 3, 4, 0, 1, 68), (1, 2, 3, 4, 0, 69),
    (0, 1, 2, 3, 4, 70), (4, 0, 1, 2, 3, 71), (3, 4, 0, 1, 2, 72), (2, 3, 4, 0, 1, 73), (1, 2, 3, 4, 0, 74),
    (0, 1, 2, 3, 4, 75), (4, 0, 1, 2, 3, 76), (3, 4, 0, 1, 2, 77), (2, 3, 4, 0, 1, 78), (1, 2, 3, 4, 0, 79)]"

definition sha1_block :: "u32 list \<Rightarrow> bytes \<Rightarrow> u32 list" where
  "sha1_block st data =
     (let W = map (\<lambda>i. GET_UINT32_BE data (4 * i)) [0..<16];
          v = [st ! 0, st ! 1, st ! 2, st ! 3, st ! 4];
          s = foldl (sha1_P sha1_F1 0x5A827999) (v, W) sha1_round1;
          s = foldl (sha1_P sha1_F2 0x6ED9EBA1) s sha1_round2;
          s = foldl (sha1_P sha1_F3 0x8F1BBCDC) s sha1_round3;
          s = foldl (sha1_P sha1_F2 0xCA62C1D6) s sha1_round4;
          v = fst s
      in [st ! 0 + v ! 0, st ! 1 + v ! 1, st ! 2 + v ! 2, st ! 3 + v ! 3, st ! 4 + v ! 4])"

definition mbedtls_internal_sha1_process :: "sha1_context \<Rightarrow> bytes \<Rightarrow> sha1_context cret" where
  "mbedtls_internal_sha1_process ctx data = (0, ctx\<lparr>state := sha1_block (state ctx) data\<rparr>)"

definition sha1_update_rest :: "sha1_context \<Rightarrow> bytes \<Rightarrow> nat \<Rightarrow> sha1_context cret" where
  "sha1_update_rest ctx input left =
     (let (ret, ctx, input) = md_loop 64 mbedtls_internal_sha1_process ctx input in
      if ret \<noteq> 0 then (ret, ctx)
      else if length input > 0 then (0, ctx\<lparr>buffer := memcpy_at (buffer ctx) left input\<rparr>)
      else (0, ctx))"

definition mbedtls_sha1_update :: "sha1_context \<Rightarrow> bytes \<Rightarrow> sha1_context cret" where
  "mbedtls_sha1_update ctx input =
     (let ilen = length input in
      if ilen = 0 then (0, ctx)
      else
        let left = unat (total0 ctx AND 0x3F);
            fill = 64 - left;
            ctx = ctx\<lparr>total0 := total0 ctx + of_nat ilen\<rparr>;
            ctx = ctx\<lparr>total0 := total0 ctx AND 0xFFFFFFFF\<rparr>;
            ctx = (if total0 ctx < of_nat ilen then ctx\<lparr>total1 := total1 ctx + 1\<rparr> else ctx)
        in if left \<noteq> 0 \<and> ilen \<ge> fill then
             let ctx = ctx\<lparr>buffer := memcpy_at (buffer ctx) left (take fill input)\<rparr>;
                 (ret, ctx) = mbedtls_internal_sha1_process ctx (buffer ctx)
             in if ret \<noteq> 0 then (ret, ctx) else sha1_update_rest ctx (drop fill input) 0
           else sha1_update_rest ctx input left)"

text \<open>The length field, the last block and the output of \<open>mbedtls_sha1_finish\<close>.\<close>

definition sha1_finish_tail :: "sha1_context \<Rightarrow> int \<times> sha1_context \<times> bytes" where
  "sha1_finish_tail ctx =
     (let high = drop_bit 29 (total0 ctx) OR push_bit 3 (total1 ctx);
          low = push_bit 3 (total0 ctx);
          ctx = ctx\<lparr>buffer := PUT_UINT32_BE high (buffer ctx) 56\<rparr>;
          ctx = ctx\<lparr>buffer := PUT_UINT32_BE low (buffer ctx) 60\<rparr>;
          (ret, ctx) = mbedtls_internal_sha1_process ctx (buffer ctx)
      in if ret \<noteq> 0 then (ret, ctx, [])
         else (0, ctx, BYTES32_BE (state ctx ! 0) @ BYTES32_BE (state ctx ! 1)
                       @ BYTES32_BE (state ctx ! 2) @ BYTES32_BE (state ctx ! 3)
                       @ BYTES32_BE (state ctx ! 4)))"

definition mbedtls_sha1_finish :: "sha1_context \<Rightarrow> int \<times> sha1_context \<times> bytes" where
  "mbedtls_sha1_finish ctx =
     (let used = unat (total0 ctx AND 0x3F);
          ctx = ctx\<lparr>buffer := (buffer ctx)[used := 0x80]\<rparr>;
          used = used + 1
      in if used \<le> 56 then
           sha1_finish_tail (ctx\<lparr>buffer := memset_at (buffer ctx) used 0 (56 - used)\<rparr>)
         else
           let ctx = ctx\<lparr>buffer := memset_at (buffer ctx) used 0 (64 - used)\<rparr>;
               (ret, ctx) = mbedtls_internal_sha1_process ctx (buffer ctx)
           in if ret \<noteq> 0 then (ret, ctx, [])
              else sha1_finish_tail (ctx\<lparr>buffer := memset_at (buffer ctx) 0 0 56\<rparr>))"

definition mbedtls_sha1 :: "bytes \<Rightarrow> int \<times> bytes" where
  "mbedtls_sha1 input =
     (let ctx = mbedtls_sha1_init;
          (ret, ctx) = mbedtls_sha1_starts ctx
      in if ret \<noteq> 0 then (ret, []) else
      let (ret, ctx) = mbedtls_sha1_update ctx input
      in if ret \<noteq> 0 then (ret, []) else
      let (ret, ctx, output) = mbedtls_sha1_finish ctx
      in (ret, output))"

section \<open>The code is an instance of the block engine\<close>

interpretation sha1: md_stream 64 6 mbedtls_internal_sha1_process sha1_block
  by unfold_locales (simp_all add: mbedtls_internal_sha1_process_def)

lemma sha1_update_rest_eq: "sha1_update_rest = md_update_rest 64 mbedtls_internal_sha1_process"
  by (intro ext) (simp add: sha1_update_rest_def md_update_rest_def)

lemma sha1_update_eq: "mbedtls_sha1_update = md_update 64 mbedtls_internal_sha1_process"
  unfolding mbedtls_sha1_update_def [abs_def] sha1_update_rest_eq
  by (intro ext) (auto simp: md_update_def mask_simps Let_def)

abbreviation sha1_lenb :: "u32 \<Rightarrow> u32 \<Rightarrow> bytes" where
  "sha1_lenb high low \<equiv> BYTES32_BE high @ BYTES32_BE low"

lemma sha1_finish_tail_eq:
  assumes "length (buffer ctx) = 64"
    and "md_last 64 8 sha1_lenb mbedtls_internal_sha1_process ctx = (0, c)" and "length (state c) = 5"
  shows "sha1_finish_tail ctx = (0, c, concat (map BYTES32_BE (state c)))"
proof -
  have "sha1_finish_tail ctx = (0, c, BYTES32_BE (state c ! 0) @ BYTES32_BE (state c ! 1)
      @ BYTES32_BE (state c ! 2) @ BYTES32_BE (state c ! 3) @ BYTES32_BE (state c ! 4))"
    using assms(1,2) memcpy_at_append [of 56 "buffer ctx" "BYTES32_BE (drop_bit 29 (total0 ctx) OR push_bit 3 (total1 ctx))"]
    by (auto simp: sha1_finish_tail_def md_last_def PUT_UINT32_BE_def mbedtls_internal_sha1_process_def Let_def)
  then show ?thesis
    using assms(3) by (simp add: concat_map_nth [of _ "state c"] upt_rec numeral_eq_Suc)
qed

lemma length_sha1_block: "length (sha1_block st d) = 5"
  by (simp add: sha1_block_def Let_def)

lemma sha1_finish_eq:
  assumes "length (buffer ctx) = 64"
    and "md_finish 64 8 sha1_lenb mbedtls_internal_sha1_process ctx = (0, c)"
  shows "mbedtls_sha1_finish ctx = (0, c, concat (map BYTES32_BE (state c)))"
proof -
  have u: "unat (total0 ctx) mod 64 < 64" by simp
  have l: "length (state c') = 5" if "md_last 64 8 sha1_lenb mbedtls_internal_sha1_process x = (0, c')" for x c'
    using that by (auto simp: md_last_def mbedtls_internal_sha1_process_def length_sha1_block Let_def)
  show ?thesis
    using assms u l
    by (auto simp: mbedtls_sha1_finish_def md_finish_def mask_simps mbedtls_internal_sha1_process_def Let_def
        split: if_splits intro!: sha1_finish_tail_eq)
qed

definition sha1_iv :: "u32 list" where
  "sha1_iv = [0x67452301, 0xEFCDAB89, 0x98BADCFE, 0x10325476, 0xC3D2E1F0]"

definition sha1_digest :: "bytes \<Rightarrow> bytes" where
  "sha1_digest m = concat (map BYTES32_BE (absorb 64 sha1_block sha1_iv (md_pad 64 8 be_bytes m)))"

lemma sha1_finish_digest:
  assumes "md_repr 64 sha1_block sha1_iv m ctx"
  shows "\<exists>c. mbedtls_sha1_finish ctx = (0, c, sha1_digest m)"
proof -
  obtain c where c: "md_finish 64 8 sha1_lenb mbedtls_internal_sha1_process ctx = (0, c)"
    "state c = absorb 64 sha1_block sha1_iv (md_pad 64 8 be_bytes m)"
    using sha1.md_finish_state [OF assms, of 8 sha1_lenb be_bytes] len_field_be32 [of "length m"] by auto
  have "length (buffer ctx) = 64"
    using assms by (simp add: md_repr_def)
  from sha1_finish_eq [OF this c(1)] c(2) show ?thesis
    by (simp add: sha1_digest_def)
qed

lemma sha1_starts_repr:
  "\<exists>c. mbedtls_sha1_starts mbedtls_sha1_init = (0, c) \<and> md_repr 64 sha1_block sha1_iv [] c"
  by (simp add: mbedtls_sha1_starts_def mbedtls_sha1_init_def sha1_iv_def sha1.md_repr_start)

text \<open>Feeding a message in any chunks (each shorter than 4 GiB) gives the SHA-1 of the whole.\<close>

lemma sha1_hash_chunks:
  assumes "\<forall>x\<in>set xs. length x < 2 ^ 32"
  shows "\<exists>c0 c1 c2. mbedtls_sha1_starts mbedtls_sha1_init = (0, c0)
     \<and> feed mbedtls_sha1_update c0 xs = (0, c1)
     \<and> mbedtls_sha1_finish c1 = (0, c2, sha1_digest (concat xs))"
proof -
  obtain c0 where c0: "mbedtls_sha1_starts mbedtls_sha1_init = (0, c0)" "md_repr 64 sha1_block sha1_iv [] c0"
    using sha1_starts_repr by blast
  obtain c1 where "feed mbedtls_sha1_update c0 xs = (0, c1)" "md_repr 64 sha1_block sha1_iv (concat xs) c1"
    using sha1.feed_repr [OF c0(2), of xs] assms by (auto simp: sha1_update_eq)
  with c0(1) sha1_finish_digest [of "concat xs" c1] show ?thesis by auto
qed

lemma mbedtls_sha1_digest:
  assumes "length m < 2 ^ 32"
  shows "mbedtls_sha1 m = (0, sha1_digest m)"
proof -
  obtain c0 c1 c2 where "mbedtls_sha1_starts mbedtls_sha1_init = (0, c0)"
    "feed mbedtls_sha1_update c0 [m] = (0, c1)" "mbedtls_sha1_finish c1 = (0, c2, sha1_digest (concat [m]))"
    using sha1_hash_chunks [of "[m]"] assms by auto
  then show ?thesis
    by (simp add: mbedtls_sha1_def del: feed.simps)
qed

section \<open>The block function is the FIPS 180-4 compression function\<close>

text \<open>The message schedule, the round functions and the step of FIPS 180-4, sections 4.1.1,
  4.2.1 and 6.1.2.\<close>

lemma sha1_S_rotl: "n < 32 \<Longrightarrow> sha1_S x n = word_rotl n x"
  by (simp add: sha1_S_def mask_simps rotl32)

fun sha1_W :: "u32 list \<Rightarrow> nat \<Rightarrow> u32" where
  "sha1_W M t = (if t < 16 then M ! t
     else word_rotl 1 (sha1_W M (t - 3) XOR sha1_W M (t - 8) XOR sha1_W M (t - 14) XOR sha1_W M (t - 16)))"
declare sha1_W.simps [simp del]

definition sha1_f :: "nat \<Rightarrow> u32 \<Rightarrow> u32 \<Rightarrow> u32 \<Rightarrow> u32" where
  "sha1_f t x y z =
     (if t < 20 then (x AND y) XOR (NOT x AND z)
      else if t < 40 then x XOR y XOR z
      else if t < 60 then (x AND y) XOR (x AND z) XOR (y AND z)
      else x XOR y XOR z)"
definition sha1_K :: "nat \<Rightarrow> u32" where
  "sha1_K t = (if t < 20 then 0x5A827999 else if t < 40 then 0x6ED9EBA1
     else if t < 60 then 0x8F1BBCDC else 0xCA62C1D6)"

definition fips_sha1_step :: "u32 list \<Rightarrow> nat \<Rightarrow> u32 \<times> u32 \<times> u32 \<times> u32 \<times> u32 \<Rightarrow> u32 \<times> u32 \<times> u32 \<times> u32 \<times> u32" where
  "fips_sha1_step M t = (\<lambda>(a, b, c, d, e).
     (word_rotl 5 a + sha1_f t b c d + e + sha1_K t + sha1_W M t, a, word_rotl 30 b, c, d))"

definition fips_sha1 :: "u32 list \<Rightarrow> bytes \<Rightarrow> u32 list" where
  "fips_sha1 H data =
     (let M = map (\<lambda>i. GET_UINT32_BE data (4 * i)) [0..<16];
          (a, b, c, d, e) = fold (fips_sha1_step M) [0..<80] (H ! 0, H ! 1, H ! 2, H ! 3, H ! 4)
      in [a + H ! 0, b + H ! 1, c + H ! 2, d + H ! 3, e + H ! 4])"

lemma sha1_ch_eq: "sha1_F1 x y z = (x AND y) XOR (NOT x AND z)"
  by (rule bit_word_eqI) (auto simp: sha1_F1_def bit_simps)
lemma sha1_maj_eq: "sha1_F3 x y z = (x AND y) XOR (x AND z) XOR (y AND z)"
  by (rule bit_word_eqI) (auto simp: sha1_F3_def bit_simps)

definition sha1_sched :: "u32 list \<Rightarrow> nat \<Rightarrow> u32 list \<Rightarrow> bool" where
  "sha1_sched M T W \<longleftrightarrow> length W = 16 \<and> 16 \<le> T \<and> (\<forall>u. T - 16 \<le> u \<and> u < T \<longrightarrow> W ! (u mod 16) = sha1_W M u)"

lemma sha1_sched_R:
  assumes "sha1_sched M T W"
  shows "sha1_sched M (Suc T) (sha1_R W T)" and "sha1_R W T ! (T mod 16) = sha1_W M T"
proof -
  have T: "16 \<le> T" and l: "length W = 16" and
    W: "\<And>u. T - 16 \<le> u \<Longrightarrow> u < T \<Longrightarrow> W ! (u mod 16) = sha1_W M u"
    using assms by (auto simp: sha1_sched_def)
  have m: "(T - 16) mod 16 = T mod 16" using T by (simp add: le_mod_geq)
  have new: "sha1_R W T = W[T mod 16 := sha1_W M T]"
    using T W [of "T - 3"] W [of "T - 8"] W [of "T - 14"] W [of "T - 16"] m
    by (simp add: sha1_R_def and_0x0F sha1_S_rotl sha1_W.simps [of M T] Let_def diff_le_mono2)
  then show "sha1_R W T ! (T mod 16) = sha1_W M T" using l by simp
  have "W[T mod 16 := sha1_W M T] ! (u mod 16) = sha1_W M u" if "Suc T - 16 \<le> u" "u < Suc T" for u
  proof (cases "u = T")
    case False
    have "u mod 16 \<noteq> T mod 16"
    proof
      assume "u mod 16 = T mod 16"
      then have "16 dvd T - u" by (metis mod_eq_dvd_iff_nat less_imp_le less_SucE that(2) False nat_less_le not_less_eq)
      with that False T show False by (auto dest!: dvd_imp_le)
    qed
    with that False show ?thesis using W [of u] l by simp
  qed (use l in simp)
  then show "sha1_sched M (Suc T) (sha1_R W T)" using l T by (simp add: sha1_sched_def new)
qed


definition sha1_sched_at :: "u32 list \<Rightarrow> nat \<Rightarrow> u32 list \<Rightarrow> bool" where
  "sha1_sched_at M T W \<longleftrightarrow> (if T \<le> 16 then W = M else sha1_sched M T W)"

lemma sha1_operand:
  assumes "length M = 16" and "sha1_sched_at M T W"
  defines "W' \<equiv> if T < 16 then W else sha1_R W T"
  shows "W' ! (T AND 0x0F) = sha1_W M T" and "sha1_sched_at M (Suc T) W'"
proof -
  have 16: "sha1_sched M 16 M"
    using assms(1) by (simp add: sha1_sched_def sha1_W.simps)
  have "W' ! (T AND 0x0F) = sha1_W M T \<and> sha1_sched_at M (Suc T) W'"
  proof (cases "T < 16")
    case True
    with assms show ?thesis by (simp add: sha1_sched_at_def and_0x0F sha1_W.simps)
  next
    case False
    then have "sha1_sched M T W"
      using assms 16 by (cases "T = 16") (auto simp: sha1_sched_at_def)
    from sha1_sched_R [OF this] False show ?thesis
      by (simp add: W'_def and_0x0F sha1_sched_at_def)
  qed
  then show "W' ! (T AND 0x0F) = sha1_W M T" and "sha1_sched_at M (Suc T) W'" by auto
qed

definition sha1_rel :: "nat \<Rightarrow> u32 list \<Rightarrow> u32 \<times> u32 \<times> u32 \<times> u32 \<times> u32 \<Rightarrow> bool" where
  "sha1_rel t v s \<longleftrightarrow> length v = 5 \<and>
     s = (v ! role5 0 t, v ! role5 1 t, v ! role5 2 t, v ! role5 3 t, v ! role5 4 t)"

definition sha1_row :: "nat \<Rightarrow> nat \<times> nat \<times> nat \<times> nat \<times> nat \<times> nat" where
  "sha1_row t = (role5 0 t, role5 1 t, role5 2 t, role5 3 t, role5 4 t, t)"

lemma sha1_P_step:
  assumes M: "length M = 16" and W: "sha1_sched_at M t W" and v: "sha1_rel t v s"
    and F: "\<And>x y z. F x y z = sha1_f t x y z" and K: "K = sha1_K t"
  shows "\<exists>v' W'. sha1_P F K (v, W) (sha1_row t) = (v', W') \<and> sha1_sched_at M (Suc t) W'
     \<and> sha1_rel (Suc t) v' (fips_sha1_step M t s)"
proof -
  obtain A B C D E where vv: "v = [A, B, C, D, E]"
    using v by (auto simp: sha1_rel_def length_Suc_conv numeral_eq_Suc)
  define W' where "W' = (if t < 16 then W else sha1_R W t)"
  have w: "W' ! (t AND 0x0F) = sha1_W M t" "sha1_sched_at M (Suc t) W'"
    using sha1_operand [OF M W] by (simp_all add: W'_def)
  have P: "sha1_P F K (v, W) (a, b, c, d, e, t) =
      ((v[e := v ! e + (sha1_S (v ! a) 5 + F (v ! b) (v ! c) (v ! d) + K + sha1_W M t)])
         [b := sha1_S (v[e := v ! e + (sha1_S (v ! a) 5 + F (v ! b) (v ! c) (v ! d) + K + sha1_W M t)] ! b) 30],
       W')" for a b c d e
    using w(1) by (simp add: sha1_P_def Let_def W'_def [symmetric])
  have rel: "sha1_rel (Suc t) (fst (sha1_P F K (v, W) (sha1_row t))) (fips_sha1_step M t s)"
    if r: "t mod 5 = r" and "r \<in> {0, 1, 2, 3, 4}" for r
    using that(2) v unfolding vv K
    by (elim insertE emptyE; simp add: P [unfolded vv K] sha1_row_def sha1_rel_def fips_sha1_step_def F
        sha1_S_rotl role5_eq [OF r] add.assoc add.left_commute add.commute)
  have m5: "t mod 5 \<in> {0, 1, 2, 3, 4}"
    using mod_less_divisor [of 5 t] by (simp only: insert_iff) linarith
  have "snd (sha1_P F K (v, W) (sha1_row t)) = W'"
    by (simp add: P sha1_row_def)
  with rel [OF refl m5] w(2) show ?thesis by (metis prod.collapse)
qed

lemma sha1_rounds:
  assumes M: "length M = 16" and v: "sha1_rel t v s" and W: "sha1_sched_at M t W"
    and F: "\<And>i x y z. t \<le> i \<Longrightarrow> i < t + n \<Longrightarrow> F x y z = sha1_f i x y z"
    and K: "\<And>i. t \<le> i \<Longrightarrow> i < t + n \<Longrightarrow> K = sha1_K i"
  shows "\<exists>v' W'. foldl (sha1_P F K) (v, W) (map sha1_row [t..<t + n]) = (v', W')
     \<and> sha1_sched_at M (t + n) W' \<and> sha1_rel (t + n) v' (fold (fips_sha1_step M) [t..<t + n] s)"
  using F K
proof (induction n)
  case 0
  with v W show ?case by simp
next
  case (Suc n)
  then obtain v' W' where IH: "foldl (sha1_P F K) (v, W) (map sha1_row [t..<t + n]) = (v', W')"
    "sha1_sched_at M (t + n) W'" "sha1_rel (t + n) v' (fold (fips_sha1_step M) [t..<t + n] s)"
    by auto
  from sha1_P_step [OF M IH(2,3), of F K] Suc.prems IH(1) show ?case
    by auto
qed

lemma sha1_tables:
  "sha1_round1 = map sha1_row [0..<20]" "sha1_round2 = map sha1_row [20..<40]"
  "sha1_round3 = map sha1_row [40..<60]" "sha1_round4 = map sha1_row [60..<80]"
  by code_simp+

lemma sha1_block_fips: "length st = 5 \<Longrightarrow> sha1_block st data = fips_sha1 st data"
proof -
  define M where "M = map (\<lambda>i. GET_UINT32_BE data (4 * i)) [0..<16]"
  have M: "length M = 16" by (simp add: M_def)
  let ?v = "[st ! 0, st ! 1, st ! 2, st ! 3, st ! 4]"
  let ?s = "(st ! 0, st ! 1, st ! 2, st ! 3, st ! 4)"
  have 0: "sha1_rel 0 ?v ?s" "sha1_sched_at M 0 M"
    by (simp_all add: sha1_rel_def role5_def sha1_sched_at_def)
  obtain v1 W1 where 1: "foldl (sha1_P sha1_F1 0x5A827999) (?v, M) sha1_round1 = (v1, W1)"
    "sha1_sched_at M 20 W1" "sha1_rel 20 v1 (fold (fips_sha1_step M) [0..<20] ?s)"
    using sha1_rounds [OF M 0, where n = 20 and F = sha1_F1 and K = "0x5A827999"]
    by (auto simp: sha1_tables sha1_ch_eq sha1_f_def sha1_K_def simp del: upt_rec_numeral)
  obtain v2 W2 where 2: "foldl (sha1_P sha1_F2 0x6ED9EBA1) (v1, W1) sha1_round2 = (v2, W2)"
    "sha1_sched_at M 40 W2" "sha1_rel 40 v2 (fold (fips_sha1_step M) [20..<40] (fold (fips_sha1_step M) [0..<20] ?s))"
    using sha1_rounds [OF M 1(3,2), where n = 20 and F = sha1_F2 and K = "0x6ED9EBA1"]
    by (auto simp: sha1_tables sha1_F2_def sha1_f_def sha1_K_def simp del: upt_rec_numeral)
  obtain v3 W3 where 3: "foldl (sha1_P sha1_F3 0x8F1BBCDC) (v2, W2) sha1_round3 = (v3, W3)"
    "sha1_sched_at M 60 W3" "sha1_rel 60 v3 (fold (fips_sha1_step M) [40..<60]
       (fold (fips_sha1_step M) [20..<40] (fold (fips_sha1_step M) [0..<20] ?s)))"
    using sha1_rounds [OF M 2(3,2), where n = 20 and F = sha1_F3 and K = "0x8F1BBCDC"]
    by (auto simp: sha1_tables sha1_maj_eq sha1_f_def sha1_K_def simp del: upt_rec_numeral)
  obtain v4 W4 where 4: "foldl (sha1_P sha1_F2 0xCA62C1D6) (v3, W3) sha1_round4 = (v4, W4)"
    "sha1_rel 80 v4 (fold (fips_sha1_step M) [60..<80] (fold (fips_sha1_step M) [40..<60]
       (fold (fips_sha1_step M) [20..<40] (fold (fips_sha1_step M) [0..<20] ?s))))"
    using sha1_rounds [OF M 3(3,2), where n = 20 and F = sha1_F2 and K = "0xCA62C1D6"]
    by (auto simp: sha1_tables sha1_F2_def sha1_f_def sha1_K_def simp del: upt_rec_numeral)
  have "[0..<80] = [0..<20] @ [20..<40] @ [40..<60] @ [60..<80]"
    by code_simp
  then have f: "fold (fips_sha1_step M) [0..<80] ?s = (v4 ! 0, v4 ! 1, v4 ! 2, v4 ! 3, v4 ! 4)"
    using 4(2) by (simp add: sha1_rel_def role5_def del: upt_rec_numeral)
  show ?thesis
    unfolding sha1_block_def fips_sha1_def M_def [symmetric] Let_def 1(1) 2(1) 3(1) 4(1) f
    by (simp add: add.commute)
qed

section \<open>Properties\<close>

text \<open>The hash of the standard: padding, then its compression function over the blocks.\<close>

definition fips_sha1_hash :: "bytes \<Rightarrow> bytes" where
  "fips_sha1_hash m = concat (map BYTES32_BE (absorb 64 fips_sha1 sha1_iv (md_pad 64 8 be_bytes m)))"

lemma sha1_digest_spec: "sha1_digest m = fips_sha1_hash m"
proof -
  have step: "length st = 5 \<Longrightarrow> sha1_block st d = fips_sha1 st d \<and> length (fips_sha1 st d) = 5" for st d
    using sha1_block_fips [of st d] length_sha1_block [of st d] by simp
  have "absorb 64 sha1_block sha1_iv x = absorb 64 fips_sha1 sha1_iv x" for x
    by (rule absorb_cong [where P = "\<lambda>s. length s = 5", OF _ step]) (simp_all add: sha1_iv_def)
  then show ?thesis by (simp add: sha1_digest_def fips_sha1_hash_def)
qed

text \<open>C38. SHA-1 as an incremental hash: whatever way a message is cut into chunks (empty ones
  included, each shorter than 4 GiB), starting a context, feeding the chunks and finishing gives
  return code 0 at every call and the FIPS 180-4 hash of the concatenation.\<close>

theorem sha1_chunks_correct:
  assumes "\<forall>x\<in>set xs. length x < 2 ^ 32"
  shows "\<exists>c0 c1 c2. mbedtls_sha1_starts mbedtls_sha1_init = (0, c0)
     \<and> feed mbedtls_sha1_update c0 xs = (0, c1)
     \<and> mbedtls_sha1_finish c1 = (0, c2, fips_sha1_hash (concat xs))"
  using sha1_hash_chunks [OF assms] by (simp only: sha1_digest_spec)

text \<open>The hash of \<open>abc\<close>, given as three chunks.\<close>

theorem sha1_chunks_correct_witness:
  "\<exists>c0 c1 c2. mbedtls_sha1_starts mbedtls_sha1_init = (0, c0)
     \<and> feed mbedtls_sha1_update c0 [[0x61], [], [0x62, 0x63]] = (0, c1)
     \<and> mbedtls_sha1_finish c1 = (0, c2, fips_sha1_hash [0x61, 0x62, 0x63])"
  using sha1_chunks_correct [of "[[0x61], [], [0x62, 0x63]]"] by (simp del: feed.simps)

end
