(* ===== verification/Ripemd160.thy ===== *)
theory Ripemd160
  imports HashStream
begin

text \<open>
  \<open>libs/mbedtls/library/ripemd160.c\<close>: RIPEMD-160. The variables \<open>A .. E\<close> and
  \<open>Ap .. Ep\<close> of the block function are two lists; a call \<open>P2(a,b,c,d,e,r,s,rp,sp)\<close> is one
  row of the round tables and runs \<open>P\<close> on each of the two lines. Unlike its siblings,
  \<open>finish\<close> pads through \<open>update\<close>. The block function is shown to be the two-line
  compression function of the RIPEMD-160 paper, with its permutations and rotations.
\<close>

type_synonym ripemd160_context = "u32 md_context"

definition mbedtls_ripemd160_init :: ripemd160_context where
  "mbedtls_ripemd160_init = \<lparr>total0 = 0, total1 = 0, state = replicate 5 0, buffer = replicate 64 0\<rparr>"

definition mbedtls_ripemd160_free :: "ripemd160_context option \<Rightarrow> ripemd160_context option" where
  "mbedtls_ripemd160_free ctx = (case ctx of None \<Rightarrow> None
     | Some c \<Rightarrow> Some \<lparr>total0 = 0, total1 = 0, state = replicate 5 0, buffer = replicate 64 0\<rparr>)"

definition mbedtls_ripemd160_clone :: "ripemd160_context \<Rightarrow> ripemd160_context \<Rightarrow> ripemd160_context" where
  "mbedtls_ripemd160_clone dst src = src"

definition mbedtls_ripemd160_starts :: "ripemd160_context \<Rightarrow> ripemd160_context cret" where
  "mbedtls_ripemd160_starts ctx =
     (let ctx = ctx\<lparr>total0 := 0\<rparr>;
          ctx = ctx\<lparr>total1 := 0\<rparr>;
          ctx = ctx\<lparr>state := [0x67452301, 0xEFCDAB89, 0x98BADCFE, 0x10325476, 0xC3D2E1F0]\<rparr>
      in (0, ctx))"

definition ripemd160_S :: "u32 \<Rightarrow> nat \<Rightarrow> u32" where
  "ripemd160_S x n = push_bit n x OR drop_bit (32 - n) x"

definition ripemd160_P ::
  "(u32 \<Rightarrow> u32 \<Rightarrow> u32 \<Rightarrow> u32) \<Rightarrow> u32 \<Rightarrow> u32 list \<Rightarrow> u32 list \<Rightarrow>
   nat \<times> nat \<times> nat \<times> nat \<times> nat \<times> nat \<times> nat \<Rightarrow> u32 list" where
  "ripemd160_P f k X v = (\<lambda>(a, b, c, d, e, r, s).
     let v = v[a := v ! a + (f (v ! b) (v ! c) (v ! d) + X ! r + k)];
         v = v[a := ripemd160_S (v ! a) s + v ! e]
     in v[c := ripemd160_S (v ! c) 10])"

definition ripemd160_P2 ::
  "(u32 \<Rightarrow> u32 \<Rightarrow> u32 \<Rightarrow> u32) \<Rightarrow> u32 \<Rightarrow> (u32 \<Rightarrow> u32 \<Rightarrow> u32 \<Rightarrow> u32) \<Rightarrow> u32 \<Rightarrow> u32 list \<Rightarrow>
   u32 list \<times> u32 list \<Rightarrow>
   nat \<times> nat \<times> nat \<times> nat \<times> nat \<times> nat \<times> nat \<times> nat \<times> nat \<Rightarrow> u32 list \<times> u32 list" where
  "ripemd160_P2 F K Fp Kp X = (\<lambda>(v, vp) (a, b, c, d, e, r, s, rp, sp).
     (ripemd160_P F K X v (a, b, c, d, e, r, s), ripemd160_P Fp Kp X vp (a, b, c, d, e, rp, sp)))"

definition ripemd160_F1 :: "u32 \<Rightarrow> u32 \<Rightarrow> u32 \<Rightarrow> u32" where
  "ripemd160_F1 x y z = x XOR y XOR z"
definition ripemd160_F2 :: "u32 \<Rightarrow> u32 \<Rightarrow> u32 \<Rightarrow> u32" where
  "ripemd160_F2 x y z = (x AND y) OR (NOT x AND z)"
definition ripemd160_F3 :: "u32 \<Rightarrow> u32 \<Rightarrow> u32 \<Rightarrow> u32" where
  "ripemd160_F3 x y z = (x OR NOT y) XOR z"
definition ripemd160_F4 :: "u32 \<Rightarrow> u32 \<Rightarrow> u32 \<Rightarrow> u32" where
  "ripemd160_F4 x y z = (x AND z) OR (y AND NOT z)"
definition ripemd160_F5 :: "u32 \<Rightarrow> u32 \<Rightarrow> u32 \<Rightarrow> u32" where
  "ripemd160_F5 x y z = x XOR (y OR NOT z)"

definition ripemd160_round1 :: "(nat \<times> nat \<times> nat \<times> nat \<times> nat \<times> nat \<times> nat \<times> nat \<times> nat) list" where
  "ripemd160_round1 =
   [(0, 1, 2, 3, 4, 0, 11, 5, 8),
    (4, 0, 1, 2, 3, 1, 14, 14, 9),
    (3, 4, 0, 1, 2, 2, 15, 7, 9),
    (2, 3, 4, 0, 1, 3, 12, 0, 11),
    (1, 2, 3, 4, 0, 4, 5, 9, 13),
    (0, 1, 2, 3, 4, 5, 8, 2, 15),
    (4, 0, 1, 2, 3, 6, 7, 11, 15),
    (3, 4, 0, 1, 2, 7, 9, 4, 5),
    (2, 3, 4, 0, 1, 8, 11, 13, 7),
    (1, 2, 3, 4, 0, 9, 13, 6, 7),
    (0, 1, 2, 3, 4, 10, 14, 15, 8),
    (4, 0, 1, 2, 3, 11, 15, 8, 11),
    (3, 4, 0, 1, 2, 12, 6, 1, 14),
    (2, 3, 4, 0, 1, 13, 7, 10, 14),
    (1, 2, 3, 4, 0, 14, 9, 3, 12),
    (0, 1, 2, 3, 4, 15, 8, 12, 6)]"

definition ripemd160_round2 :: "(nat \<times> nat \<times> nat \<times> nat \<times> nat \<times> nat \<times> nat \<times> nat \<times> nat) list" where
  "ripemd160_round2 =
   [(4, 0, 1, 2, 3, 7, 7, 6, 9),
    (3, 4, 0, 1, 2, 4, 6, 11, 13),
    (2, 3, 4, 0, 1, 13, 8, 3, 15),
    (1, 2, 3, 4, 0, 1, 13, 7, 7),
    (0, 1, 2, 3, 4, 10, 11, 0, 12),
    (4, 0, 1, 2, 3, 6, 9, 13, 8),
    (3, 4, 0, 1, 2, 15, 7, 5, 9),
    (2, 3, 4, 0, 1, 3, 15, 10, 11),
    (1, 2, 3, 4, 0, 12, 7, 14, 7),
    (0, 1, 2, 3, 4, 0, 12, 15, 7),
    (4, 0, 1, 2, 3, 9, 15, 8, 12),
    (3, 4, 0, 1, 2, 5, 9, 12, 7),
    (2, 3, 4, 0, 1, 2, 11, 4, 6),
    (1, 2, 3, 4, 0, 14, 7, 9, 15),
    (0, 1, 2, 3, 4, 11, 13, 1, 13),
    (4, 0, 1, 2, 3, 8, 12, 2, 11)]"

definition ripemd160_round3 :: "(nat \<times> nat \<times> nat \<times> nat \<times> nat \<times> nat \<times> nat \<times> nat \<times> nat) list" where
  "ripemd160_round3 =
   [(3, 4, 0, 1, 2, 3, 11, 15, 9),
    (2, 3, 4, 0, 1, 10, 13, 5, 7),
    (1, 2, 3, 4, 0, 14, 6, 1, 15),
    (0, 1, 2, 3, 4, 4, 7, 3, 11),
    (4, 0, 1, 2, 3, 9, 14, 7, 8),
    (3, 4, 0, 1, 2, 15, 9, 14, 6),
    (2, 3, 4, 0, 1, 8, 13, 6, 6),
    (1, 2, 3, 4, 0, 1, 15, 9, 14),
    (0, 1, 2, 3, 4, 2, 14, 11, 12),
    (4, 0, 1, 2, 3, 7, 8, 8, 13),
    (3, 4, 0, 1, 2, 0, 13, 12, 5),
    (2, 3, 4, 0, 1, 6, 6, 2, 14),
    (1, 2, 3, 4, 0, 13, 5, 10, 13),
    (0, 1, 2, 3, 4, 11, 12, 0, 13),
    (4, 0, 1, 2, 3, 5, 7, 4, 7),
    (3, 4, 0, 1, 2, 12, 5, 13, 5)]"

definition ripemd160_round4 :: "(nat \<times> nat \<times> nat \<times> nat \<times> nat \<times> nat \<times> nat \<times> nat \<times> nat) list" where
  "ripemd160_round4 =
   [(2, 3, 4, 0, 1, 1, 11, 8, 15),
    (1, 2, 3, 4, 0, 9, 12, 6, 5),
    (0, 1, 2, 3, 4, 11, 14, 4, 8),
    (4, 0, 1, 2, 3, 10, 15, 1, 11),
    (3, 4, 0, 1, 2, 0, 14, 3, 14),
    (2, 3, 4, 0, 1, 8, 15, 11, 14),
    (1, 2, 3, 4, 0, 12, 9, 15, 6),
    (0, 1, 2, 3, 4, 4, 8, 0, 14),
    (4, 0, 1, 2, 3, 13, 9, 5, 6),
    (3, 4, 0, 1, 2, 3, 14, 12, 9),
    (2, 3, 4, 0, 1, 7, 5, 2, 12),
    (1, 2, 3, 4, 0, 15, 6, 13, 9),
    (0, 1, 2, 3, 4, 14, 8, 9, 12),
    (4, 0, 1, 2, 3, 5, 6, 7, 5),
    (3, 4, 0, 1, 2, 6, 5, 10, 15),
    (2, 3, 4, 0, 1, 2, 12, 14, 8)]"

definition ripemd160_round5 :: "(nat \<times> nat \<times> nat \<times> nat \<times> nat \<times> nat \<times> nat \<times> nat \<times> nat) list" where
  "ripemd160_round5 =
   [(1, 2, 3, 4, 0, 4, 9, 12, 8),
    (0, 1, 2, 3, 4, 0, 15, 15, 5),
    (4, 0, 1, 2, 3, 5, 5, 10, 12),
    (3, 4, 0, 1, 2, 9, 11, 4, 9),
    (2, 3, 4, 0, 1, 7, 6, 1, 12),
    (1, 2, 3, 4, 0, 12, 8, 5, 5),
    (0, 1, 2, 3, 4, 2, 13, 8, 14),
    (4, 0, 1, 2, 3, 10, 12, 7, 6),
    (3, 4, 0, 1, 2, 14, 5, 6, 8),
    (2, 3, 4, 0, 1, 1, 12, 2, 13),
    (1, 2, 3, 4, 0, 3, 13, 13, 6),
    (0, 1, 2, 3, 4, 8, 14, 14, 5),
    (4, 0, 1, 2, 3, 11, 11, 0, 15),
    (3, 4, 0, 1, 2, 6, 8, 3, 13),
    (2, 3, 4, 0, 1, 15, 5, 9, 11),
    (1, 2, 3, 4, 0, 13, 6, 11, 11)]"

definition ripemd160_block :: "u32 list \<Rightarrow> bytes \<Rightarrow> u32 list" where
  "ripemd160_block st data =
     (let X = map (\<lambda>i. GET_UINT32_LE data (4 * i)) [0..<16];
          v = [st ! 0, st ! 1, st ! 2, st ! 3, st ! 4];
          w = foldl (ripemd160_P2 ripemd160_F1 0x00000000 ripemd160_F5 0x50A28BE6 X) (v, v) ripemd160_round1;
          w = foldl (ripemd160_P2 ripemd160_F2 0x5A827999 ripemd160_F4 0x5C4DD124 X) w ripemd160_round2;
          w = foldl (ripemd160_P2 ripemd160_F3 0x6ED9EBA1 ripemd160_F3 0x6D703EF3 X) w ripemd160_round3;
          w = foldl (ripemd160_P2 ripemd160_F4 0x8F1BBCDC ripemd160_F2 0x7A6D76E9 X) w ripemd160_round4;
          w = foldl (ripemd160_P2 ripemd160_F5 0xA953FD4E ripemd160_F1 0x00000000 X) w ripemd160_round5;
          v = fst w;
          vp = snd w
      in [st ! 1 + v ! 2 + vp ! 3, st ! 2 + v ! 3 + vp ! 4, st ! 3 + v ! 4 + vp ! 0,
          st ! 4 + v ! 0 + vp ! 1, st ! 0 + v ! 1 + vp ! 2])"

definition mbedtls_internal_ripemd160_process :: "ripemd160_context \<Rightarrow> bytes \<Rightarrow> ripemd160_context cret" where
  "mbedtls_internal_ripemd160_process ctx data = (0, ctx\<lparr>state := ripemd160_block (state ctx) data\<rparr>)"

definition ripemd160_update_rest :: "ripemd160_context \<Rightarrow> bytes \<Rightarrow> nat \<Rightarrow> ripemd160_context cret" where
  "ripemd160_update_rest ctx input left =
     (let (ret, ctx, input) = md_loop 64 mbedtls_internal_ripemd160_process ctx input in
      if ret \<noteq> 0 then (ret, ctx)
      else if length input > 0 then (0, ctx\<lparr>buffer := memcpy_at (buffer ctx) left input\<rparr>)
      else (0, ctx))"

definition mbedtls_ripemd160_update :: "ripemd160_context \<Rightarrow> bytes \<Rightarrow> ripemd160_context cret" where
  "mbedtls_ripemd160_update ctx input =
     (let ilen = length input in
      if ilen = 0 then (0, ctx)
      else
        let left = unat (total0 ctx AND 0x3F);
            fill = 64 - left;
            ctx = ctx\<lparr>total0 := total0 ctx + of_nat ilen\<rparr>;
            ctx = ctx\<lparr>total0 := total0 ctx AND 0xFFFFFFFF\<rparr>;
            ctx = (if total0 ctx < of_nat ilen then ctx\<lparr>total1 := total1 ctx + 1\<rparr> else ctx)
        in if left \<noteq> 0 \<and> ilen \<ge> fill then
             let ctx = ctx\<lparr>buffer := memcpy_at (buffer ctx) left (take fill input)\<rparr>;
                 (ret, ctx) = mbedtls_internal_ripemd160_process ctx (buffer ctx)
             in if ret \<noteq> 0 then (ret, ctx) else ripemd160_update_rest ctx (drop fill input) 0
           else ripemd160_update_rest ctx input left)"

definition ripemd160_padding :: bytes where
  "ripemd160_padding = 0x80 # replicate 63 0"

definition mbedtls_ripemd160_finish :: "ripemd160_context \<Rightarrow> int \<times> ripemd160_context \<times> bytes" where
  "mbedtls_ripemd160_finish ctx =
     (let high = drop_bit 29 (total0 ctx) OR push_bit 3 (total1 ctx);
          low = push_bit 3 (total0 ctx);
          msglen = replicate 8 0;
          msglen = PUT_UINT32_LE low msglen 0;
          msglen = PUT_UINT32_LE high msglen 4;
          last = total0 ctx AND 0x3F;
          padn = unat (if last < 56 then 56 - last else 120 - last);
          (ret, ctx) = mbedtls_ripemd160_update ctx (take padn ripemd160_padding)
      in if ret \<noteq> 0 then (ret, ctx, []) else
      let (ret, ctx) = mbedtls_ripemd160_update ctx (take 8 msglen)
      in if ret \<noteq> 0 then (ret, ctx, [])
         else (0, ctx, BYTES32_LE (state ctx ! 0) @ BYTES32_LE (state ctx ! 1)
                       @ BYTES32_LE (state ctx ! 2) @ BYTES32_LE (state ctx ! 3)
                       @ BYTES32_LE (state ctx ! 4)))"

definition mbedtls_ripemd160 :: "bytes \<Rightarrow> int \<times> bytes" where
  "mbedtls_ripemd160 input =
     (let ctx = mbedtls_ripemd160_init;
          (ret, ctx) = mbedtls_ripemd160_starts ctx
      in if ret \<noteq> 0 then (ret, []) else
      let (ret, ctx) = mbedtls_ripemd160_update ctx input
      in if ret \<noteq> 0 then (ret, []) else
      let (ret, ctx, output) = mbedtls_ripemd160_finish ctx
      in (ret, output))"

section \<open>The code is an instance of the block engine\<close>

interpretation ripemd160: md_stream 64 6 mbedtls_internal_ripemd160_process ripemd160_block
  by unfold_locales (simp_all add: mbedtls_internal_ripemd160_process_def)

lemma ripemd160_update_rest_eq: "ripemd160_update_rest = md_update_rest 64 mbedtls_internal_ripemd160_process"
  by (intro ext) (simp add: ripemd160_update_rest_def md_update_rest_def)

lemma ripemd160_update_eq: "mbedtls_ripemd160_update = md_update 64 mbedtls_internal_ripemd160_process"
  unfolding mbedtls_ripemd160_update_def [abs_def] ripemd160_update_rest_eq
  by (intro ext) (auto simp: md_update_def mask_simps Let_def)

lemma length_ripemd160_block: "length (ripemd160_block st d) = 5"
  by (simp add: ripemd160_block_def Let_def)

definition ripemd160_iv :: "u32 list" where
  "ripemd160_iv = [0x67452301, 0xEFCDAB89, 0x98BADCFE, 0x10325476, 0xC3D2E1F0]"

definition ripemd160_digest :: "bytes \<Rightarrow> bytes" where
  "ripemd160_digest m =
     concat (map BYTES32_LE (absorb 64 ripemd160_block ripemd160_iv (md_pad 64 8 le_bytes m)))"

text \<open>The bytes passed to the two calls of \<open>update\<close> are the padding of the message.\<close>

lemma ripemd160_padn:
  fixes last :: u32
  assumes "last = (of_nat n :: u32) AND 0x3F"
  shows "unat (if last < 56 then 56 - last else 120 - last) = Suc (md_zeros 64 8 n)"
proof -
  have u: "unat last = n mod 64"
    using assms by (simp add: mask_simps unat_of_nat mod_mod_cancel)
  have lt: "n mod 64 < 64" by simp
  have s: "unat (56 - last) = 56 - n mod 64" if "last < 56"
    using that u by (simp add: unat_sub_if_size word_less_nat_alt word_size)
  have b: "unat (120 - last) = 120 - n mod 64"
    using u lt by (simp add: unat_sub_if_size word_less_nat_alt word_size)
  show ?thesis
  proof (cases "last < 56")
    case True
    then have "n mod 64 + 1 + 8 \<le> 64" using u by (simp add: word_less_nat_alt)
    from ripemd160.md_zeros_one_block [OF this] show ?thesis
      using True s u by (simp add: word_less_nat_alt) arith
  next
    case False
    then have "64 < n mod 64 + 1 + 8" using u by (simp add: word_less_nat_alt)
    from ripemd160.md_zeros_two_blocks [OF this] show ?thesis
      using False b lt by simp
  qed
qed

lemma take_padding: "n \<le> 64 \<Longrightarrow> 0 < n \<Longrightarrow> take n ripemd160_padding = 0x80 # replicate (n - 1) 0"
  by (cases n) (simp_all add: ripemd160_padding_def)

lemma ripemd160_finish_digest:
  assumes "md_repr 64 ripemd160_block ripemd160_iv m ctx"
  shows "\<exists>c. mbedtls_ripemd160_finish ctx = (0, c, ripemd160_digest m)"
proof -
  let ?n = "length m"
  define pad where "pad = 0x80 # replicate (md_zeros 64 8 ?n) (0::byte)"
  have z: "md_zeros 64 8 ?n < 64" by (simp add: md_zeros_def)
  have tot: "total0 ctx = of_nat ?n" "total1 ctx = of_nat (?n div 2 ^ 32)"
    using assms by (simp_all add: md_repr_def)
  have p: "take (unat (if total0 ctx AND 0x3F < 56 then 56 - (total0 ctx AND 0x3F)
      else 120 - (total0 ctx AND 0x3F))) ripemd160_padding = pad"
    using z by (simp only: ripemd160_padn [OF refl] tot) (simp add: take_padding pad_def)
  define e where "e = le_bytes 8 (8 * ?n)"
  have ml: "take 8 (PUT_UINT32_LE (drop_bit 29 (total0 ctx) OR push_bit 3 (total1 ctx))
      (PUT_UINT32_LE (push_bit 3 (total0 ctx)) (replicate 8 0) 0) 4) = e"
    using len_field_le32 [of ?n] by (simp add: e_def tot PUT_UINT32_LE_def memcpy_at_def)
  obtain c1 where c1: "mbedtls_ripemd160_update ctx pad = (0, c1)"
    "md_repr 64 ripemd160_block ripemd160_iv (m @ pad) c1"
    using ripemd160.md_update_repr [OF assms, of pad] z by (auto simp: ripemd160_update_eq pad_def)
  have le: "length e = 8" by (simp add: e_def le_bytes_def)
  obtain c2 where c2: "mbedtls_ripemd160_update c1 e = (0, c2)"
    "md_repr 64 ripemd160_block ripemd160_iv ((m @ pad) @ e) c2"
    using ripemd160.md_update_repr [OF c1(2), of e] le by (auto simp: ripemd160_update_eq)
  have st: "state c2 = absorb 64 ripemd160_block ripemd160_iv (md_pad 64 8 le_bytes m)"
    using c2(2) by (simp add: md_repr_def md_pad_def pad_def e_def)
  have l: "length (absorb 64 ripemd160_block st x) = 5" if "length st = 5" for st x
    using that by (rule absorb_length) (simp add: length_ripemd160_block)
  have "length (state c2) = 5"
    unfolding st by (rule l) (simp add: ripemd160_iv_def)
  then have "concat (map BYTES32_LE (state c2)) = BYTES32_LE (state c2 ! 0) @ BYTES32_LE (state c2 ! 1)
      @ BYTES32_LE (state c2 ! 2) @ BYTES32_LE (state c2 ! 3) @ BYTES32_LE (state c2 ! 4)"
    by (simp add: concat_map_nth [of _ "state c2"] upt_rec numeral_eq_Suc)
  then have "mbedtls_ripemd160_finish ctx = (0, c2, ripemd160_digest m)"
    unfolding mbedtls_ripemd160_finish_def Let_def p ml c1(1) c2(1) prod.case ripemd160_digest_def st [symmetric]
    by simp
  then show ?thesis ..
qed

lemma ripemd160_starts_repr:
  "\<exists>c. mbedtls_ripemd160_starts mbedtls_ripemd160_init = (0, c) \<and> md_repr 64 ripemd160_block ripemd160_iv [] c"
  by (simp add: mbedtls_ripemd160_starts_def mbedtls_ripemd160_init_def ripemd160_iv_def ripemd160.md_repr_start)

text \<open>Feeding a message in any chunks (each shorter than 4 GiB) gives the RIPEMD-160 of the whole.\<close>

lemma ripemd160_hash_chunks:
  assumes "\<forall>x\<in>set xs. length x < 2 ^ 32"
  shows "\<exists>c0 c1 c2. mbedtls_ripemd160_starts mbedtls_ripemd160_init = (0, c0)
     \<and> feed mbedtls_ripemd160_update c0 xs = (0, c1)
     \<and> mbedtls_ripemd160_finish c1 = (0, c2, ripemd160_digest (concat xs))"
proof -
  obtain c0 where c0: "mbedtls_ripemd160_starts mbedtls_ripemd160_init = (0, c0)" "md_repr 64 ripemd160_block ripemd160_iv [] c0"
    using ripemd160_starts_repr by blast
  obtain c1 where "feed mbedtls_ripemd160_update c0 xs = (0, c1)" "md_repr 64 ripemd160_block ripemd160_iv (concat xs) c1"
    using ripemd160.feed_repr [OF c0(2), of xs] assms by (auto simp: ripemd160_update_eq)
  with c0(1) ripemd160_finish_digest [of "concat xs" c1] show ?thesis by auto
qed

lemma mbedtls_ripemd160_digest:
  assumes "length m < 2 ^ 32"
  shows "mbedtls_ripemd160 m = (0, ripemd160_digest m)"
proof -
  obtain c0 c1 c2 where "mbedtls_ripemd160_starts mbedtls_ripemd160_init = (0, c0)"
    "feed mbedtls_ripemd160_update c0 [m] = (0, c1)" "mbedtls_ripemd160_finish c1 = (0, c2, ripemd160_digest (concat [m]))"
    using ripemd160_hash_chunks [of "[m]"] assms by auto
  then show ?thesis
    by (simp add: mbedtls_ripemd160_def del: feed.simps)
qed

section \<open>The block function is the compression function of the RIPEMD-160 paper\<close>

definition rmd_f :: "nat \<Rightarrow> u32 \<Rightarrow> u32 \<Rightarrow> u32 \<Rightarrow> u32" where
  "rmd_f j x y z =
     (if j < 16 then x XOR y XOR z
      else if j < 32 then (x AND y) OR (NOT x AND z)
      else if j < 48 then (x OR NOT y) XOR z
      else if j < 64 then (x AND z) OR (y AND NOT z)
      else x XOR (y OR NOT z))"

definition rmd_K :: "nat \<Rightarrow> u32" where
  "rmd_K j = (if j < 16 then 0 else if j < 32 then 0x5A827999 else if j < 48 then 0x6ED9EBA1
     else if j < 64 then 0x8F1BBCDC else 0xA953FD4E)"

definition rmd_K' :: "nat \<Rightarrow> u32" where
  "rmd_K' j = (if j < 16 then 0x50A28BE6 else if j < 32 then 0x5C4DD124 else if j < 48 then 0x6D703EF3
     else if j < 64 then 0x7A6D76E9 else 0)"

text \<open>The message permutations are generated by \<open>rho\<close> and \<open>pi(i) = 9 i + 5 mod 16\<close>.\<close>

definition rmd_rho :: "nat list" where
  "rmd_rho = [7, 4, 13, 1, 10, 6, 15, 3, 12, 0, 9, 5, 2, 14, 11, 8]"

definition rmd_r :: "nat \<Rightarrow> nat" where
  "rmd_r j = ((\<lambda>i. rmd_rho ! i) ^^ (j div 16)) (j mod 16)"

definition rmd_r' :: "nat \<Rightarrow> nat" where
  "rmd_r' j = ((\<lambda>i. rmd_rho ! i) ^^ (j div 16)) ((9 * (j mod 16) + 5) mod 16)"

text \<open>The rotation amounts of a round, by message word.\<close>

definition rmd_shift :: "nat list list" where
  "rmd_shift =
    [[11, 14, 15, 12, 5, 8, 7, 9, 11, 13, 14, 15, 6, 7, 9, 8],
     [12, 13, 11, 15, 6, 9, 9, 7, 12, 15, 11, 13, 7, 8, 7, 7],
     [13, 15, 14, 11, 7, 7, 6, 8, 13, 14, 13, 12, 5, 5, 6, 9],
     [14, 11, 12, 14, 8, 6, 5, 5, 15, 12, 15, 14, 9, 9, 8, 6],
     [15, 12, 13, 13, 9, 5, 8, 6, 14, 11, 12, 11, 8, 6, 5, 5]]"

definition rmd_s :: "nat \<Rightarrow> nat" where "rmd_s j = rmd_shift ! (j div 16) ! rmd_r j"
definition rmd_s' :: "nat \<Rightarrow> nat" where "rmd_s' j = rmd_shift ! (j div 16) ! rmd_r' j"

type_synonym rmd_line = "u32 \<times> u32 \<times> u32 \<times> u32 \<times> u32"

definition rmd_step :: "u32 \<Rightarrow> (u32 \<Rightarrow> u32 \<Rightarrow> u32 \<Rightarrow> u32) \<Rightarrow> u32 \<Rightarrow> nat \<Rightarrow> rmd_line \<Rightarrow> rmd_line" where
  "rmd_step x f k s = (\<lambda>(a, b, c, d, e).
     (e, word_rotl s (a + f b c d + x + k) + e, b, word_rotl 10 c, d))"

definition rmd_left :: "u32 list \<Rightarrow> nat \<Rightarrow> rmd_line \<Rightarrow> rmd_line" where
  "rmd_left X j = rmd_step (X ! rmd_r j) (rmd_f j) (rmd_K j) (rmd_s j)"

definition rmd_right :: "u32 list \<Rightarrow> nat \<Rightarrow> rmd_line \<Rightarrow> rmd_line" where
  "rmd_right X j = rmd_step (X ! rmd_r' j) (rmd_f (79 - j)) (rmd_K' j) (rmd_s' j)"

definition rmd_compress :: "u32 list \<Rightarrow> bytes \<Rightarrow> u32 list" where
  "rmd_compress h data =
     (let X = map (\<lambda>i. GET_UINT32_LE data (4 * i)) [0..<16];
          s = (h ! 0, h ! 1, h ! 2, h ! 3, h ! 4);
          (a, b, c, d, e) = fold (rmd_left X) [0..<80] s;
          (a', b', c', d', e') = fold (rmd_right X) [0..<80] s
      in [h ! 1 + c + d', h ! 2 + d + e', h ! 3 + e + a', h ! 4 + a + b', h ! 0 + b + c'])"

definition rmd_rel :: "nat \<Rightarrow> u32 list \<Rightarrow> rmd_line \<Rightarrow> bool" where
  "rmd_rel t v s \<longleftrightarrow> length v = 5 \<and>
     s = (v ! role5 0 t, v ! role5 1 t, v ! role5 2 t, v ! role5 3 t, v ! role5 4 t)"

lemma ripemd160_S_rotl: "n < 32 \<Longrightarrow> ripemd160_S x n = word_rotl n x"
  by (simp add: ripemd160_S_def rotl32)

lemma rmd_P_step:
  assumes v: "rmd_rel t v s" and n: "n < 32"
  shows "rmd_rel (Suc t) (ripemd160_P f k X v
           (role5 0 t, role5 1 t, role5 2 t, role5 3 t, role5 4 t, r, n)) (rmd_step (X ! r) f k n s)"
proof -
  obtain A B C D E where vv: "v = [A, B, C, D, E]"
    using v by (auto simp: rmd_rel_def length_Suc_conv numeral_eq_Suc)
  have rel: ?thesis if r: "t mod 5 = q" and "q \<in> {0, 1, 2, 3, 4}" for q
    using that(2) v n unfolding vv
    by (elim insertE emptyE; simp add: ripemd160_P_def rmd_rel_def rmd_step_def
        ripemd160_S_rotl role5_eq [OF r] Let_def add.assoc add.left_commute add.commute)
  have m5: "t mod 5 \<in> {0, 1, 2, 3, 4}"
    using mod_less_divisor [of 5 t] by (simp only: insert_iff) linarith
  show ?thesis by (rule rel [OF refl m5])
qed

definition rmd_row :: "nat \<Rightarrow> nat \<times> nat \<times> nat \<times> nat \<times> nat \<times> nat \<times> nat \<times> nat \<times> nat" where
  "rmd_row t = (role5 0 t, role5 1 t, role5 2 t, role5 3 t, role5 4 t, rmd_r t, rmd_s t, rmd_r' t, rmd_s' t)"

lemma rmd_tables:
  "ripemd160_round1 = map rmd_row [0..<16]" "ripemd160_round2 = map rmd_row [16..<32]"
  "ripemd160_round3 = map rmd_row [32..<48]" "ripemd160_round4 = map rmd_row [48..<64]"
  "ripemd160_round5 = map rmd_row [64..<80]"
  by code_simp+

lemma rmd_shifts: "j < 80 \<Longrightarrow> rmd_s j < 32 \<and> rmd_s' j < 32"
proof -
  have "list_all (\<lambda>j. rmd_s j < 32 \<and> rmd_s' j < 32) [0..<80]" by code_simp
  then show "j < 80 \<Longrightarrow> rmd_s j < 32 \<and> rmd_s' j < 32" by (simp add: list_all_iff)
qed

definition rmd_rel2 :: "nat \<Rightarrow> u32 list \<times> u32 list \<Rightarrow> rmd_line \<times> rmd_line \<Rightarrow> bool" where
  "rmd_rel2 t w s \<longleftrightarrow> rmd_rel t (fst w) (fst s) \<and> rmd_rel t (snd w) (snd s)"

definition rmd_both :: "u32 list \<Rightarrow> nat \<Rightarrow> rmd_line \<times> rmd_line \<Rightarrow> rmd_line \<times> rmd_line" where
  "rmd_both X j s = (rmd_left X j (fst s), rmd_right X j (snd s))"

lemma rmd_both_fold: "fold (rmd_both X) js s = (fold (rmd_left X) js (fst s), fold (rmd_right X) js (snd s))"
  by (induction js arbitrary: s) (auto simp: rmd_both_def)

lemma rmd_P2_step:
  assumes "rmd_rel2 t w s" and "t < 80"
  shows "rmd_rel2 (Suc t) (ripemd160_P2 (rmd_f t) (rmd_K t) (rmd_f (79 - t)) (rmd_K' t) X w (rmd_row t))
     (rmd_both X t s)"
  using assms rmd_shifts [of t] rmd_P_step [of t "fst w" "fst s"] rmd_P_step [of t "snd w" "snd s"]
  by (simp add: rmd_rel2_def ripemd160_P2_def rmd_row_def rmd_both_def rmd_left_def rmd_right_def
      split_beta del: One_nat_def)

lemma rmd_rounds:
  assumes "rmd_rel2 t w s" and "t + n \<le> 80"
    and "\<And>j. t \<le> j \<Longrightarrow> j < t + n \<Longrightarrow> F = rmd_f j \<and> K = rmd_K j \<and> Fp = rmd_f (79 - j) \<and> Kp = rmd_K' j"
  shows "rmd_rel2 (t + n) (foldl (ripemd160_P2 F K Fp Kp X) w (map rmd_row [t..<t + n]))
     (fold (rmd_both X) [t..<t + n] s)"
  using assms(2,3)
proof (induction n)
  case 0
  with assms(1) show ?case by simp
next
  case (Suc n)
  let ?w = "foldl (ripemd160_P2 F K Fp Kp X) w (map rmd_row [t..<t + n])"
  have IH: "rmd_rel2 (t + n) ?w (fold (rmd_both X) [t..<t + n] s)"
    using Suc by simp
  have j: "F = rmd_f (t + n)" "K = rmd_K (t + n)" "Fp = rmd_f (79 - (t + n))" "Kp = rmd_K' (t + n)"
    using Suc.prems(2) [of "t + n"] by auto
  have "rmd_rel2 (Suc (t + n)) (ripemd160_P2 F K Fp Kp X ?w (rmd_row (t + n)))
      (rmd_both X (t + n) (fold (rmd_both X) [t..<t + n] s))"
    using rmd_P2_step [OF IH, of X] Suc.prems(1) unfolding j by simp
  then show ?case by simp
qed

lemma rmd_f_round:
  "j < 16 \<Longrightarrow> rmd_f j = ripemd160_F1"
  "16 \<le> j \<Longrightarrow> j < 32 \<Longrightarrow> rmd_f j = ripemd160_F2"
  "32 \<le> j \<Longrightarrow> j < 48 \<Longrightarrow> rmd_f j = ripemd160_F3"
  "48 \<le> j \<Longrightarrow> j < 64 \<Longrightarrow> rmd_f j = ripemd160_F4"
  "64 \<le> j \<Longrightarrow> rmd_f j = ripemd160_F5"
  by (auto intro!: ext simp: rmd_f_def ripemd160_F1_def ripemd160_F2_def ripemd160_F3_def
      ripemd160_F4_def ripemd160_F5_def)

lemma ripemd160_block_spec: "ripemd160_block st data = rmd_compress st data"
proof -
  define X where "X = map (\<lambda>i. GET_UINT32_LE data (4 * i)) [0..<16]"
  define v where "v = [st ! 0, st ! 1, st ! 2, st ! 3, st ! 4]"
  define s where "s = (st ! 0, st ! 1, st ! 2, st ! 3, st ! 4)"
  define w1 where "w1 = foldl (ripemd160_P2 ripemd160_F1 0x00000000 ripemd160_F5 0x50A28BE6 X) (v, v) ripemd160_round1"
  define w2 where "w2 = foldl (ripemd160_P2 ripemd160_F2 0x5A827999 ripemd160_F4 0x5C4DD124 X) w1 ripemd160_round2"
  define w3 where "w3 = foldl (ripemd160_P2 ripemd160_F3 0x6ED9EBA1 ripemd160_F3 0x6D703EF3 X) w2 ripemd160_round3"
  define w4 where "w4 = foldl (ripemd160_P2 ripemd160_F4 0x8F1BBCDC ripemd160_F2 0x7A6D76E9 X) w3 ripemd160_round4"
  define w5 where "w5 = foldl (ripemd160_P2 ripemd160_F5 0xA953FD4E ripemd160_F1 0x00000000 X) w4 ripemd160_round5"
  have 0: "rmd_rel2 0 (v, v) (s, s)"
    by (simp add: rmd_rel2_def rmd_rel_def role5_def v_def s_def)
  have 1: "rmd_rel2 16 w1 (fold (rmd_both X) [0..<16] (s, s))"
    using rmd_rounds [OF 0, of 16 ripemd160_F1 "0x00000000" ripemd160_F5 "0x50A28BE6" X]
    unfolding w1_def rmd_tables by (simp add: rmd_f_round rmd_K_def rmd_K'_def del: upt_rec_numeral)
  have 2: "rmd_rel2 32 w2 (fold (rmd_both X) [16..<32] (fold (rmd_both X) [0..<16] (s, s)))"
    using rmd_rounds [OF 1, of 16 ripemd160_F2 "0x5A827999" ripemd160_F4 "0x5C4DD124" X]
    unfolding w2_def rmd_tables by (simp add: rmd_f_round rmd_K_def rmd_K'_def del: upt_rec_numeral)
  have 3: "rmd_rel2 48 w3 (fold (rmd_both X) [32..<48] (fold (rmd_both X) [16..<32] (fold (rmd_both X) [0..<16] (s, s))))"
    using rmd_rounds [OF 2, of 16 ripemd160_F3 "0x6ED9EBA1" ripemd160_F3 "0x6D703EF3" X]
    unfolding w3_def rmd_tables by (simp add: rmd_f_round rmd_K_def rmd_K'_def del: upt_rec_numeral)
  have 4: "rmd_rel2 64 w4 (fold (rmd_both X) [48..<64] (fold (rmd_both X) [32..<48]
      (fold (rmd_both X) [16..<32] (fold (rmd_both X) [0..<16] (s, s)))))"
    using rmd_rounds [OF 3, of 16 ripemd160_F4 "0x8F1BBCDC" ripemd160_F2 "0x7A6D76E9" X]
    unfolding w4_def rmd_tables by (simp add: rmd_f_round rmd_K_def rmd_K'_def del: upt_rec_numeral)
  have 5: "rmd_rel2 80 w5 (fold (rmd_both X) [64..<80] (fold (rmd_both X) [48..<64] (fold (rmd_both X) [32..<48]
      (fold (rmd_both X) [16..<32] (fold (rmd_both X) [0..<16] (s, s))))))"
    using rmd_rounds [OF 4, of 16 ripemd160_F5 "0xA953FD4E" ripemd160_F1 "0x00000000" X]
    unfolding w5_def rmd_tables by (simp add: rmd_f_round rmd_K_def rmd_K'_def del: upt_rec_numeral)
  have "[0..<80] = [0..<16] @ [16..<32] @ [32..<48] @ [48..<64] @ [64..<80]" by code_simp
  then have "rmd_rel2 80 w5 (fold (rmd_both X) [0..<80] (s, s))"
    using 5 by (simp del: upt_rec_numeral)
  then have f: "fold (rmd_left X) [0..<80] s = (fst w5 ! 0, fst w5 ! 1, fst w5 ! 2, fst w5 ! 3, fst w5 ! 4)"
    "fold (rmd_right X) [0..<80] s = (snd w5 ! 0, snd w5 ! 1, snd w5 ! 2, snd w5 ! 3, snd w5 ! 4)"
    by (simp_all add: rmd_both_fold rmd_rel2_def rmd_rel_def role5_def del: upt_rec_numeral)
  show ?thesis
    unfolding ripemd160_block_def rmd_compress_def Let_def X_def [symmetric] v_def [symmetric] s_def [symmetric]
      w1_def [symmetric] w2_def [symmetric] w3_def [symmetric] w4_def [symmetric] w5_def [symmetric] f
    by simp
qed

section \<open>Properties\<close>

text \<open>The hash of the standard: padding, then its compression function over the blocks.\<close>

definition rmd_compress_hash :: "bytes \<Rightarrow> bytes" where
  "rmd_compress_hash m = concat (map BYTES32_LE (absorb 64 rmd_compress ripemd160_iv (md_pad 64 8 le_bytes m)))"

lemma ripemd160_digest_spec: "ripemd160_digest m = rmd_compress_hash m"
  by (simp add: ripemd160_digest_def rmd_compress_hash_def ripemd160_block_spec [abs_def])

text \<open>C39. RIPEMD-160 as an incremental hash: whatever way a message is cut into chunks (empty ones
  included, each shorter than 4 GiB), starting a context, feeding the chunks and finishing gives
  return code 0 at every call and the RIPEMD-160 specification hash of the concatenation.\<close>

theorem ripemd160_chunks_correct:
  assumes "\<forall>x\<in>set xs. length x < 2 ^ 32"
  shows "\<exists>c0 c1 c2. mbedtls_ripemd160_starts mbedtls_ripemd160_init = (0, c0)
     \<and> feed mbedtls_ripemd160_update c0 xs = (0, c1)
     \<and> mbedtls_ripemd160_finish c1 = (0, c2, rmd_compress_hash (concat xs))"
  using ripemd160_hash_chunks [OF assms] by (simp only: ripemd160_digest_spec)

text \<open>The hash of \<open>abc\<close>, given as three chunks.\<close>

theorem ripemd160_chunks_correct_witness:
  "\<exists>c0 c1 c2. mbedtls_ripemd160_starts mbedtls_ripemd160_init = (0, c0)
     \<and> feed mbedtls_ripemd160_update c0 [[0x61], [], [0x62, 0x63]] = (0, c1)
     \<and> mbedtls_ripemd160_finish c1 = (0, c2, rmd_compress_hash [0x61, 0x62, 0x63])"
  using ripemd160_chunks_correct [of "[[0x61], [], [0x62, 0x63]]"] by (simp del: feed.simps)

end
