(* ===== verification/Sha2Core.thy ===== *)
theory Sha2Core
  imports HashStream
begin

text \<open>
  What \<open>sha256.c\<close> and \<open>sha512.c\<close> share. The specification is the SHA-2 compression function
  of FIPS 180-4, over any word width: \<open>sha2_W\<close> is the message schedule, \<open>sha2_step\<close> one
  step, \<open>sha2_compress\<close> the whole function. The locale \<open>sha2_rounds\<close> states what the
  macros \<open>P\<close> and \<open>R\<close> of the two files promise; inside it the unrolled loops, the loops of
  the \<open>_SMALLER\<close> variants and the expansion of \<open>W\<close> are proved to compute the specification.
\<close>

section \<open>FIPS 180-4\<close>

fun sha2_W :: "('w::len word \<Rightarrow> 'w word) \<Rightarrow> ('w word \<Rightarrow> 'w word) \<Rightarrow> 'w word list \<Rightarrow> nat \<Rightarrow> 'w word" where
  "sha2_W s0 s1 M t = (if t < 16 then M ! t
     else s1 (sha2_W s0 s1 M (t - 2)) + sha2_W s0 s1 M (t - 7)
        + s0 (sha2_W s0 s1 M (t - 15)) + sha2_W s0 s1 M (t - 16))"

declare sha2_W.simps [simp del]

type_synonym 'w sha2_regs = "'w \<times> 'w \<times> 'w \<times> 'w \<times> 'w \<times> 'w \<times> 'w \<times> 'w"

definition Ch :: "'w::len word \<Rightarrow> 'w word \<Rightarrow> 'w word \<Rightarrow> 'w word" where
  "Ch x y z = (x AND y) XOR (NOT x AND z)"

definition Maj :: "'w::len word \<Rightarrow> 'w word \<Rightarrow> 'w word \<Rightarrow> 'w word" where
  "Maj x y z = (x AND y) XOR (x AND z) XOR (y AND z)"

definition sha2_step ::
  "('w::len word \<Rightarrow> 'w word) \<Rightarrow> ('w word \<Rightarrow> 'w word) \<Rightarrow> 'w word \<Rightarrow> 'w word \<Rightarrow>
   'w word sha2_regs \<Rightarrow> 'w word sha2_regs" where
  "sha2_step S0 S1 k w = (\<lambda>(a, b, c, d, e, f, g, h).
     let T1 = h + S1 e + Ch e f g + k + w;
         T2 = S0 a + Maj a b c
     in (T1 + T2, a, b, c, d + T1, e, f, g))"

definition sha2_run ::
  "('w::len word \<Rightarrow> 'w word) \<Rightarrow> ('w word \<Rightarrow> 'w word) \<Rightarrow> (nat \<Rightarrow> 'w word) \<Rightarrow> (nat \<Rightarrow> 'w word) \<Rightarrow>
   nat list \<Rightarrow> 'w word sha2_regs \<Rightarrow> 'w word sha2_regs" where
  "sha2_run S0 S1 k w = fold (\<lambda>t. sha2_step S0 S1 (k t) (w t))"

definition sha2_compress ::
  "nat \<Rightarrow> ('w::len word \<Rightarrow> 'w word) \<Rightarrow> ('w word \<Rightarrow> 'w word) \<Rightarrow> ('w word \<Rightarrow> 'w word) \<Rightarrow>
   ('w word \<Rightarrow> 'w word) \<Rightarrow> 'w word list \<Rightarrow> 'w word list \<Rightarrow> 'w word list \<Rightarrow> 'w word list" where
  "sha2_compress N s0 s1 S0 S1 K H M =
     (let (a, b, c, d, e, f, g, h) =
            sha2_run S0 S1 (\<lambda>t. K ! t) (sha2_W s0 s1 M) [0..<N]
              (H ! 0, H ! 1, H ! 2, H ! 3, H ! 4, H ! 5, H ! 6, H ! 7)
      in [a + H ! 0, b + H ! 1, c + H ! 2, d + H ! 3, e + H ! 4, f + H ! 5, g + H ! 6, h + H ! 7])"

lemma sha2_run_append: "sha2_run S0 S1 k w (xs @ ys) s = sha2_run S0 S1 k w ys (sha2_run S0 S1 k w xs s)"
  by (simp add: sha2_run_def)

lemma sha2_run_Nil [simp]: "sha2_run S0 S1 k w [] s = s"
  by (simp add: sha2_run_def)

lemma sha2_run_snoc: "sha2_run S0 S1 k w (xs @ [t]) s = sha2_step S0 S1 (k t) (w t) (sha2_run S0 S1 k w xs s)"
  by (simp add: sha2_run_def)

lemma ch_eq: "z XOR (x AND (y XOR z)) = Ch x y (z :: 'w::len word)"
  by (rule bit_word_eqI) (auto simp: Ch_def bit_simps)

lemma maj_eq: "(x AND y) OR (z AND (x OR y)) = Maj x y (z :: 'w::len word)"
  by (rule bit_word_eqI) (auto simp: Maj_def bit_simps)

section \<open>Rotating roles\<close>

text \<open>At step \<open>t\<close> the register with role \<open>j\<close> is \<open>local.A[role8 j t]\<close>.\<close>

definition role8 :: "nat \<Rightarrow> nat \<Rightarrow> nat" where
  "role8 j t = (j + 7 * t) mod 8"

lemma role8_eq:
  assumes "t mod 8 = r"
  shows "role8 j t = (j + 7 * r) mod 8" and "role8 j (Suc t) = (j + 7 * (Suc r mod 8)) mod 8"
proof -
  have m: "role8 j t = (j + 7 * (t mod 8)) mod 8" for t
    unfolding role8_def by (metis mod_add_right_eq mod_mult_right_eq)
  show "role8 j t = (j + 7 * r) mod 8" and "role8 j (Suc t) = (j + 7 * (Suc r mod 8)) mod 8"
    using m [of t] m [of "Suc t"] assms by (auto simp: mod_Suc_eq)
qed

definition row8 :: "nat \<Rightarrow> nat sha2_regs" where
  "row8 t = (role8 0 t, role8 1 t, role8 2 t, role8 3 t, role8 4 t, role8 5 t, role8 6 t, role8 7 t)"

definition regs8 :: "'a list \<Rightarrow> 'a sha2_regs" where
  "regs8 A = (A ! 0, A ! 1, A ! 2, A ! 3, A ! 4, A ! 5, A ! 6, A ! 7)"

definition rel8 :: "nat \<Rightarrow> 'a list \<Rightarrow> 'a sha2_regs \<Rightarrow> bool" where
  "rel8 t A s \<longleftrightarrow> length A = 8 \<and>
     s = (A ! role8 0 t, A ! role8 1 t, A ! role8 2 t, A ! role8 3 t,
          A ! role8 4 t, A ! role8 5 t, A ! role8 6 t, A ! role8 7 t)"

lemma rel8_0:
  assumes "t mod 8 = 0"
  shows "rel8 t A s \<longleftrightarrow> length A = 8 \<and> s = regs8 A"
  by (simp add: rel8_def regs8_def role8_eq(1) [OF assms])

lemma row8_mod: "row8 (t + k) = row8 k" if "t mod 8 = 0"
proof -
  have "(t + k) mod 8 = k mod 8" using that by (simp add: mod_add_left_eq [symmetric])
  then have "role8 j (t + k) = role8 j k" for j
    using role8_eq(1) [of "t + k"] role8_eq(1) [of k] by metis
  then show ?thesis by (simp add: row8_def)
qed

lemma length8:
  assumes "length A = 8"
  obtains a b c d e f g h where "A = [a, b, c, d, e, f, g, h]"
  using assms by (auto simp: length_Suc_conv numeral_eq_Suc)

lemma prod_cases8:
  obtains a b c d e f g h where "r = (a, b, c, d, e, f, g, h)"
  by (metis prod.collapse)

section \<open>The round macros\<close>

locale sha2_rounds =
  fixes s0 s1 S0 S1 :: "'w::len word \<Rightarrow> 'w word"
    and P :: "'w word list \<Rightarrow> nat sha2_regs \<Rightarrow> 'w word \<Rightarrow> 'w word \<Rightarrow> 'w word list"
    and R :: "'w word list \<Rightarrow> nat \<Rightarrow> 'w word list"
  assumes P_eq: "P A (a, b, c, d, e, f, g, h) x k =
      (let temp1 = A ! h + S1 (A ! e) + Ch (A ! e) (A ! f) (A ! g) + k + x;
           temp2 = S0 (A ! a) + Maj (A ! a) (A ! b) (A ! c);
           A = A[d := A ! d + temp1]
       in A[h := temp1 + temp2])"
    and R_eq: "16 \<le> t \<Longrightarrow> R W t =
      W[t := s1 (W ! (t - 2)) + W ! (t - 7) + s0 (W ! (t - 15)) + W ! (t - 16)]"
begin

text \<open>One macro call is one step, with the roles shifted by one.\<close>

lemma P_step:
  assumes v: "rel8 t A s"
  shows "rel8 (Suc t) (P A (row8 t) x k) (sha2_step S0 S1 k x s)"
proof -
  obtain a b c d e f g h where A: "A = [a, b, c, d, e, f, g, h]"
    using v length8 unfolding rel8_def by metis
  have rel: ?thesis if r: "t mod 8 = q" and "q \<in> {0, 1, 2, 3, 4, 5, 6, 7}" for q
    using that(2) v unfolding A row8_def P_eq
    by (elim insertE emptyE; simp add: rel8_def sha2_step_def role8_eq [OF r] Let_def)
  have "t mod 8 \<in> {0, 1, 2, 3, 4, 5, 6, 7}"
    using mod_less_divisor [of 8 t] by (simp only: insert_iff) linarith
  then show ?thesis by (rule rel [OF refl])
qed

text \<open>The \<open>_SMALLER\<close> variants rotate the registers instead.\<close>

lemma P_rotate:
  fixes x k :: "'w word"
  assumes "length A = 8"
  defines "B \<equiv> P A (0, 1, 2, 3, 4, 5, 6, 7) x k"
  shows "regs8 [B ! 7, B ! 0, B ! 1, B ! 2, B ! 3, B ! 4, B ! 5, B ! 6]
     = sha2_step S0 S1 k x (regs8 A)"
  using assms(1) unfolding B_def P_eq
  by (elim length8) (simp add: regs8_def sha2_step_def Let_def)

lemma length_P [simp]: "length (P A r x k) = length A"
  by (cases r rule: prod_cases8) (simp add: P_eq Let_def)

definition sched :: "'w word list \<Rightarrow> nat \<Rightarrow> nat \<Rightarrow> 'w word list \<Rightarrow> bool" where
  "sched M N t W \<longleftrightarrow> length W = N \<and> (\<forall>u<t. W ! u = sha2_W s0 s1 M u)"

lemma sched_R:
  assumes "sched M N t W" and "16 \<le> t" and "t < N"
  shows "sched M N (Suc t) (R W t)" and "R W t ! t = sha2_W s0 s1 M t"
proof -
  have W: "W ! u = sha2_W s0 s1 M u" if "u < t" for u
    using assms that by (auto simp: sched_def)
  have "R W t = W[t := sha2_W s0 s1 M t]"
    using assms(2) by (simp add: R_eq W sha2_W.simps [of s0 s1 M t])
  then show "sched M N (Suc t) (R W t)" and "R W t ! t = sha2_W s0 s1 M t"
    using assms by (auto simp: sched_def nth_list_update)
qed

lemma sched_fold_R:
  assumes "sched M N 16 W" and "16 + n \<le> N"
  shows "sched M N (16 + n) (fold (\<lambda>t W. R W t) [16..<16 + n] W)"
  using assms(2)
proof (induction n)
  case (Suc n)
  then have "sched M N (16 + n) (fold (\<lambda>t W. R W t) [16..<16 + n] W)" by simp
  from sched_R(1) [OF this] Suc.prems
  have "sched M N (Suc (16 + n)) (R (fold (\<lambda>t W. R W t) [16..<16 + n] W) (16 + n))" by simp
  moreover have "[16..<16 + Suc n] = [16..<16 + n] @ [16 + n]"
    unfolding add_Suc_right by (rule upt_Suc_append) simp
  ultimately show ?case by (simp only: fold_append fold_simps add_Suc_right comp_apply)
qed (use assms(1) in simp)

lemma sched_load:
  assumes "length W = N" and "n \<le> 16" and "16 \<le> N" and "length M = 16"
  shows "sched M N n (fold (\<lambda>i W. W[i := M ! i]) [0..<n] W)"
  using assms by (induction n) (auto simp: sched_def nth_list_update less_Suc_eq sha2_W.simps)

text \<open>Eight macro calls with the operands already in \<open>W\<close>.\<close>

lemma group_steps:
  assumes v: "rel8 t A s" and t: "t mod 8 = 0" and n: "n \<le> 8"
  shows "rel8 (t + n) (foldl (\<lambda>A k. P A (row8 k) (x (t + k)) (K (t + k))) A [0..<n])
     (sha2_run S0 S1 K x [t..<t + n] s)"
  using n
proof (induction n)
  case 0
  with v show ?case by simp
next
  case (Suc n)
  then have "rel8 (t + n) (foldl (\<lambda>A k. P A (row8 k) (x (t + k)) (K (t + k))) A [0..<n])
      (sha2_run S0 S1 K x [t..<t + n] s)" by simp
  from P_step [OF this] row8_mod [OF t, of n] show ?case
    by (simp add: sha2_run_snoc)
qed

text \<open>Eight macro calls with the operands \<open>R(i + k)\<close>.\<close>

lemma group_R_steps:
  fixes K :: "nat \<Rightarrow> 'w word"
  assumes v: "rel8 t A s" and W: "sched M N t W" and t: "t mod 8 = 0" "16 \<le> t" "t + 8 \<le> N" and n: "n \<le> 8"
  defines "q \<equiv> (\<lambda>n. foldl (\<lambda>(A, W) k. let W = R W (t + k) in (P A (row8 k) (W ! (t + k)) (K (t + k)), W))
                  (A, W) [0..<n])"
  shows "rel8 (t + n) (fst (q n)) (sha2_run S0 S1 K (sha2_W s0 s1 M) [t..<t + n] s)
     \<and> sched M N (t + n) (snd (q n))"
  using n
proof (induction n)
  case 0
  with v W show ?case by (simp add: q_def)
next
  case (Suc n)
  obtain A' W' where q: "q n = (A', W')" by fastforce
  with Suc have IH: "rel8 (t + n) A' (sha2_run S0 S1 K (sha2_W s0 s1 M) [t..<t + n] s)"
    "sched M N (t + n) W'" by simp_all
  have R: "sched M N (Suc (t + n)) (R W' (t + n))" "R W' (t + n) ! (t + n) = sha2_W s0 s1 M (t + n)"
    using sched_R [OF IH(2)] t Suc.prems by simp_all
  have "q (Suc n) = (P A' (row8 n) (sha2_W s0 s1 M (t + n)) (K (t + n)), R W' (t + n))"
    using q R(2) by (simp add: q_def Let_def)
  with P_step [OF IH(1)] row8_mod [OF t(1), of n] R(1) show ?case
    by (simp add: sha2_run_snoc)
qed

end

end
