(* ===== verification/Sha256.thy ===== *)
theory Sha256
  imports Sha2Core
begin

text \<open>
  \<open>libs/mbedtls/library/sha256.c\<close>: SHA-256 and SHA-224. The array \<open>local.A\<close> is a list of eight words, a
  call \<open>P(A[a],...,A[h],x,K)\<close> carries the eight positions, \<open>local.W\<close> is a list of 64 words.
  The portable C code is modelled (the Arm assembly variants are not); both the unrolled block
  function and the one of \<open>MBEDTLS_SHA256_SMALLER\<close> are, and both are shown to be the FIPS 180-4
  compression function.
\<close>

record sha256_context = "u32 md_context" +
  is224 :: int

definition mbedtls_sha256_init :: sha256_context where
  "mbedtls_sha256_init = \<lparr>total0 = 0, total1 = 0, state = replicate 8 0, buffer = replicate 64 0, is224 = 0\<rparr>"

definition mbedtls_sha256_free :: "sha256_context option \<Rightarrow> sha256_context option" where
  "mbedtls_sha256_free ctx = (case ctx of None \<Rightarrow> None
     | Some c \<Rightarrow> Some \<lparr>total0 = 0, total1 = 0, state = replicate 8 0, buffer = replicate 64 0, is224 = 0\<rparr>)"

definition mbedtls_sha256_clone :: "sha256_context \<Rightarrow> sha256_context \<Rightarrow> sha256_context" where
  "mbedtls_sha256_clone dst src = src"

definition mbedtls_sha256_starts :: "sha256_context \<Rightarrow> int \<Rightarrow> sha256_context cret" where
  "mbedtls_sha256_starts ctx flag =
     (let ctx = ctx\<lparr>total0 := 0\<rparr>;
          ctx = ctx\<lparr>total1 := 0\<rparr>;
          ctx = (if flag = 0 then
                   ctx\<lparr>state :=
                     [0x6A09E667, 0xBB67AE85, 0x3C6EF372, 0xA54FF53A,
                      0x510E527F, 0x9B05688C, 0x1F83D9AB, 0x5BE0CD19]\<rparr>
                 else
                   ctx\<lparr>state :=
                     [0xC1059ED8, 0x367CD507, 0x3070DD17, 0xF70E5939,
                      0xFFC00B31, 0x68581511, 0x64F98FA7, 0xBEFA4FA4]\<rparr>);
          ctx = ctx\<lparr>is224 := flag\<rparr>
      in (0, ctx))"

definition sha256_K :: "u32 list" where
  "sha256_K =
   [0x428A2F98, 0x71374491, 0xB5C0FBCF, 0xE9B5DBA5,
    0x3956C25B, 0x59F111F1, 0x923F82A4, 0xAB1C5ED5,
    0xD807AA98, 0x12835B01, 0x243185BE, 0x550C7DC3,
    0x72BE5D74, 0x80DEB1FE, 0x9BDC06A7, 0xC19BF174,
    0xE49B69C1, 0xEFBE4786, 0x0FC19DC6, 0x240CA1CC,
    0x2DE92C6F, 0x4A7484AA, 0x5CB0A9DC, 0x76F988DA,
    0x983E5152, 0xA831C66D, 0xB00327C8, 0xBF597FC7,
    0xC6E00BF3, 0xD5A79147, 0x06CA6351, 0x14292967,
    0x27B70A85, 0x2E1B2138, 0x4D2C6DFC, 0x53380D13,
    0x650A7354, 0x766A0ABB, 0x81C2C92E, 0x92722C85,
    0xA2BFE8A1, 0xA81A664B, 0xC24B8B70, 0xC76C51A3,
    0xD192E819, 0xD6990624, 0xF40E3585, 0x106AA070,
    0x19A4C116, 0x1E376C08, 0x2748774C, 0x34B0BCB5,
    0x391C0CB3, 0x4ED8AA4A, 0x5B9CCA4F, 0x682E6FF3,
    0x748F82EE, 0x78A5636F, 0x84C87814, 0x8CC70208,
    0x90BEFFFA, 0xA4506CEB, 0xBEF9A3F7, 0xC67178F2]"

definition sha256_SHR :: "u32 \<Rightarrow> nat \<Rightarrow> u32" where
  "sha256_SHR x n = drop_bit n (x AND 0xFFFFFFFF)"
definition sha256_ROTR :: "u32 \<Rightarrow> nat \<Rightarrow> u32" where
  "sha256_ROTR x n = sha256_SHR x n OR push_bit (32 - n) x"

definition sha256_S0 :: "u32 \<Rightarrow> u32" where
  "sha256_S0 x = sha256_ROTR x 7 XOR sha256_ROTR x 18 XOR sha256_SHR x 3"
definition sha256_S1 :: "u32 \<Rightarrow> u32" where
  "sha256_S1 x = sha256_ROTR x 17 XOR sha256_ROTR x 19 XOR sha256_SHR x 10"
definition sha256_S2 :: "u32 \<Rightarrow> u32" where
  "sha256_S2 x = sha256_ROTR x 2 XOR sha256_ROTR x 13 XOR sha256_ROTR x 22"
definition sha256_S3 :: "u32 \<Rightarrow> u32" where
  "sha256_S3 x = sha256_ROTR x 6 XOR sha256_ROTR x 11 XOR sha256_ROTR x 25"
definition sha256_F0 :: "u32 \<Rightarrow> u32 \<Rightarrow> u32 \<Rightarrow> u32" where
  "sha256_F0 x y z = (x AND y) OR (z AND (x OR y))"
definition sha256_F1 :: "u32 \<Rightarrow> u32 \<Rightarrow> u32 \<Rightarrow> u32" where
  "sha256_F1 x y z = z XOR (x AND (y XOR z))"

definition sha256_R :: "u32 list \<Rightarrow> nat \<Rightarrow> u32 list" where
  "sha256_R W t = W[t := sha256_S1 (W ! (t - 2)) + W ! (t - 7) + sha256_S0 (W ! (t - 15)) + W ! (t - 16)]"

definition sha256_P :: "u32 list \<Rightarrow> nat sha2_regs \<Rightarrow> u32 \<Rightarrow> u32 \<Rightarrow> u32 list" where
  "sha256_P A = (\<lambda>(a, b, c, d, e, f, g, h) x k.
     let temp1 = A ! h + sha256_S3 (A ! e) + sha256_F1 (A ! e) (A ! f) (A ! g) + k + x;
         temp2 = sha256_S2 (A ! a) + sha256_F0 (A ! a) (A ! b) (A ! c);
         A = A[d := A ! d + temp1]
     in A[h := temp1 + temp2])"

text \<open>The registers of the eight calls of \<open>P\<close> of an unrolled loop body.\<close>

definition sha256_rows :: "nat sha2_regs list" where
  "sha256_rows =
   [(0, 1, 2, 3, 4, 5, 6, 7), (7, 0, 1, 2, 3, 4, 5, 6), (6, 7, 0, 1, 2, 3, 4, 5), (5, 6, 7, 0, 1, 2, 3, 4),
    (4, 5, 6, 7, 0, 1, 2, 3), (3, 4, 5, 6, 7, 0, 1, 2), (2, 3, 4, 5, 6, 7, 0, 1), (1, 2, 3, 4, 5, 6, 7, 0)]"

definition sha256_loop_W :: "u32 list \<Rightarrow> u32 list \<Rightarrow> nat \<Rightarrow> u32 list" where
  "sha256_loop_W W A i =
     foldl (\<lambda>A k. sha256_P A (sha256_rows ! k) (W ! (i + k)) (sha256_K ! (i + k))) A [0..<8]"

definition sha256_loop_R :: "u32 list \<times> u32 list \<Rightarrow> nat \<Rightarrow> u32 list \<times> u32 list" where
  "sha256_loop_R AW i =
     foldl (\<lambda>(A, W) k. let W = sha256_R W (i + k)
                        in (sha256_P A (sha256_rows ! k) (W ! (i + k)) (sha256_K ! (i + k)), W)) AW [0..<8]"

definition sha256_block :: "u32 list \<Rightarrow> bytes \<Rightarrow> u32 list" where
  "sha256_block st data =
     (let A = [st ! 0, st ! 1, st ! 2, st ! 3, st ! 4, st ! 5, st ! 6, st ! 7];
          W = fold (\<lambda>i W. W[i := GET_UINT32_BE data (4 * i)]) [0..<16] (replicate 64 0);
          A = foldl (sha256_loop_W W) A [0, 8];
          A = fst (foldl sha256_loop_R (A, W) [16, 24, 32, 40, 48, 56])
      in map (\<lambda>i. st ! i + A ! i) [0..<8])"

text \<open>The body of the loop of \<open>MBEDTLS_SHA256_SMALLER\<close>: one call of \<open>P\<close>, then the registers move.\<close>

definition sha256_smaller_step :: "bytes \<Rightarrow> nat \<Rightarrow> u32 list \<times> u32 list \<Rightarrow> u32 list \<times> u32 list" where
  "sha256_smaller_step data i = (\<lambda>(A, W).
     let W = (if i < 16 then W[i := GET_UINT32_BE data (4 * i)] else sha256_R W i);
         A = sha256_P A (0, 1, 2, 3, 4, 5, 6, 7) (W ! i) (sha256_K ! i)
     in ([A ! 7, A ! 0, A ! 1, A ! 2, A ! 3, A ! 4, A ! 5, A ! 6], W))"

definition sha256_block_smaller :: "u32 list \<Rightarrow> bytes \<Rightarrow> u32 list" where
  "sha256_block_smaller st data =
     (let A = [st ! 0, st ! 1, st ! 2, st ! 3, st ! 4, st ! 5, st ! 6, st ! 7];
          A = fst (fold (sha256_smaller_step data) [0..<64] (A, replicate 64 0))
      in map (\<lambda>i. st ! i + A ! i) [0..<8])"

definition mbedtls_internal_sha256_process_c :: "sha256_context \<Rightarrow> bytes \<Rightarrow> sha256_context cret" where
  "mbedtls_internal_sha256_process_c ctx data = (0, ctx\<lparr>state := sha256_block (state ctx) data\<rparr>)"

definition mbedtls_internal_sha256_process_many_c :: "sha256_context \<Rightarrow> bytes \<Rightarrow> nat \<times> sha256_context" where
  "mbedtls_internal_sha256_process_many_c ctx data = md_many 64 mbedtls_internal_sha256_process_c ctx data 0"

definition sha256_update_rest :: "sha256_context \<Rightarrow> bytes \<Rightarrow> nat \<Rightarrow> sha256_context cret" where
  "sha256_update_rest ctx input left =
     (let (ret, ctx, input) = md_many_loop 64 MBEDTLS_ERR_ERROR_GENERIC_ERROR
        mbedtls_internal_sha256_process_many_c ctx input in
      if ret \<noteq> 0 then (ret, ctx)
      else if length input > 0 then (0, ctx\<lparr>buffer := memcpy_at (buffer ctx) left input\<rparr>)
      else (0, ctx))"

definition mbedtls_sha256_update :: "sha256_context \<Rightarrow> bytes \<Rightarrow> sha256_context cret" where
  "mbedtls_sha256_update ctx input =
     (let ilen = length input in
      if ilen = 0 then (0, ctx)
      else
        let left = unat (total0 ctx AND 0x3F);
            fill = 64 - left;
            ctx = ctx\<lparr>total0 := total0 ctx + of_nat ilen\<rparr>;
            ctx = ctx\<lparr>total0 := total0 ctx AND 0xFFFFFFFF\<rparr>;
            ctx = (if total0 ctx < of_nat ilen then ctx\<lparr>total1 := total1 ctx + 1\<rparr> else ctx)
        in if left \<noteq> 0 \<and> ilen \<ge> fill then
             let ctx = ctx\<lparr>buffer := memcpy_at (buffer ctx) left (take fill input)\<rparr>;
                 (ret, ctx) = mbedtls_internal_sha256_process_c ctx (buffer ctx)
             in if ret \<noteq> 0 then (ret, ctx) else sha256_update_rest ctx (drop fill input) 0
           else sha256_update_rest ctx input left)"

text \<open>The length field, the last block and the output of \<open>mbedtls_sha256_finish\<close>.\<close>

definition sha256_finish_tail :: "sha256_context \<Rightarrow> int \<times> sha256_context \<times> bytes" where
  "sha256_finish_tail ctx =
     (let high = drop_bit 29 (total0 ctx) OR push_bit 3 (total1 ctx);
          low = push_bit 3 (total0 ctx);
          ctx = ctx\<lparr>buffer := PUT_UINT32_BE high (buffer ctx) 56\<rparr>;
          ctx = ctx\<lparr>buffer := PUT_UINT32_BE low (buffer ctx) 60\<rparr>;
          (ret, ctx) = mbedtls_internal_sha256_process_c ctx (buffer ctx)
      in if ret \<noteq> 0 then (ret, ctx, [])
         else (0, ctx, BYTES32_BE (state ctx ! 0) @ BYTES32_BE (state ctx ! 1)
             @ BYTES32_BE (state ctx ! 2) @ BYTES32_BE (state ctx ! 3)
             @ BYTES32_BE (state ctx ! 4) @ BYTES32_BE (state ctx ! 5)
             @ BYTES32_BE (state ctx ! 6)
             @ (if is224 ctx = 0 then BYTES32_BE (state ctx ! 7) else [])))"

definition mbedtls_sha256_finish :: "sha256_context \<Rightarrow> int \<times> sha256_context \<times> bytes" where
  "mbedtls_sha256_finish ctx =
     (let used = unat (total0 ctx AND 0x3F);
          ctx = ctx\<lparr>buffer := (buffer ctx)[used := 0x80]\<rparr>;
          used = used + 1
      in if used \<le> 56 then
           sha256_finish_tail (ctx\<lparr>buffer := memset_at (buffer ctx) used 0 (56 - used)\<rparr>)
         else
           let ctx = ctx\<lparr>buffer := memset_at (buffer ctx) used 0 (64 - used)\<rparr>;
               (ret, ctx) = mbedtls_internal_sha256_process_c ctx (buffer ctx)
           in if ret \<noteq> 0 then (ret, ctx, [])
              else sha256_finish_tail (ctx\<lparr>buffer := memset_at (buffer ctx) 0 0 56\<rparr>))"

definition mbedtls_sha256 :: "bytes \<Rightarrow> int \<Rightarrow> int \<times> bytes" where
  "mbedtls_sha256 input flag =
     (let ctx = mbedtls_sha256_init;
          (ret, ctx) = mbedtls_sha256_starts ctx flag
      in if ret \<noteq> 0 then (ret, []) else
      let (ret, ctx) = mbedtls_sha256_update ctx input
      in if ret \<noteq> 0 then (ret, []) else
      let (ret, ctx, output) = mbedtls_sha256_finish ctx
      in (ret, output))"

section \<open>The block function is the FIPS 180-4 compression function\<close>

lemma sha256_ROTR_rotr: "n < 32 \<Longrightarrow> sha256_ROTR x n = word_rotr n x"
  by (simp add: sha256_ROTR_def sha256_SHR_def mask_simps rotr32)

interpretation sha256_rounds: sha2_rounds sha256_S0 sha256_S1 sha256_S2 sha256_S3 sha256_P sha256_R
  by unfold_locales (simp_all add: sha256_P_def sha256_R_def sha256_F0_def sha256_F1_def ch_eq maj_eq)

text \<open>The functions of section 4.1 of the standard.\<close>

definition sigma0_32 :: "u32 \<Rightarrow> u32" where
  "sigma0_32 x = word_rotr 7 x XOR word_rotr 18 x XOR drop_bit 3 x"
definition sigma1_32 :: "u32 \<Rightarrow> u32" where
  "sigma1_32 x = word_rotr 17 x XOR word_rotr 19 x XOR drop_bit 10 x"
definition Sigma0_32 :: "u32 \<Rightarrow> u32" where
  "Sigma0_32 x = word_rotr 2 x XOR word_rotr 13 x XOR word_rotr 22 x"
definition Sigma1_32 :: "u32 \<Rightarrow> u32" where
  "Sigma1_32 x = word_rotr 6 x XOR word_rotr 11 x XOR word_rotr 25 x"

lemma sha256_sigmas: "sha256_S0 = sigma0_32" "sha256_S1 = sigma1_32" "sha256_S2 = Sigma0_32" "sha256_S3 = Sigma1_32"
  by (auto intro!: ext simp: sha256_S0_def sha256_S1_def sha256_S2_def sha256_S3_def sigma0_32_def sigma1_32_def
      Sigma0_32_def Sigma1_32_def sha256_ROTR_rotr, simp_all add: sha256_SHR_def mask_simps)

definition fips_sha256 :: "u32 list \<Rightarrow> bytes \<Rightarrow> u32 list" where
  "fips_sha256 H data = sha2_compress 64 sigma0_32 sigma1_32 Sigma0_32 Sigma1_32 sha256_K H
     (map (\<lambda>i. GET_UINT32_BE data (4 * i)) [0..<16])"

lemma sha256_rows_row8: "k < 8 \<Longrightarrow> sha256_rows ! k = row8 k"
proof -
  have r: "sha256_rows = map row8 [0..<8]" by code_simp
  show "k < 8 \<Longrightarrow> sha256_rows ! k = row8 k"
    unfolding r by (simp del: upt_rec_numeral)
qed

lemma sha256_fold_rows: "foldl (\<lambda>a k. f a (sha256_rows ! k) k) x [0..<8] = foldl (\<lambda>a k. f a (row8 k) k) x [0..<8]"
  by (rule foldl_cong) (simp_all add: sha256_rows_row8)

abbreviation sha256_sW :: "u32 list \<Rightarrow> nat \<Rightarrow> u32" where
  "sha256_sW \<equiv> sha2_W sha256_S0 sha256_S1"

abbreviation sha256_run :: "(nat \<Rightarrow> u32) \<Rightarrow> nat list \<Rightarrow> u32 sha2_regs \<Rightarrow> u32 sha2_regs" where
  "sha256_run \<equiv> sha2_run sha256_S2 sha256_S3 (\<lambda>t. sha256_K ! t)"

lemma sha256_run_cong: "(\<And>t. t \<in> set ts \<Longrightarrow> w t = w' t) \<Longrightarrow> sha256_run w ts s = sha256_run w' ts s"
  unfolding sha2_run_def by (rule fold_cong) auto

lemma sha256_loop_W_run:
  assumes "rel8 t A s" and "t mod 8 = 0" and "sha256_rounds.sched M 64 n W" and "t + 8 \<le> n"
  shows "rel8 (t + 8) (sha256_loop_W W A t) (sha256_run (sha256_sW M) [t..<t + 8] s)"
proof -
  have "sha256_run (\<lambda>i. W ! i) [t..<t + 8] s = sha256_run (sha256_sW M) [t..<t + 8] s"
    by (rule sha256_run_cong) (use assms in \<open>auto simp: sha256_rounds.sched_def\<close>)
  then show ?thesis
    using sha256_rounds.group_steps [OF assms(1,2), of 8 "\<lambda>i. W ! i" "\<lambda>i. sha256_K ! i"]
    by (simp add: sha256_loop_W_def sha256_fold_rows [of "\<lambda>a r k. sha256_P a r (W ! (t + k)) (sha256_K ! (t + k))"]
        del: upt_rec_numeral)
qed

lemma sha256_loops_W_run:
  assumes "rel8 0 A s" and "sha256_rounds.sched M 64 n W" and "8 * m \<le> n"
  shows "rel8 (8 * m) (foldl (sha256_loop_W W) A (map (\<lambda>i. 8 * i) [0..<m])) (sha256_run (sha256_sW M) [0..<8 * m] s)"
  using assms(3)
proof (induction m)
  case (Suc m)
  then have "rel8 (8 * m) (foldl (sha256_loop_W W) A (map (\<lambda>i. 8 * i) [0..<m])) (sha256_run (sha256_sW M) [0..<8 * m] s)"
    by simp
  from sha256_loop_W_run [OF this _ assms(2)] Suc.prems
  have "rel8 (8 * m + 8) (sha256_loop_W W (foldl (sha256_loop_W W) A (map (\<lambda>i. 8 * i) [0..<m])) (8 * m))
      (sha256_run (sha256_sW M) [8 * m..<8 * m + 8] (sha256_run (sha256_sW M) [0..<8 * m] s))" by simp
  moreover have "[0..<8 * Suc m] = [0..<8 * m] @ [8 * m..<8 * m + 8]"
    using upt_add_eq_append [of 0 "8 * m" 8] by (simp add: add.commute)
  ultimately show ?case
    by (simp only: sha2_run_append) (simp add: add.commute)
qed (use assms(1) in simp)

lemma sha256_out: "length (A :: u32 list) = 8 \<Longrightarrow>
   map (\<lambda>i. st ! i + A ! i) [0..<8] =
   [A ! 0 + st ! 0, A ! 1 + st ! 1, A ! 2 + st ! 2, A ! 3 + st ! 3,
    A ! 4 + st ! 4, A ! 5 + st ! 5, A ! 6 + st ! 6, A ! 7 + st ! 7]"
  by (simp add: upt_rec numeral_eq_Suc add.commute)

lemma sha256_compress_regs:
  assumes "sha256_run (sha256_sW (map (\<lambda>i. GET_UINT32_BE data (4 * i)) [0..<16])) [0..<64]
      (st ! 0, st ! 1, st ! 2, st ! 3, st ! 4, st ! 5, st ! 6, st ! 7) = regs8 A" and "length A = 8"
  shows "map (\<lambda>i. st ! i + A ! i) [0..<8] = fips_sha256 st data"
  unfolding sha256_out [OF assms(2)] fips_sha256_def sha2_compress_def sha256_sigmas [symmetric] assms(1)
  by (simp add: regs8_def)

lemma sha256_load:
  "fold (\<lambda>i W. W[i := GET_UINT32_BE data (4 * i)]) [0..<16] W
     = fold (\<lambda>i W. W[i := map (\<lambda>i. GET_UINT32_BE data (4 * i)) [0..<16] ! i]) [0..<16] W"
  by (rule fold_cong) auto

lemma sha256_loops_R_run:
  assumes v: "rel8 16 A s" and W: "sha256_rounds.sched M 64 16 W" and "m \<le> 6"
  defines "q \<equiv> (\<lambda>m. foldl sha256_loop_R (A, W) (map (\<lambda>i. 16 + 8 * i) [0..<m]))"
  shows "rel8 (16 + 8 * m) (fst (q m)) (sha256_run (sha256_sW M) [16..<16 + 8 * m] s)
     \<and> sha256_rounds.sched M 64 (16 + 8 * m) (snd (q m))"
  using assms(3)
proof (induction m)
  case 0
  show ?case using v W by (simp add: q_def)
next
  case (Suc m)
  obtain A' W' where q: "q m = (A', W')" by fastforce
  let ?t = "16 + 8 * m"
  have IH: "rel8 ?t A' (sha256_run (sha256_sW M) [16..<?t] s)" "sha256_rounds.sched M 64 ?t W'"
    using Suc q by simp_all
  have t: "?t mod 8 = 0" "16 \<le> ?t" "?t + 8 \<le> 64" "(8::nat) \<le> 8" using Suc.prems by simp_all
  have "q (Suc m) = sha256_loop_R (A', W') ?t"
    using q by (simp add: q_def)
  also have "\<dots> = foldl (\<lambda>(A, W) k. let W = sha256_R W (?t + k)
      in (sha256_P A (row8 k) (W ! (?t + k)) (sha256_K ! (?t + k)), W)) (A', W') [0..<8]"
    unfolding sha256_loop_R_def by (rule foldl_cong) (auto simp: sha256_rows_row8)
  finally have qs: "q (Suc m) = \<dots>" .
  have app: "[16..<?t + 8] = [16..<?t] @ [?t..<?t + 8]"
    by (rule upt_add_eq_append) simp
  have e: "16 + 8 * Suc m = ?t + 8" by simp
  from sha256_rounds.group_R_steps [OF IH t, of "\<lambda>i. sha256_K ! i", folded qs] show ?case
    unfolding e app sha2_run_append .
qed

lemma sha256_block_fips: "sha256_block st data = fips_sha256 st data"
proof -
  let ?M = "map (\<lambda>i. GET_UINT32_BE data (4 * i)) [0..<16]"
  define A where "A = [st ! 0, st ! 1, st ! 2, st ! 3, st ! 4, st ! 5, st ! 6, st ! 7]"
  define W where "W = fold (\<lambda>i W. W[i := GET_UINT32_BE data (4 * i)]) [0..<16] (replicate 64 0)"
  have W: "sha256_rounds.sched ?M 64 16 W"
    unfolding W_def sha256_load by (rule sha256_rounds.sched_load) auto
  have A: "rel8 0 A (regs8 A)" by (simp add: rel8_0 A_def)
  define A1 where "A1 = foldl (sha256_loop_W W) A [0, 8]"
  have e1: "[0, 8] = map (\<lambda>i::nat. 8 * i) [0..<2]" by code_simp
  have A1: "rel8 16 A1 (sha256_run (sha256_sW ?M) [0..<16] (regs8 A))"
    using sha256_loops_W_run [OF A W, of 2] unfolding A1_def e1 by (simp del: upt_rec_numeral)
  define A2 where "A2 = fst (foldl sha256_loop_R (A1, W) [16, 24, 32, 40, 48, 56])"
  have e2: "[16, 24, 32, 40, 48, 56] = map (\<lambda>i::nat. 16 + 8 * i) [0..<6]" by code_simp
  have "rel8 64 A2 (sha256_run (sha256_sW ?M) [16..<64] (sha256_run (sha256_sW ?M) [0..<16] (regs8 A)))"
    using sha256_loops_R_run [OF A1 W, of 6] unfolding A2_def e2 by (simp del: upt_rec_numeral)
  moreover have "[0..<64] = [0..<16] @ [16..<64]" by code_simp
  ultimately have "regs8 A2 = sha256_run (sha256_sW ?M) [0..<64] (regs8 A)" "length A2 = 8"
    by (simp_all only: sha2_run_append) (simp_all add: rel8_0 del: upt_rec_numeral)
  from sha256_compress_regs [of data st A2] this show ?thesis
    unfolding sha256_block_def Let_def A_def [symmetric] W_def [symmetric] A1_def [symmetric] A2_def [symmetric]
    by (simp add: A_def regs8_def del: upt_rec_numeral)
qed

lemma sha256_smaller_run:
  fixes data :: bytes
  assumes "length A = 8" and "length W = 64" and "n \<le> 64"
  defines "M \<equiv> map (\<lambda>i. GET_UINT32_BE data (4 * i)) [0..<16]"
  defines "q \<equiv> (\<lambda>n. fold (sha256_smaller_step data) [0..<n] (A, W))"
  shows "length (fst (q n)) = 8 \<and> regs8 (fst (q n)) = sha256_run (sha256_sW M) [0..<n] (regs8 A)
     \<and> sha256_rounds.sched M 64 n (snd (q n))"
  using assms(3)
proof (induction n)
  case 0
  show ?case using assms(1,2) by (simp add: q_def sha256_rounds.sched_def)
next
  case (Suc n)
  obtain A' W' where q: "q n = (A', W')" by fastforce
  have IH: "length A' = 8" "regs8 A' = sha256_run (sha256_sW M) [0..<n] (regs8 A)" "sha256_rounds.sched M 64 n W'"
    using Suc q by simp_all
  define W2 where "W2 = (if n < 16 then W'[n := GET_UINT32_BE data (4 * n)] else sha256_R W' n)"
  have W2: "sha256_rounds.sched M 64 (Suc n) W2" "W2 ! n = sha256_sW M n"
    using IH(3) sha256_rounds.sched_R [OF IH(3)] Suc.prems
    by (auto simp: W2_def M_def sha256_rounds.sched_def nth_list_update less_Suc_eq sha2_W.simps)
  define B where "B = sha256_P A' (0, 1, 2, 3, 4, 5, 6, 7) (sha256_sW M n) (sha256_K ! n)"
  have "q (Suc n) = ([B ! 7, B ! 0, B ! 1, B ! 2, B ! 3, B ! 4, B ! 5, B ! 6], W2)"
    using q W2(2) by (simp add: q_def sha256_smaller_step_def Let_def W2_def [symmetric] B_def)
  then show ?case
    using sha256_rounds.P_rotate [OF IH(1), of "sha256_sW M n" "sha256_K ! n"] IH(2) W2(1)
    by (simp add: sha2_run_snoc B_def)
qed

lemma sha256_smaller_fips: "sha256_block_smaller st data = fips_sha256 st data"
proof -
  define A where "A = [st ! 0, st ! 1, st ! 2, st ! 3, st ! 4, st ! 5, st ! 6, st ! 7]"
  have "length A = 8" by (simp add: A_def)
  from sha256_smaller_run [OF this, of "replicate 64 0" 64 data]
    sha256_compress_regs [of data st "fst (fold (sha256_smaller_step data) [0..<64] (A, replicate 64 0))"]
  show ?thesis
    unfolding sha256_block_smaller_def Let_def A_def [symmetric]
    by (simp add: A_def regs8_def del: upt_rec_numeral)
qed

section \<open>The code is an instance of the block engine\<close>

interpretation sha256: md_stream 64 6 mbedtls_internal_sha256_process_c sha256_block
  by unfold_locales (simp_all add: mbedtls_internal_sha256_process_c_def)

lemma sha256_update_rest_eq: "sha256_update_rest = md_update_rest 64 mbedtls_internal_sha256_process_c"
  unfolding sha256_update_rest_def [abs_def] md_update_rest_def [abs_def] mbedtls_internal_sha256_process_many_c_def [abs_def]
    sha256.md_many_loop_eq by (rule refl)

lemma sha256_update_eq: "mbedtls_sha256_update = md_update 64 mbedtls_internal_sha256_process_c"
  unfolding mbedtls_sha256_update_def [abs_def] sha256_update_rest_eq
  by (intro ext) (auto simp: md_update_def mask_simps Let_def)

abbreviation sha256_lenb :: "u32 \<Rightarrow> u32 \<Rightarrow> bytes" where
  "sha256_lenb high low \<equiv> BYTES32_BE high @ BYTES32_BE low"

definition sha256_out_bytes :: "int \<Rightarrow> u32 list \<Rightarrow> bytes" where
  "sha256_out_bytes flag st = concat (map BYTES32_BE (if flag = 0 then st else take 7 st))"

lemma sha256_finish_tail_eq:
  assumes "length (buffer ctx) = 64"
    and "md_last 64 8 sha256_lenb mbedtls_internal_sha256_process_c ctx = (0, c)" and "length (state c) = 8"
  shows "sha256_finish_tail ctx = (0, c, sha256_out_bytes (is224 c) (state c))"
proof -
  obtain a0 a1 a2 a3 a4 a5 a6 a7 where st: "state c = [a0, a1, a2, a3, a4, a5, a6, a7]"
    using assms(3) length8 by metis
  show ?thesis
    using assms(1,2) st memcpy_at_append [of 56 "buffer ctx" "BYTES32_BE (drop_bit 29 (total0 ctx) OR push_bit 3 (total1 ctx))"]
    by (auto simp: sha256_finish_tail_def md_last_def PUT_UINT32_BE_def mbedtls_internal_sha256_process_c_def Let_def sha256_out_bytes_def)
qed

lemma length_sha256_block: "length (sha256_block st d) = 8"
  by (simp add: sha256_block_def Let_def)

lemma sha256_finish_eq:
  assumes "length (buffer ctx) = 64"
    and "md_finish 64 8 sha256_lenb mbedtls_internal_sha256_process_c ctx = (0, c)"
  shows "mbedtls_sha256_finish ctx = (0, c, sha256_out_bytes (is224 c) (state c))"
proof -
  have u: "unat (total0 ctx) mod 64 < 64" by simp
  have l: "length (state c') = 8" if "md_last 64 8 sha256_lenb mbedtls_internal_sha256_process_c x = (0, c')" for x c'
    using that by (auto simp: md_last_def mbedtls_internal_sha256_process_c_def length_sha256_block Let_def)
  show ?thesis
    using assms u l
    by (auto simp: mbedtls_sha256_finish_def md_finish_def mask_simps mbedtls_internal_sha256_process_c_def Let_def
        split: if_splits intro!: sha256_finish_tail_eq)
qed

definition sha256_iv :: "int \<Rightarrow> u32 list" where
  "sha256_iv flag = (if flag = 0
     then [0x6A09E667, 0xBB67AE85, 0x3C6EF372, 0xA54FF53A,
           0x510E527F, 0x9B05688C, 0x1F83D9AB, 0x5BE0CD19]
     else [0xC1059ED8, 0x367CD507, 0x3070DD17, 0xF70E5939,
           0xFFC00B31, 0x68581511, 0x64F98FA7, 0xBEFA4FA4])"

definition sha256_digest :: "int \<Rightarrow> bytes \<Rightarrow> bytes" where
  "sha256_digest flag m = sha256_out_bytes flag (absorb 64 sha256_block (sha256_iv flag) (md_pad 64 8 be_bytes m))"

lemma sha256_more: "md_context.more c = md_context.more c' \<Longrightarrow> is224 c = is224 c'"
  by (cases c; cases c') simp

lemma sha256_finish_digest:
  assumes "md_repr 64 sha256_block (sha256_iv flag) m ctx" and "is224 ctx = flag"
  shows "\<exists>c. mbedtls_sha256_finish ctx = (0, c, sha256_digest flag m)"
proof -
  obtain c where c: "md_finish 64 8 sha256_lenb mbedtls_internal_sha256_process_c ctx = (0, c)"
    "state c = absorb 64 sha256_block (sha256_iv flag) (md_pad 64 8 be_bytes m)"
    "is224 c = flag"
    using sha256.md_finish_state [OF assms(1), of 8 sha256_lenb be_bytes] len_field_be32 [of "length m"] assms(2)
    by (auto dest: sha256_more)
  have "length (buffer ctx) = 64"
    using assms by (simp add: md_repr_def)
  from sha256_finish_eq [OF this c(1)] c(2,3) show ?thesis
    by (simp add: sha256_digest_def)
qed

lemma sha256_starts_repr:
  "\<exists>c. mbedtls_sha256_starts mbedtls_sha256_init flag = (0, c) \<and> md_repr 64 sha256_block (sha256_iv flag) [] c \<and> is224 c = flag"
  by (simp add: mbedtls_sha256_starts_def mbedtls_sha256_init_def sha256_iv_def sha256.md_repr_start)

text \<open>Feeding a message in any chunks (each shorter than \<open>2 ^ 32\<close> bytes) gives the SHA-256 of the whole.\<close>

lemma sha256_hash_chunks:
  assumes "\<forall>x\<in>set xs. length x < 2 ^ 32"
  shows "\<exists>c0 c1 c2. mbedtls_sha256_starts mbedtls_sha256_init flag = (0, c0)
     \<and> feed mbedtls_sha256_update c0 xs = (0, c1)
     \<and> mbedtls_sha256_finish c1 = (0, c2, sha256_digest flag (concat xs))"
proof -
  obtain c0 where c0: "mbedtls_sha256_starts mbedtls_sha256_init flag = (0, c0)" "md_repr 64 sha256_block (sha256_iv flag) [] c0" "is224 c0 = flag"
    using sha256_starts_repr by blast
  obtain c1 where "feed mbedtls_sha256_update c0 xs = (0, c1)" "md_repr 64 sha256_block (sha256_iv flag) (concat xs) c1" "is224 c1 = flag"
    using sha256.feed_repr [OF c0(2), of xs] assms c0(3) by (auto simp: sha256_update_eq dest: sha256_more)
  with c0(1) sha256_finish_digest [of flag "concat xs" c1] show ?thesis by auto
qed

lemma mbedtls_sha256_digest:
  assumes "length m < 2 ^ 32"
  shows "mbedtls_sha256 m flag = (0, sha256_digest flag m)"
proof -
  obtain c0 c1 c2 where "mbedtls_sha256_starts mbedtls_sha256_init flag = (0, c0)"
    "feed mbedtls_sha256_update c0 [m] = (0, c1)" "mbedtls_sha256_finish c1 = (0, c2, sha256_digest flag (concat [m]))"
    using sha256_hash_chunks [of "[m]" flag] assms by auto
  then show ?thesis
    by (simp add: mbedtls_sha256_def del: feed.simps)
qed

section \<open>Properties\<close>

text \<open>The hash of the standard: padding, then its compression function over the blocks.\<close>

definition fips_sha256_hash :: "int \<Rightarrow> bytes \<Rightarrow> bytes" where
  "fips_sha256_hash flag m = sha256_out_bytes flag (absorb 64 fips_sha256 (sha256_iv flag) (md_pad 64 8 be_bytes m))"

lemma sha256_digest_spec: "sha256_digest flag m = fips_sha256_hash flag m"
  by (simp add: sha256_digest_def fips_sha256_hash_def sha256_block_fips [abs_def])



text \<open>The two compile-time variants of the block function, the rolled loop of
  \<open>MBEDTLS_SHA256_SMALLER\<close> that moves the registers and the unrolled one that renames them, compute
  the same state for every state and block.\<close>

theorem sha256_variants_agree: "sha256_block_smaller st data = sha256_block st data"
  by (simp only: sha256_smaller_fips sha256_block_fips)

end
