(* ===== verification/Sha512.thy ===== *)
theory Sha512
  imports Sha2Core
begin

text \<open>
  \<open>libs/mbedtls/library/sha512.c\<close>: SHA-512 and SHA-384. The array \<open>local.A\<close> is a list of eight words, a
  call \<open>P(A[a],...,A[h],x,K)\<close> carries the eight positions, \<open>local.W\<close> is a list of 80 words.
  The portable C code is modelled (the Arm assembly variants are not); both the unrolled block
  function and the one of \<open>MBEDTLS_SHA512_SMALLER\<close> are, and both are shown to be the FIPS 180-4
  compression function.
\<close>

record sha512_context = "u64 md_context" +
  is384 :: int

definition mbedtls_sha512_init :: sha512_context where
  "mbedtls_sha512_init = \<lparr>total0 = 0, total1 = 0, state = replicate 8 0, buffer = replicate 128 0, is384 = 0\<rparr>"

definition mbedtls_sha512_free :: "sha512_context option \<Rightarrow> sha512_context option" where
  "mbedtls_sha512_free ctx = (case ctx of None \<Rightarrow> None
     | Some c \<Rightarrow> Some \<lparr>total0 = 0, total1 = 0, state = replicate 8 0, buffer = replicate 128 0, is384 = 0\<rparr>)"

definition mbedtls_sha512_clone :: "sha512_context \<Rightarrow> sha512_context \<Rightarrow> sha512_context" where
  "mbedtls_sha512_clone dst src = src"

definition mbedtls_sha512_starts :: "sha512_context \<Rightarrow> int \<Rightarrow> sha512_context cret" where
  "mbedtls_sha512_starts ctx flag =
     (let ctx = ctx\<lparr>total0 := 0\<rparr>;
          ctx = ctx\<lparr>total1 := 0\<rparr>;
          ctx = (if flag = 0 then
                   ctx\<lparr>state :=
                     [0x6A09E667F3BCC908, 0xBB67AE8584CAA73B, 0x3C6EF372FE94F82B, 0xA54FF53A5F1D36F1,
                      0x510E527FADE682D1, 0x9B05688C2B3E6C1F, 0x1F83D9ABFB41BD6B, 0x5BE0CD19137E2179]\<rparr>
                 else
                   ctx\<lparr>state :=
                     [0xCBBB9D5DC1059ED8, 0x629A292A367CD507, 0x9159015A3070DD17, 0x152FECD8F70E5939,
                      0x67332667FFC00B31, 0x8EB44A8768581511, 0xDB0C2E0D64F98FA7, 0x47B5481DBEFA4FA4]\<rparr>);
          ctx = ctx\<lparr>is384 := flag\<rparr>
      in (0, ctx))"

definition sha512_K :: "u64 list" where
  "sha512_K =
   [0x428A2F98D728AE22, 0x7137449123EF65CD, 0xB5C0FBCFEC4D3B2F, 0xE9B5DBA58189DBBC,
    0x3956C25BF348B538, 0x59F111F1B605D019, 0x923F82A4AF194F9B, 0xAB1C5ED5DA6D8118,
    0xD807AA98A3030242, 0x12835B0145706FBE, 0x243185BE4EE4B28C, 0x550C7DC3D5FFB4E2,
    0x72BE5D74F27B896F, 0x80DEB1FE3B1696B1, 0x9BDC06A725C71235, 0xC19BF174CF692694,
    0xE49B69C19EF14AD2, 0xEFBE4786384F25E3, 0x0FC19DC68B8CD5B5, 0x240CA1CC77AC9C65,
    0x2DE92C6F592B0275, 0x4A7484AA6EA6E483, 0x5CB0A9DCBD41FBD4, 0x76F988DA831153B5,
    0x983E5152EE66DFAB, 0xA831C66D2DB43210, 0xB00327C898FB213F, 0xBF597FC7BEEF0EE4,
    0xC6E00BF33DA88FC2, 0xD5A79147930AA725, 0x06CA6351E003826F, 0x142929670A0E6E70,
    0x27B70A8546D22FFC, 0x2E1B21385C26C926, 0x4D2C6DFC5AC42AED, 0x53380D139D95B3DF,
    0x650A73548BAF63DE, 0x766A0ABB3C77B2A8, 0x81C2C92E47EDAEE6, 0x92722C851482353B,
    0xA2BFE8A14CF10364, 0xA81A664BBC423001, 0xC24B8B70D0F89791, 0xC76C51A30654BE30,
    0xD192E819D6EF5218, 0xD69906245565A910, 0xF40E35855771202A, 0x106AA07032BBD1B8,
    0x19A4C116B8D2D0C8, 0x1E376C085141AB53, 0x2748774CDF8EEB99, 0x34B0BCB5E19B48A8,
    0x391C0CB3C5C95A63, 0x4ED8AA4AE3418ACB, 0x5B9CCA4F7763E373, 0x682E6FF3D6B2B8A3,
    0x748F82EE5DEFB2FC, 0x78A5636F43172F60, 0x84C87814A1F0AB72, 0x8CC702081A6439EC,
    0x90BEFFFA23631E28, 0xA4506CEBDE82BDE9, 0xBEF9A3F7B2C67915, 0xC67178F2E372532B,
    0xCA273ECEEA26619C, 0xD186B8C721C0C207, 0xEADA7DD6CDE0EB1E, 0xF57D4F7FEE6ED178,
    0x06F067AA72176FBA, 0x0A637DC5A2C898A6, 0x113F9804BEF90DAE, 0x1B710B35131C471B,
    0x28DB77F523047D84, 0x32CAAB7B40C72493, 0x3C9EBE0A15C9BEBC, 0x431D67C49C100D4C,
    0x4CC5D4BECB3E42B6, 0x597F299CFC657E2A, 0x5FCB6FAB3AD6FAEC, 0x6C44198C4A475817]"

definition sha512_SHR :: "u64 \<Rightarrow> nat \<Rightarrow> u64" where
  "sha512_SHR x n = drop_bit n x"
definition sha512_ROTR :: "u64 \<Rightarrow> nat \<Rightarrow> u64" where
  "sha512_ROTR x n = sha512_SHR x n OR push_bit (64 - n) x"

definition sha512_S0 :: "u64 \<Rightarrow> u64" where
  "sha512_S0 x = sha512_ROTR x 1 XOR sha512_ROTR x 8 XOR sha512_SHR x 7"
definition sha512_S1 :: "u64 \<Rightarrow> u64" where
  "sha512_S1 x = sha512_ROTR x 19 XOR sha512_ROTR x 61 XOR sha512_SHR x 6"
definition sha512_S2 :: "u64 \<Rightarrow> u64" where
  "sha512_S2 x = sha512_ROTR x 28 XOR sha512_ROTR x 34 XOR sha512_ROTR x 39"
definition sha512_S3 :: "u64 \<Rightarrow> u64" where
  "sha512_S3 x = sha512_ROTR x 14 XOR sha512_ROTR x 18 XOR sha512_ROTR x 41"
definition sha512_F0 :: "u64 \<Rightarrow> u64 \<Rightarrow> u64 \<Rightarrow> u64" where
  "sha512_F0 x y z = (x AND y) OR (z AND (x OR y))"
definition sha512_F1 :: "u64 \<Rightarrow> u64 \<Rightarrow> u64 \<Rightarrow> u64" where
  "sha512_F1 x y z = z XOR (x AND (y XOR z))"

definition sha512_R :: "u64 list \<Rightarrow> nat \<Rightarrow> u64 list" where
  "sha512_R W t = W[t := sha512_S1 (W ! (t - 2)) + W ! (t - 7) + sha512_S0 (W ! (t - 15)) + W ! (t - 16)]"

definition sha512_P :: "u64 list \<Rightarrow> nat sha2_regs \<Rightarrow> u64 \<Rightarrow> u64 \<Rightarrow> u64 list" where
  "sha512_P A = (\<lambda>(a, b, c, d, e, f, g, h) x k.
     let temp1 = A ! h + sha512_S3 (A ! e) + sha512_F1 (A ! e) (A ! f) (A ! g) + k + x;
         temp2 = sha512_S2 (A ! a) + sha512_F0 (A ! a) (A ! b) (A ! c);
         A = A[d := A ! d + temp1]
     in A[h := temp1 + temp2])"

text \<open>The registers of the eight calls of \<open>P\<close> of an unrolled loop body.\<close>

definition sha512_rows :: "nat sha2_regs list" where
  "sha512_rows =
   [(0, 1, 2, 3, 4, 5, 6, 7), (7, 0, 1, 2, 3, 4, 5, 6), (6, 7, 0, 1, 2, 3, 4, 5), (5, 6, 7, 0, 1, 2, 3, 4),
    (4, 5, 6, 7, 0, 1, 2, 3), (3, 4, 5, 6, 7, 0, 1, 2), (2, 3, 4, 5, 6, 7, 0, 1), (1, 2, 3, 4, 5, 6, 7, 0)]"

definition sha512_loop_W :: "u64 list \<Rightarrow> u64 list \<Rightarrow> nat \<Rightarrow> u64 list" where
  "sha512_loop_W W A i =
     foldl (\<lambda>A k. sha512_P A (sha512_rows ! k) (W ! (i + k)) (sha512_K ! (i + k))) A [0..<8]"

definition sha512_block :: "u64 list \<Rightarrow> bytes \<Rightarrow> u64 list" where
  "sha512_block st data =
     (let A = [st ! 0, st ! 1, st ! 2, st ! 3, st ! 4, st ! 5, st ! 6, st ! 7];
          W = fold (\<lambda>i W. W[i := GET_UINT64_BE data (8 * i)]) [0..<16] (replicate 80 0);
          W = fold (\<lambda>i W. sha512_R W i) [16..<80] W;
          A = foldl (sha512_loop_W W) A [0, 8, 16, 24, 32, 40, 48, 56, 64, 72]
      in map (\<lambda>i. st ! i + A ! i) [0..<8])"

text \<open>The body of the loop of \<open>MBEDTLS_SHA512_SMALLER\<close>: one call of \<open>P\<close>, then the registers move.\<close>

definition sha512_smaller_step :: "bytes \<Rightarrow> nat \<Rightarrow> u64 list \<times> u64 list \<Rightarrow> u64 list \<times> u64 list" where
  "sha512_smaller_step data i = (\<lambda>(A, W).
     let W = (if i < 16 then W[i := GET_UINT64_BE data (8 * i)] else sha512_R W i);
         A = sha512_P A (0, 1, 2, 3, 4, 5, 6, 7) (W ! i) (sha512_K ! i)
     in ([A ! 7, A ! 0, A ! 1, A ! 2, A ! 3, A ! 4, A ! 5, A ! 6], W))"

definition sha512_block_smaller :: "u64 list \<Rightarrow> bytes \<Rightarrow> u64 list" where
  "sha512_block_smaller st data =
     (let A = [st ! 0, st ! 1, st ! 2, st ! 3, st ! 4, st ! 5, st ! 6, st ! 7];
          A = fst (fold (sha512_smaller_step data) [0..<80] (A, replicate 80 0))
      in map (\<lambda>i. st ! i + A ! i) [0..<8])"

definition mbedtls_internal_sha512_process_c :: "sha512_context \<Rightarrow> bytes \<Rightarrow> sha512_context cret" where
  "mbedtls_internal_sha512_process_c ctx data = (0, ctx\<lparr>state := sha512_block (state ctx) data\<rparr>)"

definition mbedtls_internal_sha512_process_many_c :: "sha512_context \<Rightarrow> bytes \<Rightarrow> nat \<times> sha512_context" where
  "mbedtls_internal_sha512_process_many_c ctx data = md_many 128 mbedtls_internal_sha512_process_c ctx data 0"

definition sha512_update_rest :: "sha512_context \<Rightarrow> bytes \<Rightarrow> nat \<Rightarrow> sha512_context cret" where
  "sha512_update_rest ctx input left =
     (let (ret, ctx, input) = md_many_loop 128 MBEDTLS_ERR_ERROR_GENERIC_ERROR
        mbedtls_internal_sha512_process_many_c ctx input in
      if ret \<noteq> 0 then (ret, ctx)
      else if length input > 0 then (0, ctx\<lparr>buffer := memcpy_at (buffer ctx) left input\<rparr>)
      else (0, ctx))"

definition mbedtls_sha512_update :: "sha512_context \<Rightarrow> bytes \<Rightarrow> sha512_context cret" where
  "mbedtls_sha512_update ctx input =
     (let ilen = length input in
      if ilen = 0 then (0, ctx)
      else
        let left = unat (total0 ctx AND 0x7F);
            fill = 128 - left;
            ctx = ctx\<lparr>total0 := total0 ctx + of_nat ilen\<rparr>;
            ctx = (if total0 ctx < of_nat ilen then ctx\<lparr>total1 := total1 ctx + 1\<rparr> else ctx)
        in if left \<noteq> 0 \<and> ilen \<ge> fill then
             let ctx = ctx\<lparr>buffer := memcpy_at (buffer ctx) left (take fill input)\<rparr>;
                 (ret, ctx) = mbedtls_internal_sha512_process_c ctx (buffer ctx)
             in if ret \<noteq> 0 then (ret, ctx) else sha512_update_rest ctx (drop fill input) 0
           else sha512_update_rest ctx input left)"

text \<open>The length field, the last block and the output of \<open>mbedtls_sha512_finish\<close>.\<close>

definition sha512_finish_tail :: "sha512_context \<Rightarrow> int \<times> sha512_context \<times> bytes" where
  "sha512_finish_tail ctx =
     (let high = drop_bit 61 (total0 ctx) OR push_bit 3 (total1 ctx);
          low = push_bit 3 (total0 ctx);
          ctx = ctx\<lparr>buffer := PUT_UINT64_BE high (buffer ctx) 112\<rparr>;
          ctx = ctx\<lparr>buffer := PUT_UINT64_BE low (buffer ctx) 120\<rparr>;
          (ret, ctx) = mbedtls_internal_sha512_process_c ctx (buffer ctx)
      in if ret \<noteq> 0 then (ret, ctx, [])
         else (0, ctx, BYTES64_BE (state ctx ! 0) @ BYTES64_BE (state ctx ! 1)
             @ BYTES64_BE (state ctx ! 2) @ BYTES64_BE (state ctx ! 3)
             @ BYTES64_BE (state ctx ! 4) @ BYTES64_BE (state ctx ! 5)
             @ (if is384 ctx = 0 then BYTES64_BE (state ctx ! 6) @ BYTES64_BE (state ctx ! 7) else [])))"

definition mbedtls_sha512_finish :: "sha512_context \<Rightarrow> int \<times> sha512_context \<times> bytes" where
  "mbedtls_sha512_finish ctx =
     (let used = unat (total0 ctx AND 0x7F);
          ctx = ctx\<lparr>buffer := (buffer ctx)[used := 0x80]\<rparr>;
          used = used + 1
      in if used \<le> 112 then
           sha512_finish_tail (ctx\<lparr>buffer := memset_at (buffer ctx) used 0 (112 - used)\<rparr>)
         else
           let ctx = ctx\<lparr>buffer := memset_at (buffer ctx) used 0 (128 - used)\<rparr>;
               (ret, ctx) = mbedtls_internal_sha512_process_c ctx (buffer ctx)
           in if ret \<noteq> 0 then (ret, ctx, [])
              else sha512_finish_tail (ctx\<lparr>buffer := memset_at (buffer ctx) 0 0 112\<rparr>))"

definition mbedtls_sha512 :: "bytes \<Rightarrow> int \<Rightarrow> int \<times> bytes" where
  "mbedtls_sha512 input flag =
     (let ctx = mbedtls_sha512_init;
          (ret, ctx) = mbedtls_sha512_starts ctx flag
      in if ret \<noteq> 0 then (ret, []) else
      let (ret, ctx) = mbedtls_sha512_update ctx input
      in if ret \<noteq> 0 then (ret, []) else
      let (ret, ctx, output) = mbedtls_sha512_finish ctx
      in (ret, output))"

section \<open>The block function is the FIPS 180-4 compression function\<close>

lemma sha512_ROTR_rotr: "n < 64 \<Longrightarrow> sha512_ROTR x n = word_rotr n x"
  by (simp add: sha512_ROTR_def sha512_SHR_def mask_simps rotr64)

interpretation sha512_rounds: sha2_rounds sha512_S0 sha512_S1 sha512_S2 sha512_S3 sha512_P sha512_R
  by unfold_locales (simp_all add: sha512_P_def sha512_R_def sha512_F0_def sha512_F1_def ch_eq maj_eq)

text \<open>The functions of section 4.1 of the standard.\<close>

definition sigma0_64 :: "u64 \<Rightarrow> u64" where
  "sigma0_64 x = word_rotr 1 x XOR word_rotr 8 x XOR drop_bit 7 x"
definition sigma1_64 :: "u64 \<Rightarrow> u64" where
  "sigma1_64 x = word_rotr 19 x XOR word_rotr 61 x XOR drop_bit 6 x"
definition Sigma0_64 :: "u64 \<Rightarrow> u64" where
  "Sigma0_64 x = word_rotr 28 x XOR word_rotr 34 x XOR word_rotr 39 x"
definition Sigma1_64 :: "u64 \<Rightarrow> u64" where
  "Sigma1_64 x = word_rotr 14 x XOR word_rotr 18 x XOR word_rotr 41 x"

lemma sha512_sigmas: "sha512_S0 = sigma0_64" "sha512_S1 = sigma1_64" "sha512_S2 = Sigma0_64" "sha512_S3 = Sigma1_64"
  by (auto intro!: ext simp: sha512_S0_def sha512_S1_def sha512_S2_def sha512_S3_def sigma0_64_def sigma1_64_def
      Sigma0_64_def Sigma1_64_def sha512_ROTR_rotr, simp_all add: sha512_SHR_def mask_simps)

definition fips_sha512 :: "u64 list \<Rightarrow> bytes \<Rightarrow> u64 list" where
  "fips_sha512 H data = sha2_compress 80 sigma0_64 sigma1_64 Sigma0_64 Sigma1_64 sha512_K H
     (map (\<lambda>i. GET_UINT64_BE data (8 * i)) [0..<16])"

lemma sha512_rows_row8: "k < 8 \<Longrightarrow> sha512_rows ! k = row8 k"
proof -
  have r: "sha512_rows = map row8 [0..<8]" by code_simp
  show "k < 8 \<Longrightarrow> sha512_rows ! k = row8 k"
    unfolding r by (simp del: upt_rec_numeral)
qed

lemma sha512_fold_rows: "foldl (\<lambda>a k. f a (sha512_rows ! k) k) x [0..<8] = foldl (\<lambda>a k. f a (row8 k) k) x [0..<8]"
  by (rule foldl_cong) (simp_all add: sha512_rows_row8)

abbreviation sha512_sW :: "u64 list \<Rightarrow> nat \<Rightarrow> u64" where
  "sha512_sW \<equiv> sha2_W sha512_S0 sha512_S1"

abbreviation sha512_run :: "(nat \<Rightarrow> u64) \<Rightarrow> nat list \<Rightarrow> u64 sha2_regs \<Rightarrow> u64 sha2_regs" where
  "sha512_run \<equiv> sha2_run sha512_S2 sha512_S3 (\<lambda>t. sha512_K ! t)"

lemma sha512_run_cong: "(\<And>t. t \<in> set ts \<Longrightarrow> w t = w' t) \<Longrightarrow> sha512_run w ts s = sha512_run w' ts s"
  unfolding sha2_run_def by (rule fold_cong) auto

lemma sha512_loop_W_run:
  assumes "rel8 t A s" and "t mod 8 = 0" and "sha512_rounds.sched M 80 n W" and "t + 8 \<le> n"
  shows "rel8 (t + 8) (sha512_loop_W W A t) (sha512_run (sha512_sW M) [t..<t + 8] s)"
proof -
  have "sha512_run (\<lambda>i. W ! i) [t..<t + 8] s = sha512_run (sha512_sW M) [t..<t + 8] s"
    by (rule sha512_run_cong) (use assms in \<open>auto simp: sha512_rounds.sched_def\<close>)
  then show ?thesis
    using sha512_rounds.group_steps [OF assms(1,2), of 8 "\<lambda>i. W ! i" "\<lambda>i. sha512_K ! i"]
    by (simp add: sha512_loop_W_def sha512_fold_rows [of "\<lambda>a r k. sha512_P a r (W ! (t + k)) (sha512_K ! (t + k))"]
        del: upt_rec_numeral)
qed

lemma sha512_loops_W_run:
  assumes "rel8 0 A s" and "sha512_rounds.sched M 80 n W" and "8 * m \<le> n"
  shows "rel8 (8 * m) (foldl (sha512_loop_W W) A (map (\<lambda>i. 8 * i) [0..<m])) (sha512_run (sha512_sW M) [0..<8 * m] s)"
  using assms(3)
proof (induction m)
  case (Suc m)
  then have "rel8 (8 * m) (foldl (sha512_loop_W W) A (map (\<lambda>i. 8 * i) [0..<m])) (sha512_run (sha512_sW M) [0..<8 * m] s)"
    by simp
  from sha512_loop_W_run [OF this _ assms(2)] Suc.prems
  have "rel8 (8 * m + 8) (sha512_loop_W W (foldl (sha512_loop_W W) A (map (\<lambda>i. 8 * i) [0..<m])) (8 * m))
      (sha512_run (sha512_sW M) [8 * m..<8 * m + 8] (sha512_run (sha512_sW M) [0..<8 * m] s))" by simp
  moreover have "[0..<8 * Suc m] = [0..<8 * m] @ [8 * m..<8 * m + 8]"
    using upt_add_eq_append [of 0 "8 * m" 8] by (simp add: add.commute)
  ultimately show ?case
    by (simp only: sha2_run_append) (simp add: add.commute)
qed (use assms(1) in simp)

lemma sha512_out: "length (A :: u64 list) = 8 \<Longrightarrow>
   map (\<lambda>i. st ! i + A ! i) [0..<8] =
   [A ! 0 + st ! 0, A ! 1 + st ! 1, A ! 2 + st ! 2, A ! 3 + st ! 3,
    A ! 4 + st ! 4, A ! 5 + st ! 5, A ! 6 + st ! 6, A ! 7 + st ! 7]"
  by (simp add: upt_rec numeral_eq_Suc add.commute)

lemma sha512_compress_regs:
  assumes "sha512_run (sha512_sW (map (\<lambda>i. GET_UINT64_BE data (8 * i)) [0..<16])) [0..<80]
      (st ! 0, st ! 1, st ! 2, st ! 3, st ! 4, st ! 5, st ! 6, st ! 7) = regs8 A" and "length A = 8"
  shows "map (\<lambda>i. st ! i + A ! i) [0..<8] = fips_sha512 st data"
  unfolding sha512_out [OF assms(2)] fips_sha512_def sha2_compress_def sha512_sigmas [symmetric] assms(1)
  by (simp add: regs8_def)

lemma sha512_load:
  "fold (\<lambda>i W. W[i := GET_UINT64_BE data (8 * i)]) [0..<16] W
     = fold (\<lambda>i W. W[i := map (\<lambda>i. GET_UINT64_BE data (8 * i)) [0..<16] ! i]) [0..<16] W"
  by (rule fold_cong) auto

lemma sha512_block_fips: "sha512_block st data = fips_sha512 st data"
proof -
  let ?M = "map (\<lambda>i. GET_UINT64_BE data (8 * i)) [0..<16]"
  define A where "A = [st ! 0, st ! 1, st ! 2, st ! 3, st ! 4, st ! 5, st ! 6, st ! 7]"
  define W where "W = fold (\<lambda>i W. W[i := GET_UINT64_BE data (8 * i)]) [0..<16] (replicate 80 0)"
  have W: "sha512_rounds.sched ?M 80 16 W"
    unfolding W_def sha512_load by (rule sha512_rounds.sched_load) auto
  define W1 where "W1 = fold (\<lambda>i W. sha512_R W i) [16..<80] W"
  have W1: "sha512_rounds.sched ?M 80 80 W1"
    using sha512_rounds.sched_fold_R [OF W, of 64] unfolding W1_def by (simp del: upt_rec_numeral)
  have A: "rel8 0 A (regs8 A)" by (simp add: rel8_0 A_def)
  define A1 where "A1 = foldl (sha512_loop_W W1) A [0, 8, 16, 24, 32, 40, 48, 56, 64, 72]"
  have e1: "[0, 8, 16, 24, 32, 40, 48, 56, 64, 72] = map (\<lambda>i::nat. 8 * i) [0..<10]" by code_simp
  have "rel8 80 A1 (sha512_run (sha512_sW ?M) [0..<80] (regs8 A))"
    using sha512_loops_W_run [OF A W1, of 10] unfolding A1_def e1 by (simp del: upt_rec_numeral)
  then have "regs8 A1 = sha512_run (sha512_sW ?M) [0..<80] (regs8 A)" "length A1 = 8"
    by (simp_all add: rel8_0 del: upt_rec_numeral)
  from sha512_compress_regs [of data st A1] this show ?thesis
    unfolding sha512_block_def Let_def A_def [symmetric] W_def [symmetric] W1_def [symmetric] A1_def [symmetric]
    by (simp add: A_def regs8_def del: upt_rec_numeral)
qed

lemma sha512_smaller_run:
  fixes data :: bytes
  assumes "length A = 8" and "length W = 80" and "n \<le> 80"
  defines "M \<equiv> map (\<lambda>i. GET_UINT64_BE data (8 * i)) [0..<16]"
  defines "q \<equiv> (\<lambda>n. fold (sha512_smaller_step data) [0..<n] (A, W))"
  shows "length (fst (q n)) = 8 \<and> regs8 (fst (q n)) = sha512_run (sha512_sW M) [0..<n] (regs8 A)
     \<and> sha512_rounds.sched M 80 n (snd (q n))"
  using assms(3)
proof (induction n)
  case 0
  show ?case using assms(1,2) by (simp add: q_def sha512_rounds.sched_def)
next
  case (Suc n)
  obtain A' W' where q: "q n = (A', W')" by fastforce
  have IH: "length A' = 8" "regs8 A' = sha512_run (sha512_sW M) [0..<n] (regs8 A)" "sha512_rounds.sched M 80 n W'"
    using Suc q by simp_all
  define W2 where "W2 = (if n < 16 then W'[n := GET_UINT64_BE data (8 * n)] else sha512_R W' n)"
  have W2: "sha512_rounds.sched M 80 (Suc n) W2" "W2 ! n = sha512_sW M n"
    using IH(3) sha512_rounds.sched_R [OF IH(3)] Suc.prems
    by (auto simp: W2_def M_def sha512_rounds.sched_def nth_list_update less_Suc_eq sha2_W.simps)
  define B where "B = sha512_P A' (0, 1, 2, 3, 4, 5, 6, 7) (sha512_sW M n) (sha512_K ! n)"
  have "q (Suc n) = ([B ! 7, B ! 0, B ! 1, B ! 2, B ! 3, B ! 4, B ! 5, B ! 6], W2)"
    using q W2(2) by (simp add: q_def sha512_smaller_step_def Let_def W2_def [symmetric] B_def)
  then show ?case
    using sha512_rounds.P_rotate [OF IH(1), of "sha512_sW M n" "sha512_K ! n"] IH(2) W2(1)
    by (simp add: sha2_run_snoc B_def)
qed

lemma sha512_smaller_fips: "sha512_block_smaller st data = fips_sha512 st data"
proof -
  define A where "A = [st ! 0, st ! 1, st ! 2, st ! 3, st ! 4, st ! 5, st ! 6, st ! 7]"
  have "length A = 8" by (simp add: A_def)
  from sha512_smaller_run [OF this, of "replicate 80 0" 80 data]
    sha512_compress_regs [of data st "fst (fold (sha512_smaller_step data) [0..<80] (A, replicate 80 0))"]
  show ?thesis
    unfolding sha512_block_smaller_def Let_def A_def [symmetric]
    by (simp add: A_def regs8_def del: upt_rec_numeral)
qed

section \<open>The code is an instance of the block engine\<close>

interpretation sha512: md_stream 128 7 mbedtls_internal_sha512_process_c sha512_block
  by unfold_locales (simp_all add: mbedtls_internal_sha512_process_c_def)

lemma sha512_update_rest_eq: "sha512_update_rest = md_update_rest 128 mbedtls_internal_sha512_process_c"
  unfolding sha512_update_rest_def [abs_def] md_update_rest_def [abs_def] mbedtls_internal_sha512_process_many_c_def [abs_def]
    sha512.md_many_loop_eq by (rule refl)

lemma sha512_update_eq: "mbedtls_sha512_update = md_update 128 mbedtls_internal_sha512_process_c"
  unfolding mbedtls_sha512_update_def [abs_def] sha512_update_rest_eq
  by (intro ext) (auto simp: md_update_def mask_simps Let_def)

abbreviation sha512_lenb :: "u64 \<Rightarrow> u64 \<Rightarrow> bytes" where
  "sha512_lenb high low \<equiv> BYTES64_BE high @ BYTES64_BE low"

definition sha512_out_bytes :: "int \<Rightarrow> u64 list \<Rightarrow> bytes" where
  "sha512_out_bytes flag st = concat (map BYTES64_BE (if flag = 0 then st else take 6 st))"

lemma sha512_finish_tail_eq:
  assumes "length (buffer ctx) = 128"
    and "md_last 128 16 sha512_lenb mbedtls_internal_sha512_process_c ctx = (0, c)" and "length (state c) = 8"
  shows "sha512_finish_tail ctx = (0, c, sha512_out_bytes (is384 c) (state c))"
proof -
  obtain a0 a1 a2 a3 a4 a5 a6 a7 where st: "state c = [a0, a1, a2, a3, a4, a5, a6, a7]"
    using assms(3) length8 by metis
  show ?thesis
    using assms(1,2) st memcpy_at_append [of 112 "buffer ctx" "BYTES64_BE (drop_bit 61 (total0 ctx) OR push_bit 3 (total1 ctx))"]
    by (auto simp: sha512_finish_tail_def md_last_def PUT_UINT64_BE_def mbedtls_internal_sha512_process_c_def Let_def sha512_out_bytes_def)
qed

lemma length_sha512_block: "length (sha512_block st d) = 8"
  by (simp add: sha512_block_def Let_def)

lemma sha512_finish_eq:
  assumes "length (buffer ctx) = 128"
    and "md_finish 128 16 sha512_lenb mbedtls_internal_sha512_process_c ctx = (0, c)"
  shows "mbedtls_sha512_finish ctx = (0, c, sha512_out_bytes (is384 c) (state c))"
proof -
  have u: "unat (total0 ctx) mod 128 < 128" by simp
  have l: "length (state c') = 8" if "md_last 128 16 sha512_lenb mbedtls_internal_sha512_process_c x = (0, c')" for x c'
    using that by (auto simp: md_last_def mbedtls_internal_sha512_process_c_def length_sha512_block Let_def)
  show ?thesis
    using assms u l
    by (auto simp: mbedtls_sha512_finish_def md_finish_def mask_simps mbedtls_internal_sha512_process_c_def Let_def
        split: if_splits intro!: sha512_finish_tail_eq)
qed

definition sha512_iv :: "int \<Rightarrow> u64 list" where
  "sha512_iv flag = (if flag = 0
     then [0x6A09E667F3BCC908, 0xBB67AE8584CAA73B, 0x3C6EF372FE94F82B, 0xA54FF53A5F1D36F1,
           0x510E527FADE682D1, 0x9B05688C2B3E6C1F, 0x1F83D9ABFB41BD6B, 0x5BE0CD19137E2179]
     else [0xCBBB9D5DC1059ED8, 0x629A292A367CD507, 0x9159015A3070DD17, 0x152FECD8F70E5939,
           0x67332667FFC00B31, 0x8EB44A8768581511, 0xDB0C2E0D64F98FA7, 0x47B5481DBEFA4FA4])"

definition sha512_digest :: "int \<Rightarrow> bytes \<Rightarrow> bytes" where
  "sha512_digest flag m = sha512_out_bytes flag (absorb 128 sha512_block (sha512_iv flag) (md_pad 128 16 be_bytes m))"

lemma sha512_more: "md_context.more c = md_context.more c' \<Longrightarrow> is384 c = is384 c'"
  by (cases c; cases c') simp

lemma sha512_finish_digest:
  assumes "md_repr 128 sha512_block (sha512_iv flag) m ctx" and "is384 ctx = flag"
  shows "\<exists>c. mbedtls_sha512_finish ctx = (0, c, sha512_digest flag m)"
proof -
  obtain c where c: "md_finish 128 16 sha512_lenb mbedtls_internal_sha512_process_c ctx = (0, c)"
    "state c = absorb 128 sha512_block (sha512_iv flag) (md_pad 128 16 be_bytes m)"
    "is384 c = flag"
    using sha512.md_finish_state [OF assms(1), of 16 sha512_lenb be_bytes] len_field_be64 [of "length m"] assms(2)
    by (auto dest: sha512_more)
  have "length (buffer ctx) = 128"
    using assms by (simp add: md_repr_def)
  from sha512_finish_eq [OF this c(1)] c(2,3) show ?thesis
    by (simp add: sha512_digest_def)
qed

lemma sha512_starts_repr:
  "\<exists>c. mbedtls_sha512_starts mbedtls_sha512_init flag = (0, c) \<and> md_repr 128 sha512_block (sha512_iv flag) [] c \<and> is384 c = flag"
  by (simp add: mbedtls_sha512_starts_def mbedtls_sha512_init_def sha512_iv_def sha512.md_repr_start)

text \<open>Feeding a message in any chunks (each shorter than \<open>2 ^ 64\<close> bytes) gives the SHA-512 of the whole.\<close>

lemma sha512_hash_chunks:
  assumes "\<forall>x\<in>set xs. length x < 2 ^ 64"
  shows "\<exists>c0 c1 c2. mbedtls_sha512_starts mbedtls_sha512_init flag = (0, c0)
     \<and> feed mbedtls_sha512_update c0 xs = (0, c1)
     \<and> mbedtls_sha512_finish c1 = (0, c2, sha512_digest flag (concat xs))"
proof -
  obtain c0 where c0: "mbedtls_sha512_starts mbedtls_sha512_init flag = (0, c0)" "md_repr 128 sha512_block (sha512_iv flag) [] c0" "is384 c0 = flag"
    using sha512_starts_repr by blast
  obtain c1 where "feed mbedtls_sha512_update c0 xs = (0, c1)" "md_repr 128 sha512_block (sha512_iv flag) (concat xs) c1" "is384 c1 = flag"
    using sha512.feed_repr [OF c0(2), of xs] assms c0(3) by (auto simp: sha512_update_eq dest: sha512_more)
  with c0(1) sha512_finish_digest [of flag "concat xs" c1] show ?thesis by auto
qed

lemma mbedtls_sha512_digest:
  assumes "length m < 2 ^ 64"
  shows "mbedtls_sha512 m flag = (0, sha512_digest flag m)"
proof -
  obtain c0 c1 c2 where "mbedtls_sha512_starts mbedtls_sha512_init flag = (0, c0)"
    "feed mbedtls_sha512_update c0 [m] = (0, c1)" "mbedtls_sha512_finish c1 = (0, c2, sha512_digest flag (concat [m]))"
    using sha512_hash_chunks [of "[m]" flag] assms by auto
  then show ?thesis
    by (simp add: mbedtls_sha512_def del: feed.simps)
qed

section \<open>Properties\<close>

text \<open>The hash of the standard: padding, then its compression function over the blocks.\<close>

definition fips_sha512_hash :: "int \<Rightarrow> bytes \<Rightarrow> bytes" where
  "fips_sha512_hash flag m = sha512_out_bytes flag (absorb 128 fips_sha512 (sha512_iv flag) (md_pad 128 16 be_bytes m))"

lemma sha512_digest_spec: "sha512_digest flag m = fips_sha512_hash flag m"
  by (simp add: sha512_digest_def fips_sha512_hash_def sha512_block_fips [abs_def])



text \<open>The two compile-time variants of the block function, the rolled loop of
  \<open>MBEDTLS_SHA512_SMALLER\<close> that moves the registers and the unrolled one that renames them, compute
  the same state for every state and block.\<close>

theorem sha512_variants_agree: "sha512_block_smaller st data = sha512_block st data"
  by (simp only: sha512_smaller_fips sha512_block_fips)

end
