(* ===== verification/EthParams.thy ===== *)
theory EthParams
  imports Prelude
begin

text \<open>
  \<open>libs/EclipseMonitor/include/EclipseMonitor/Eth/Params.hpp\<close> and the value types of
  \<open>DataTypes.hpp\<close>: block numbers, timestamps and difficulties are \<open>uint64_t\<close>, so they are
  64-bit words here and their arithmetic wraps. A network configuration is the record of the
  fork block numbers, \<open>None\<close> for the \<open>nullptr\<close> of a fork the network does not have.
\<close>

type_synonym BlockNumber = u64
type_synonym Timestamp = u64
type_synonym Difficulty = u64
type_synonym TrustedTimestamp = u64

definition GetDifficultyBoundDivisorBitShift :: nat where
  "GetDifficultyBoundDivisorBitShift = 11"

definition GetMinimumDifficulty :: u64 where
  "GetMinimumDifficulty = 131072"

definition GetDurationLimit :: u64 where
  "GetDurationLimit = 13"

record NetworkConfig =
  ParisBlkNum :: "BlockNumber option"
  GrayGlacierBlkNum :: "BlockNumber option"
  ArrowGlacierBlkNum :: "BlockNumber option"
  LondonBlkNum :: "BlockNumber option"
  MuirGlacierBlkNum :: "BlockNumber option"
  ConstantinopleBlkNum :: "BlockNumber option"
  ByzantiumBlkNum :: "BlockNumber option"
  HomesteadBlkNum :: "BlockNumber option"

definition MainnetConfig :: NetworkConfig where
  "MainnetConfig = \<lparr>
     ParisBlkNum = Some 15537394,
     GrayGlacierBlkNum = Some 15050000,
     ArrowGlacierBlkNum = Some 13773000,
     LondonBlkNum = Some 12965000,
     MuirGlacierBlkNum = Some 9200000,
     ConstantinopleBlkNum = Some 7280000,
     ByzantiumBlkNum = Some 4370000,
     HomesteadBlkNum = Some 1150000\<rparr>"

definition GoerliConfig :: NetworkConfig where
  "GoerliConfig = \<lparr>
     ParisBlkNum = Some 7382819,
     GrayGlacierBlkNum = None,
     ArrowGlacierBlkNum = None,
     LondonBlkNum = Some 5062605,
     MuirGlacierBlkNum = None,
     ConstantinopleBlkNum = Some 0,
     ByzantiumBlkNum = Some 0,
     HomesteadBlkNum = Some 0\<rparr>"

definition IsBlockOf :: "BlockNumber option \<Rightarrow> BlockNumber option \<Rightarrow> bool" where
  "IsBlockOf forkBlkNum blkNum =
     (case (forkBlkNum, blkNum) of (Some f, Some b) \<Rightarrow> f \<le> b | _ \<Rightarrow> False)"

definition IsBlockOfParis :: "NetworkConfig \<Rightarrow> BlockNumber \<Rightarrow> bool" where
  "IsBlockOfParis c n = IsBlockOf (ParisBlkNum c) (Some n)"
definition IsBlockOfGrayGlacier :: "NetworkConfig \<Rightarrow> BlockNumber \<Rightarrow> bool" where
  "IsBlockOfGrayGlacier c n = IsBlockOf (GrayGlacierBlkNum c) (Some n)"
definition IsBlockOfArrowGlacier :: "NetworkConfig \<Rightarrow> BlockNumber \<Rightarrow> bool" where
  "IsBlockOfArrowGlacier c n = IsBlockOf (ArrowGlacierBlkNum c) (Some n)"
definition IsBlockOfLondon :: "NetworkConfig \<Rightarrow> BlockNumber \<Rightarrow> bool" where
  "IsBlockOfLondon c n = IsBlockOf (LondonBlkNum c) (Some n)"
definition IsBlockOfMuirGlacier :: "NetworkConfig \<Rightarrow> BlockNumber \<Rightarrow> bool" where
  "IsBlockOfMuirGlacier c n = IsBlockOf (MuirGlacierBlkNum c) (Some n)"
definition IsBlockOfConstantinople :: "NetworkConfig \<Rightarrow> BlockNumber \<Rightarrow> bool" where
  "IsBlockOfConstantinople c n = IsBlockOf (ConstantinopleBlkNum c) (Some n)"
definition IsBlockOfByzantium :: "NetworkConfig \<Rightarrow> BlockNumber \<Rightarrow> bool" where
  "IsBlockOfByzantium c n = IsBlockOf (ByzantiumBlkNum c) (Some n)"
definition IsBlockOfHomestead :: "NetworkConfig \<Rightarrow> BlockNumber \<Rightarrow> bool" where
  "IsBlockOfHomestead c n = IsBlockOf (HomesteadBlkNum c) (Some n)"

lemmas IsBlockOf_defs = IsBlockOfParis_def IsBlockOfGrayGlacier_def IsBlockOfArrowGlacier_def
  IsBlockOfLondon_def IsBlockOfMuirGlacier_def IsBlockOfConstantinople_def IsBlockOfByzantium_def
  IsBlockOfHomestead_def IsBlockOf_def

text \<open>A fork, once active, stays active.\<close>

lemma IsBlockOf_mono: "IsBlockOf f (Some m) \<Longrightarrow> m \<le> n \<Longrightarrow> IsBlockOf f (Some n)"
  by (auto simp: IsBlockOf_def split: option.splits)

section \<open>Words as numbers\<close>

lemma unat_add_no_wrap: "unat a + unat b < 2 ^ 64 \<Longrightarrow> unat (a + b :: u64) = unat a + unat b"
  by (simp add: unat_word_ariths)

lemma unat_mult_no_wrap: "unat a * unat b < 2 ^ 64 \<Longrightarrow> unat (a * b :: u64) = unat a * unat b"
  by (simp add: unat_word_ariths)

lemma unat_sub_no_wrap: "unat b \<le> unat a \<Longrightarrow> unat (a - b :: u64) = unat a - unat b"
  by (simp add: unat_sub word_le_nat_alt)

end
