(* ===== verification/Rlp.thy ===== *)
theory Rlp
  imports Prelude
begin

text \<open>
  The RLP codec of \<open>libs/SimpleRlp/include/SimpleRlp\<close>: integers (\<open>RlpEncoding.hpp\<close>,
  \<open>RlpDecoding.hpp\<close>), the writers (\<open>Writer.hpp\<close>), the input state machine
  (\<open>InputStateMachine.hpp\<close>) and the byte-string, list, general and static-dict parsers. A
  parse error carries the message; the byte position the code adds to it is not modelled, so the
  state machine is the input that is left. \<open>size_t\<close> values that count
  bytes of a buffer are natural numbers; the ones read from the input are 64-bit words first.
  The round trips are at the end: integers, objects, and objects with their computed size.
\<close>

datatype ParseError = ParseError string

datatype rlp = RBytes bytes | RList "rlp list"

datatype RlpEncodeType = Byte | BytesShort | BytesLong | ListShort | ListLong

section \<open>Encoding\<close>

text \<open>The loop of \<open>EncodedWidth\<close> that counts the leading zero bytes, from byte \<open>i - 1\<close> down.\<close>

fun zero_bytes :: "u64 \<Rightarrow> nat \<Rightarrow> nat" where
  "zero_bytes inVal 0 = 0"
| "zero_bytes inVal (Suc i) =
     (if (drop_bit (i * 8) inVal) AND 0xFF = 0 then Suc (zero_bytes inVal i) else 0)"

definition EncodedWidth :: "u64 \<Rightarrow> nat" where
  "EncodedWidth inVal = 8 - zero_bytes inVal 8"

definition EncodePrimitiveIntValue :: "u64 \<Rightarrow> bytes" where
  "EncodePrimitiveIntValue inVal =
     map (\<lambda>i. ucast ((drop_bit (i * 8) inVal) AND 0xFF)) (rev [0..<EncodedWidth inVal])"

definition GenLeadingBytes_Bytes :: "nat \<Rightarrow> bytes" where
  "GenLeadingBytes_Bytes byteSize =
     (if byteSize \<le> 55 then [of_nat (0x80 + byteSize)]
      else let res = 0 # EncodePrimitiveIntValue (of_nat byteSize)
           in res[0 := of_nat (0xB7 + (length res - 1))])"

definition GenLeadingBytes_List :: "nat \<Rightarrow> bytes" where
  "GenLeadingBytes_List byteSize =
     (if byteSize \<le> 55 then [of_nat (0xC0 + byteSize)]
      else let res = 0 # EncodePrimitiveIntValue (of_nat byteSize)
           in res[0 := of_nat (0xF7 + (length res - 1))])"

definition CalcLeadingBytesSize :: "nat \<Rightarrow> nat" where
  "CalcLeadingBytesSize byteSize =
     (if byteSize \<le> 55 then 1 else 1 + EncodedWidth (of_nat byteSize))"

definition SerializeBytes :: "bytes \<Rightarrow> bytes" where
  "SerializeBytes inBytes =
     (if length inBytes = 1 \<and> inBytes ! 0 \<le> 0x7F then inBytes
      else GenLeadingBytes_Bytes (length inBytes) @ inBytes)"

definition SerializeList :: "bytes \<Rightarrow> bytes" where
  "SerializeList inBytes = GenLeadingBytes_List (length inBytes) @ inBytes"

definition CalcSerializedSize_Bytes :: "bytes \<Rightarrow> nat" where
  "CalcSerializedSize_Bytes inBytes =
     (if length inBytes = 1 \<and> inBytes ! 0 \<le> 0x7F then 1
      else CalcLeadingBytesSize (length inBytes) + length inBytes)"

definition CalcSerializedSize_List :: "nat \<Rightarrow> nat" where
  "CalcSerializedSize_List inBytesSize = CalcLeadingBytesSize inBytesSize + inBytesSize"

fun Write :: "rlp \<Rightarrow> bytes" where
  "Write (RBytes b) = SerializeBytes b"
| "Write (RList xs) = SerializeList (concat (map Write xs))"

fun CalcSize :: "rlp \<Rightarrow> nat" where
  "CalcSize (RBytes b) = CalcSerializedSize_Bytes b"
| "CalcSize (RList xs) = CalcSerializedSize_List (sum_list (map CalcSize xs))"

text \<open>A static dict writes its values in order, all but the last \<open>skipLast\<close>.\<close>

definition WriteStaticDict :: "bytes list \<Rightarrow> nat \<Rightarrow> bytes" where
  "WriteStaticDict vals skipLast =
     SerializeList (concat (map SerializeBytes (take (length vals - skipLast) vals)))"

section \<open>Input\<close>

text \<open>The state machine over a byte container: what is left of it.\<close>

type_synonym ism = bytes

fun GetByteAndAdv :: "ism \<Rightarrow> ParseError + (byte \<times> ism)" where
  "GetByteAndAdv [] = Inl (ParseError ''Expecting more input data'')"
| "GetByteAndAdv (b # bs) = Inr (b, bs)"

definition CheckByteLeft :: "nat \<Rightarrow> nat \<Rightarrow> ParseError + nat" where
  "CheckByteLeft byteLeft byteNeeded =
     (if byteNeeded > byteLeft
      then Inl (ParseError ''Expecting more input data than what is left'')
      else Inr (byteLeft - byteNeeded))"

definition DecodeRlpLeadingByte :: "byte \<Rightarrow> RlpEncodeType \<times> byte" where
  "DecodeRlpLeadingByte val =
     (if val \<le> 0x7F then (Byte, val)
      else if val \<le> 0xB7 then (BytesShort, val - 0x80)
      else if val \<le> 0xBF then (BytesLong, val - 0xB7)
      else if val \<le> 0xF7 then (ListShort, val - 0xC0)
      else (ListLong, val - 0xF7))"

fun parse_int_loop :: "nat \<Rightarrow> u64 \<Rightarrow> ism \<Rightarrow> ParseError + (u64 \<times> ism)" where
  "parse_int_loop 0 res s = Inr (res, s)"
| "parse_int_loop (Suc i) res s =
     bindE (GetByteAndAdv s) (\<lambda>(val, s). parse_int_loop i (res OR push_bit (i * 8) (ucast val)) s)"

definition ParsePrimitiveIntValue :: "nat \<Rightarrow> ism \<Rightarrow> ParseError + (u64 \<times> ism)" where
  "ParsePrimitiveIntValue len s =
     (if len > 8 then Inl (ParseError ''The given byte size is larger than the target int type'')
      else parse_int_loop len 0 s)"

section \<open>Parsers\<close>

definition ProcRlpListHeader ::
  "ism \<Rightarrow> RlpEncodeType \<Rightarrow> byte \<Rightarrow> nat \<Rightarrow> ParseError + (nat \<times> ism \<times> nat)" where
  "ProcRlpListHeader s rlpType rlpVal byteLeft =
     (case rlpType of
        ListShort \<Rightarrow> Inr (unat rlpVal, s, byteLeft)
      | ListLong \<Rightarrow>
          bindE (CheckByteLeft byteLeft (unat rlpVal)) (\<lambda>byteLeft.
          bindE (ParsePrimitiveIntValue (unat rlpVal) s) (\<lambda>(left, s).
          Inr (unat left, s, byteLeft)))
      | _ \<Rightarrow> Inl (ParseError ''Expecting a list data''))"

definition ProcRlpBytesHeader ::
  "ism \<Rightarrow> RlpEncodeType \<Rightarrow> byte \<Rightarrow> nat \<Rightarrow> ParseError + (nat \<times> ism \<times> nat)" where
  "ProcRlpBytesHeader s rlpType rlpVal byteLeft =
     (case rlpType of
        BytesShort \<Rightarrow> Inr (unat rlpVal, s, byteLeft)
      | BytesLong \<Rightarrow>
          bindE (CheckByteLeft byteLeft (unat rlpVal)) (\<lambda>byteLeft.
          bindE (ParsePrimitiveIntValue (unat rlpVal) s) (\<lambda>(left, s).
          Inr (unat left, s, byteLeft)))
      | _ \<Rightarrow> Inl (ParseError ''Expecting a byte string data''))"

fun read_bytes :: "nat \<Rightarrow> ism \<Rightarrow> ParseError + (bytes \<times> ism)" where
  "read_bytes 0 s = Inr ([], s)"
| "read_bytes (Suc n) s =
     bindE (GetByteAndAdv s) (\<lambda>(b, s). bindE (read_bytes n s) (\<lambda>(bs, s). Inr (b # bs, s)))"

definition BytesParser ::
  "ism \<Rightarrow> RlpEncodeType \<Rightarrow> byte \<Rightarrow> nat \<Rightarrow> ParseError + (bytes \<times> ism \<times> nat)" where
  "BytesParser s rlpType rlpVal byteLeft =
     (if rlpType = Byte then Inr ([rlpVal], s, byteLeft)
      else bindE (ProcRlpBytesHeader s rlpType rlpVal byteLeft) (\<lambda>(left, s, byteLeft).
           bindE (CheckByteLeft byteLeft left) (\<lambda>byteLeft.
           bindE (read_bytes left s) (\<lambda>(obj, s). Inr (obj, s, byteLeft)))))"

lemma CheckByteLeft_le: "CheckByteLeft l n = Inr l' \<Longrightarrow> l' \<le> l \<and> n \<le> l"
  by (auto simp: CheckByteLeft_def split: if_splits)

lemma ProcRlpListHeader_le: "ProcRlpListHeader s t v l = Inr (n, s', l') \<Longrightarrow> l' \<le> l"
  by (auto simp: ProcRlpListHeader_def sum_simps dest!: CheckByteLeft_le split: RlpEncodeType.splits)

lemma ProcRlpBytesHeader_le: "ProcRlpBytesHeader s t v l = Inr (n, s', l') \<Longrightarrow> l' \<le> l"
  by (auto simp: ProcRlpBytesHeader_def sum_simps dest!: CheckByteLeft_le split: RlpEncodeType.splits)

lemma BytesParser_le: "BytesParser s t v l = Inr (b, s', l') \<Longrightarrow> l' \<le> l"
  by (auto simp: BytesParser_def sum_simps dest!: CheckByteLeft_le ProcRlpBytesHeader_le split: if_splits)

text \<open>The item loop of \<open>ListParserImpl::Parse\<close>, whose inner list parser is itself.\<close>

function ListItems :: "ism \<Rightarrow> nat \<Rightarrow> ParseError + (rlp list \<times> ism)" where
  "ListItems s left =
     (if left = 0 then Inr ([], s)
      else bindE (GetByteAndAdv s) (\<lambda>(nextByte, s).
        let left = left - 1;
            (nextType, nextVal) = DecodeRlpLeadingByte nextByte
        in if nextType \<in> {Byte, BytesShort, BytesLong} then
             bindE (BytesParser s nextType nextVal left) (\<lambda>(obj, s, left).
             bindE (ListItems s left) (\<lambda>(objs, s). Inr (RBytes obj # objs, s)))
           else
             bindE (ProcRlpListHeader s nextType nextVal left) (\<lambda>(inner, s, left).
             bindE (CheckByteLeft left inner) (\<lambda>left2.
             bindE (ListItems s inner) (\<lambda>(sub, s).
             bindE (ListItems s left2) (\<lambda>(objs, s). Inr (RList sub # objs, s)))))))"
  by pat_completeness auto
termination
  by (relation "measure snd")
    (auto dest!: CheckByteLeft_le ProcRlpListHeader_le BytesParser_le)

declare ListItems.simps [simp del]

definition ListParser ::
  "ism \<Rightarrow> RlpEncodeType \<Rightarrow> byte \<Rightarrow> nat \<Rightarrow> ParseError + (rlp list \<times> ism \<times> nat)" where
  "ListParser s rlpType rlpVal byteLeft =
     bindE (ProcRlpListHeader s rlpType rlpVal byteLeft) (\<lambda>(left, s, byteLeft).
     bindE (CheckByteLeft byteLeft left) (\<lambda>byteLeft.
     bindE (ListItems s left) (\<lambda>(objs, s). Inr (objs, s, byteLeft))))"

definition GeneralParser ::
  "ism \<Rightarrow> RlpEncodeType \<Rightarrow> byte \<Rightarrow> nat \<Rightarrow> ParseError + (rlp \<times> ism \<times> nat)" where
  "GeneralParser s rlpType rlpVal byteLeft =
     (if rlpType \<in> {Byte, BytesShort, BytesLong}
      then bindE (BytesParser s rlpType rlpVal byteLeft) (\<lambda>(b, s, l). Inr (RBytes b, s, l))
      else bindE (ListParser s rlpType rlpVal byteLeft) (\<lambda>(xs, s, l). Inr (RList xs, s, l)))"

text \<open>\<open>ParserBase::Parse\<close> over a container, for a parser of an object by its leading byte.\<close>

definition ParserBase_Parse ::
  "(ism \<Rightarrow> RlpEncodeType \<Rightarrow> byte \<Rightarrow> nat \<Rightarrow> ParseError + ('r \<times> ism \<times> nat)) \<Rightarrow> bytes \<Rightarrow> bool \<Rightarrow> ParseError + 'r" where
  "ParserBase_Parse parse ctn checkExtra =
     (if ctn = [] then Inl (ParseError ''Expecting more input data'')
      else
        bindE (CheckByteLeft (length ctn) 1) (\<lambda>left.
        bindE (GetByteAndAdv ctn) (\<lambda>(rlpByte, s).
        let (rlpType, rlpVal) = DecodeRlpLeadingByte rlpByte in
        bindE (parse s rlpType rlpVal left) (\<lambda>(res, s, left).
        if checkExtra \<and> left \<noteq> 0
        then Inl (ParseError ''Extra data found at the end of input data'')
        else Inr res))))"

text \<open>The item loop of \<open>StaticDictParserImpl\<close> over byte-string fields, with missing items
  allowed and extra items refused, as \<open>EthHeaderParser\<close> is configured.\<close>

function DictItems :: "nat \<Rightarrow> ism \<Rightarrow> nat \<Rightarrow> bytes list \<Rightarrow> ParseError + (bytes list \<times> ism)" where
  "DictItems numOfParsers s left parsed =
     (if left = 0 then Inr (parsed, s)
      else bindE (GetByteAndAdv s) (\<lambda>(nextByte, s).
        let left = left - 1;
            (nextType, nextVal) = DecodeRlpLeadingByte nextByte
        in if length parsed \<ge> numOfParsers then
             Inl (ParseError ''The static dict parser encounters more items than expected'')
           else
             bindE (BytesParser s nextType nextVal left) (\<lambda>(obj, s, left).
             DictItems numOfParsers s left (parsed @ [obj]))))"
  by pat_completeness auto
termination
  by (relation "measure (\<lambda>(n, s, left, p). left)") (auto dest!: BytesParser_le)

declare DictItems.simps [simp del]

definition StaticDictParser ::
  "nat \<Rightarrow> ism \<Rightarrow> RlpEncodeType \<Rightarrow> byte \<Rightarrow> nat \<Rightarrow> ParseError + (bytes list \<times> ism \<times> nat)" where
  "StaticDictParser numOfParsers s rlpType rlpVal byteLeft =
     bindE (ProcRlpListHeader s rlpType rlpVal byteLeft) (\<lambda>(left, s, byteLeft).
     bindE (CheckByteLeft byteLeft left) (\<lambda>byteLeft.
     bindE (DictItems numOfParsers s left []) (\<lambda>(vals, s). Inr (vals, s, byteLeft))))"

section \<open>Integers\<close>

fun int_of_bytes :: "bytes \<Rightarrow> u64" where
  "int_of_bytes [] = 0"
| "int_of_bytes (b # bs) = push_bit (length bs * 8) (ucast b) OR int_of_bytes bs"

lemma parse_int_loop_eq:
  "parse_int_loop (length bs) res (bs @ rest) = Inr (res OR int_of_bytes bs, rest)"
  by (induction bs arbitrary: res) (simp_all add: or.assoc)

lemma ParsePrimitiveIntValue_eq:
  "length bs \<le> 8 \<Longrightarrow> ParsePrimitiveIntValue (length bs) (bs @ rest) = Inr (int_of_bytes bs, rest)"
  by (simp add: ParsePrimitiveIntValue_def parse_int_loop_eq)

lemma bit_int_of_bytes:
  assumes "length bs \<le> 8"
  shows "bit (int_of_bytes bs) n \<longleftrightarrow>
     n div 8 < length bs \<and> bit (bs ! (length bs - 1 - n div 8)) (n mod 8)"
  using assms
proof (induction bs)
  case (Cons b bs)
  let ?k = "length bs"
  have IH: "bit (int_of_bytes bs) n \<longleftrightarrow> n div 8 < ?k \<and> bit (bs ! (?k - 1 - n div 8)) (n mod 8)"
    using Cons by simp
  have b8: "bit b j \<Longrightarrow> j < 8" for j
    using bit_imp_le_length [of b j] by simp
  consider (lt) "n div 8 < ?k" | (eq) "n div 8 = ?k" | (gt) "?k < n div 8" by linarith
  then show ?case
  proof cases
    case lt
    then have "n < ?k * 8" by (simp add: div_less_iff_less_mult)
    with lt IH show ?thesis
      by (simp add: bit_simps nth_Cons')
  next
    case eq
    then have n: "n = ?k * 8 + n mod 8" by (metis div_mult_mod_eq)
    have "n < 64" using eq Cons.prems by simp
    moreover have "n - ?k * 8 = n mod 8" using n by linarith
    moreover have "?k * 8 \<le> n" using n by linarith
    moreover have "n mod 8 < 64" using mod_less_divisor [of 8 n] by linarith
    ultimately show ?thesis
      using eq IH by (simp add: bit_simps)
  next
    case gt
    then have "\<not> bit b (n - ?k * 8)" using b8 by fastforce
    with gt IH show ?thesis by (auto simp: bit_simps)
  qed
qed simp

lemma zero_bytes_le: "zero_bytes v i \<le> i"
  by (induction i) auto

lemma zero_bytes_zero: "i - zero_bytes v i \<le> k \<Longrightarrow> k < i \<Longrightarrow> drop_bit (k * 8) v AND 0xFF = 0"
proof (induction i)
  case (Suc i)
  then show ?case by (cases "k = i") (auto split: if_splits)
qed simp

lemma zero_bytes_top: "zero_bytes v i < i \<Longrightarrow> drop_bit ((i - zero_bytes v i - 1) * 8) v AND 0xFF \<noteq> 0"
  by (induction i) auto

lemma EncodedWidth_le: "EncodedWidth v \<le> 8"
  by (simp add: EncodedWidth_def)

lemma length_EncodePrimitiveIntValue [simp]: "length (EncodePrimitiveIntValue v) = EncodedWidth v"
  by (simp add: EncodePrimitiveIntValue_def)

lemma bit_byte_of: "bit (ucast (drop_bit (i * 8) v AND 0xFF) :: byte) j \<longleftrightarrow> j < 8 \<and> bit (v::u64) (i * 8 + j)"
  unfolding ucast_and_0xff by (auto simp: bit_simps dest: bit_imp_le_length)

lemma int_of_bytes_encode: "int_of_bytes (EncodePrimitiveIntValue v) = v"
proof (rule bit_word_eqI)
  fix n assume "n < LENGTH(64)"
  then have n: "n < 64" by simp
  let ?w = "EncodedWidth v"
  have dm: "n div 8 * 8 + n mod 8 = n" by (rule div_mult_mod_eq)
  have zero: "\<not> bit v n" if "?w \<le> n div 8"
  proof -
    have "drop_bit (n div 8 * 8) v AND 0xFF = 0"
      using zero_bytes_zero [of 8 v "n div 8"] that n by (simp add: EncodedWidth_def)
    then have "\<not> bit (ucast (drop_bit (n div 8 * 8) v AND 0xFF) :: byte) (n mod 8)" by simp
    then show ?thesis unfolding bit_byte_of dm by simp
  qed
  show "bit (int_of_bytes (EncodePrimitiveIntValue v)) n = bit v n"
  proof (cases "n div 8 < ?w")
    case True
    then have "EncodePrimitiveIntValue v ! (?w - 1 - n div 8) = ucast (drop_bit (n div 8 * 8) v AND 0xFF)"
      by (simp add: EncodePrimitiveIntValue_def rev_nth)
    then show ?thesis
      using bit_int_of_bytes [of "EncodePrimitiveIntValue v" n] EncodedWidth_le [of v] True
      by (simp add: bit_byte_of dm del: unsigned_and_eq)
  next
    case False
    then show ?thesis
      using bit_int_of_bytes [of "EncodePrimitiveIntValue v" n] EncodedWidth_le [of v] zero by simp
  qed
qed

lemma EncodedWidth_pos: "v \<noteq> 0 \<Longrightarrow> 0 < EncodedWidth v"
  using int_of_bytes_encode [of v] by (cases "EncodedWidth v") (auto simp: EncodePrimitiveIntValue_def)

section \<open>Leading bytes\<close>

lemma unat_of_nat_byte: "n < 256 \<Longrightarrow> unat (of_nat n :: byte) = n"
  by (simp add: unat_of_nat)

lemma decode_lead:
  "x \<le> 0x7F \<Longrightarrow> DecodeRlpLeadingByte x = (Byte, x)"
  "n \<le> 55 \<Longrightarrow> DecodeRlpLeadingByte (of_nat (0x80 + n)) = (BytesShort, of_nat n)"
  "0 < w \<Longrightarrow> w \<le> 8 \<Longrightarrow> DecodeRlpLeadingByte (of_nat (0xB7 + w)) = (BytesLong, of_nat w)"
  "n \<le> 55 \<Longrightarrow> DecodeRlpLeadingByte (of_nat (0xC0 + n)) = (ListShort, of_nat n)"
  "0 < w \<Longrightarrow> w \<le> 8 \<Longrightarrow> DecodeRlpLeadingByte (of_nat (0xF7 + w)) = (ListLong, of_nat w)"
proof -
  have u: "unat (of_nat m :: byte) = m" if "m < 256" for m using that by (rule unat_of_nat_byte)
  have le: "(of_nat m :: byte) \<le> of_nat k \<longleftrightarrow> m \<le> k" if "m < 256" "k < 256" for m k
    using that by (simp add: word_le_nat_alt u)
  show "x \<le> 0x7F \<Longrightarrow> DecodeRlpLeadingByte x = (Byte, x)"
    by (simp add: DecodeRlpLeadingByte_def)
  show "n \<le> 55 \<Longrightarrow> DecodeRlpLeadingByte (of_nat (0x80 + n)) = (BytesShort, of_nat n)"
    using le [of "0x80 + n" "0x7F"] le [of "0x80 + n" "0xB7"] by (simp add: DecodeRlpLeadingByte_def)
  show "0 < w \<Longrightarrow> w \<le> 8 \<Longrightarrow> DecodeRlpLeadingByte (of_nat (0xB7 + w)) = (BytesLong, of_nat w)"
    using le [of "0xB7 + w" "0x7F"] le [of "0xB7 + w" "0xB7"] le [of "0xB7 + w" "0xBF"]
    by (simp add: DecodeRlpLeadingByte_def)
  show "n \<le> 55 \<Longrightarrow> DecodeRlpLeadingByte (of_nat (0xC0 + n)) = (ListShort, of_nat n)"
    using le [of "0xC0 + n" "0x7F"] le [of "0xC0 + n" "0xB7"] le [of "0xC0 + n" "0xBF"] le [of "0xC0 + n" "0xF7"]
    by (simp add: DecodeRlpLeadingByte_def)
  show "0 < w \<Longrightarrow> w \<le> 8 \<Longrightarrow> DecodeRlpLeadingByte (of_nat (0xF7 + w)) = (ListLong, of_nat w)"
    using le [of "0xF7 + w" "0x7F"] le [of "0xF7 + w" "0xB7"] le [of "0xF7 + w" "0xBF"] le [of "0xF7 + w" "0xF7"]
    by (simp add: DecodeRlpLeadingByte_def)
qed

section \<open>Objects\<close>

lemma read_bytes_eq: "read_bytes (length b) (b @ rest) = Inr (b, rest)"
  by (induction b) simp_all

lemma CheckByteLeft_ok: "n \<le> l \<Longrightarrow> CheckByteLeft l n = Inr (l - n)"
  by (simp add: CheckByteLeft_def)

text \<open>What the code does with the next object of the input: its leading byte, then the general
  parser.\<close>

definition parse_next :: "ism \<Rightarrow> nat \<Rightarrow> ParseError + (rlp \<times> ism \<times> nat)" where
  "parse_next s left = bindE (GetByteAndAdv s) (\<lambda>(b, s).
     let (t, v) = DecodeRlpLeadingByte b in GeneralParser s t v (left - 1))"

lemma bindE_pair3: "bindE (bindE m (\<lambda>(a, b, c). Inr (f a, b, c))) g
     = bindE m (\<lambda>(a, b, c). g (f a, b, c))"
  by (auto simp: bindE_def split: sum.splits prod.splits)

lemma ListItems_next:
  assumes "0 < left"
  shows "ListItems s left = bindE (parse_next s left) (\<lambda>(obj, s, left).
     bindE (ListItems s left) (\<lambda>(objs, s). Inr (obj # objs, s)))"
  using assms
  by (subst ListItems.simps)
    (auto simp: parse_next_def GeneralParser_def ListParser_def bindE_def
      split: sum.splits prod.splits)

text \<open>The header of a byte string or a list of \<open>n\<close> bytes, read back.\<close>

lemma size_back: "n < 2 ^ 64 \<Longrightarrow> unat (of_nat n :: u64) = n"
  by (simp add: unat_of_nat)

lemma lead_length:
  assumes "n < 2 ^ 64" "55 < n"
  shows "0 < EncodedWidth (of_nat n) \<and> EncodedWidth (of_nat n) \<le> 8"
proof -
  have "(of_nat n :: u64) \<noteq> 0" using size_back [OF assms(1)] assms(2) by force
  then show ?thesis using EncodedWidth_pos EncodedWidth_le by blast
qed

lemma ParseSize_back:
  assumes "n < 2 ^ 64"
  shows "ParsePrimitiveIntValue (EncodedWidth (of_nat n)) (EncodePrimitiveIntValue (of_nat n) @ rest)
     = Inr (of_nat n, rest)"
  using ParsePrimitiveIntValue_eq [of "EncodePrimitiveIntValue (of_nat n)" rest] EncodedWidth_le
  by (simp add: int_of_bytes_encode)

lemma parse_bytes:
  assumes n: "length b < 2 ^ 64" and l: "length (SerializeBytes b) \<le> left"
  shows "parse_next (SerializeBytes b @ rest) left = Inr (RBytes b, rest, left - length (SerializeBytes b))"
proof -
  consider (one) x where "b = [x]" "x \<le> 0x7F"
    | (short) "\<not> (length b = 1 \<and> b ! 0 \<le> 0x7F)" "length b \<le> 55"
    | (long) "55 < length b"
  proof (cases "length b = 1 \<and> b ! 0 \<le> 0x7F")
    case True
    then obtain x where "b = [x]" by (auto simp: length_Suc_conv)
    with True one show ?thesis by simp
  next
    case False
    then show ?thesis using short long by (cases "length b \<le> 55") auto
  qed
  then show ?thesis
  proof cases
    case one
    then show ?thesis
      by (simp add: SerializeBytes_def parse_next_def decode_lead(1) GeneralParser_def BytesParser_def)
  next
    case short
    then have s: "SerializeBytes b = of_nat (0x80 + length b) # b"
      unfolding SerializeBytes_def GenLeadingBytes_Bytes_def by (simp only: if_False if_True append_Cons append_Nil)
    have "unat (of_nat (length b) :: byte) = length b" using short(2) by (intro unat_of_nat_byte) simp
    then show ?thesis
      using l short(2) unfolding s
      by (simp only: parse_next_def append_Cons GetByteAndAdv.simps bindE_Inr prod.case decode_lead(2) Let_def)
        (simp add: GeneralParser_def BytesParser_def ProcRlpBytesHeader_def CheckByteLeft_ok read_bytes_eq)
  next
    case long
    let ?w = "EncodedWidth (of_nat (length b))"
    let ?e = "EncodePrimitiveIntValue (of_nat (length b))"
    have w: "0 < ?w" "?w \<le> 8" using lead_length [OF n long] by auto
    have s: "SerializeBytes b = of_nat (0xB7 + ?w) # ?e @ b"
      using long by (simp add: SerializeBytes_def GenLeadingBytes_Bytes_def Let_def)
    have u: "unat (of_nat ?w :: byte) = ?w" using w(2) by (intro unat_of_nat_byte) simp
    show ?thesis
      using l size_back [OF n] unfolding s
      by (simp only: parse_next_def append_Cons GetByteAndAdv.simps bindE_Inr prod.case decode_lead(3) [OF w] Let_def append_assoc)
        (simp add: GeneralParser_def BytesParser_def ProcRlpBytesHeader_def CheckByteLeft_ok read_bytes_eq u ParseSize_back [OF n])
  qed
qed

lemma parse_list_header:
  assumes n: "length c < 2 ^ 64" and l: "length (SerializeList c) \<le> left"
    and items: "ListItems (c @ rest) (length c) = Inr (xs, rest)"
  shows "parse_next (SerializeList c @ rest) left = Inr (RList xs, rest, left - length (SerializeList c))"
proof (cases "length c \<le> 55")
  case True
  then have s: "SerializeList c = of_nat (0xC0 + length c) # c"
    unfolding SerializeList_def GenLeadingBytes_List_def by (simp only: if_True append_Cons append_Nil)
  have "unat (of_nat (length c) :: byte) = length c" using True by (intro unat_of_nat_byte) simp
  then show ?thesis
    using l True items unfolding s
    by (simp only: parse_next_def append_Cons GetByteAndAdv.simps bindE_Inr prod.case decode_lead(4) Let_def)
      (simp add: GeneralParser_def ListParser_def ProcRlpListHeader_def CheckByteLeft_ok)
next
  case False
  then have long: "55 < length c" by simp
  let ?w = "EncodedWidth (of_nat (length c))"
  let ?e = "EncodePrimitiveIntValue (of_nat (length c))"
  have w: "0 < ?w" "?w \<le> 8" using lead_length [OF n long] by auto
  have s: "SerializeList c = of_nat (0xF7 + ?w) # ?e @ c"
    using long by (simp add: SerializeList_def GenLeadingBytes_List_def Let_def)
  have u: "unat (of_nat ?w :: byte) = ?w" using w(2) by (intro unat_of_nat_byte) simp
  show ?thesis
    using l size_back [OF n] items unfolding s
    by (simp only: parse_next_def append_Cons GetByteAndAdv.simps bindE_Inr prod.case decode_lead(5) [OF w] Let_def append_assoc)
      (simp add: GeneralParser_def ListParser_def ProcRlpListHeader_def CheckByteLeft_ok u ParseSize_back [OF n])
qed

lemma length_Serialize: "length c \<le> length (SerializeList c)" "length b \<le> length (SerializeBytes b)"
  by (simp_all add: SerializeList_def SerializeBytes_def)

lemma Serialize_pos: "0 < length (SerializeList c)" "0 < length (SerializeBytes b)"
  by (cases b, auto simp: SerializeList_def SerializeBytes_def GenLeadingBytes_List_def GenLeadingBytes_Bytes_def Let_def)

lemma Write_pos: "0 < length (Write x)"
  by (cases x) (simp_all only: Write.simps Serialize_pos)

lemma ListItems_concat:
  assumes "\<And>x rest left. x \<in> set xs \<Longrightarrow> length (Write x) \<le> left \<Longrightarrow>
      parse_next (Write x @ rest) left = Inr (x, rest, left - length (Write x))"
  shows "ListItems (concat (map Write xs) @ rest) (length (concat (map Write xs))) = Inr (xs, rest)"
  using assms
proof (induction xs)
  case Nil
  then show ?case by (simp add: ListItems.simps)
next
  case (Cons x xs)
  have "0 < length (concat (map Write (x # xs)))" using Write_pos [of x] by simp
  moreover have "parse_next (Write x @ concat (map Write xs) @ rest) (length (concat (map Write (x # xs))))
      = Inr (x, concat (map Write xs) @ rest, length (concat (map Write xs)))"
    using Cons.prems [of x "length (concat (map Write (x # xs)))" "concat (map Write xs) @ rest"] by simp
  ultimately show ?case
    using Cons.IH Cons.prems by (simp add: ListItems_next)
qed

lemma parse_next_Write:
  "length (Write x) < 2 ^ 64 \<Longrightarrow> length (Write x) \<le> left \<Longrightarrow>
   parse_next (Write x @ rest) left = Inr (x, rest, left - length (Write x))"
proof (induction x arbitrary: rest left)
  case (RBytes b)
  then show ?case using parse_bytes [of b left rest] length_Serialize(2) [of b] by simp
next
  case (RList xs)
  let ?c = "concat (map Write xs)"
  have c: "length ?c < 2 ^ 64" using RList.prems length_Serialize(1) [of ?c] by simp
  have "length (Write x) < 2 ^ 64" if "x \<in> set xs" for x
  proof -
    have "length (Write x) \<le> length ?c"
      using that by (simp add: length_concat member_le_sum_list)
    with c show ?thesis by simp
  qed
  with RList.IH have "ListItems (?c @ rest) (length ?c) = Inr (xs, rest)"
    by (intro ListItems_concat) blast
  from parse_list_header [OF c _ this] RList.prems show ?case by simp
qed

text \<open>Parsing what was written gives the object back.\<close>

lemma rlp_roundtrip_aux:
  assumes "length (Write x) < 2 ^ 64"
  shows "ParserBase_Parse GeneralParser (Write x) True = Inr x"
proof -
  obtain b t where w: "Write x = b # t" using Write_pos [of x] by (cases "Write x") auto
  have "parse_next (b # t) (length (b # t)) = Inr (x, [], 0)"
    using parse_next_Write [OF assms, of "length (Write x)" "[]"] by (simp add: w)
  then show ?thesis
    by (simp add: ParserBase_Parse_def w parse_next_def CheckByteLeft_ok split_beta)
qed

lemma length_GenLeading: "length (GenLeadingBytes_Bytes n) = CalcLeadingBytesSize n"
  "length (GenLeadingBytes_List n) = CalcLeadingBytesSize n"
  by (simp_all add: GenLeadingBytes_Bytes_def GenLeadingBytes_List_def CalcLeadingBytesSize_def Let_def)

lemma CalcSize_Write_aux: "CalcSize x = length (Write x)"
proof (induction x)
  case (RBytes b)
  then show ?case
    by (simp add: CalcSerializedSize_Bytes_def SerializeBytes_def length_GenLeading)
next
  case (RList xs)
  then have "map CalcSize xs = map (\<lambda>x. length (Write x)) xs" by simp
  then show ?case
    by (simp add: CalcSerializedSize_List_def SerializeList_def length_GenLeading length_concat comp_def del: map_eq_conv)
qed

section \<open>Static dicts\<close>

lemma GeneralParser_bytes:
  "GeneralParser s t v l = Inr (RBytes b, s', l') \<Longrightarrow> BytesParser s t v l = Inr (b, s', l')"
  by (auto simp: GeneralParser_def sum_simps split: if_splits)

lemma DictItems_concat:
  assumes "length parsed + length vs \<le> N" and "length (concat (map SerializeBytes vs)) < 2 ^ 64"
  shows "DictItems N (concat (map SerializeBytes vs) @ rest) (length (concat (map SerializeBytes vs))) parsed
     = Inr (parsed @ vs, rest)"
  using assms
proof (induction vs arbitrary: parsed)
  case Nil
  then show ?case by (simp add: DictItems.simps)
next
  case (Cons v vs)
  let ?c = "concat (map SerializeBytes vs)"
  obtain x t where w: "SerializeBytes v = x # t" using Serialize_pos(2) [of v] by (cases "SerializeBytes v") auto
  have v: "length v < 2 ^ 64" using Cons.prems(2) length_Serialize(2) [of v] by simp
  have "parse_next (SerializeBytes v @ ?c @ rest) (length (SerializeBytes v @ ?c)) = Inr (RBytes v, ?c @ rest, length ?c)"
    using parse_bytes [OF v, of "length (SerializeBytes v @ ?c)" "?c @ rest"] by simp
  then have "BytesParser (t @ ?c @ rest) (fst (DecodeRlpLeadingByte x)) (snd (DecodeRlpLeadingByte x)) (length (t @ ?c))
      = Inr (v, ?c @ rest, length ?c)"
    by (intro GeneralParser_bytes) (simp add: parse_next_def w split_beta)
  then show ?case
    using Cons.IH [of "parsed @ [v]"] Cons.prems
    by (subst DictItems.simps) (simp add: w split_beta)
qed

lemma StaticDict_roundtrip:
  assumes "length vs - skip \<le> N" and "length (WriteStaticDict vs skip) < 2 ^ 64"
  shows "ParserBase_Parse (StaticDictParser N) (WriteStaticDict vs skip) True = Inr (take (length vs - skip) vs)"
proof -
  let ?vs = "take (length vs - skip) vs"
  let ?c = "concat (map SerializeBytes ?vs)"
  have c: "length ?c < 2 ^ 64" using assms(2) length_Serialize(1) [of ?c] by (simp add: WriteStaticDict_def)
  have items: "DictItems N ?c (length ?c) [] = Inr (?vs, [])"
    using DictItems_concat [of "[]" ?vs N "[]"] c assms(1) by simp
  show ?thesis
  proof (cases "length ?c \<le> 55")
    case True
    then have s: "WriteStaticDict vs skip = of_nat (0xC0 + length ?c) # ?c"
      unfolding WriteStaticDict_def SerializeList_def GenLeadingBytes_List_def by (simp only: if_True append_Cons append_Nil)
    have "unat (of_nat (length ?c) :: byte) = length ?c" using True by (intro unat_of_nat_byte) simp
    then show ?thesis
      unfolding s ParserBase_Parse_def
      by (simp only: GetByteAndAdv.simps bindE_Inr prod.case decode_lead(4) [OF True] Let_def)
        (simp add: StaticDictParser_def ProcRlpListHeader_def CheckByteLeft_ok items)
  next
    case False
    then have long: "55 < length ?c" by simp
    let ?w = "EncodedWidth (of_nat (length ?c))"
    let ?e = "EncodePrimitiveIntValue (of_nat (length ?c))"
    have w: "0 < ?w" "?w \<le> 8" using lead_length [OF c long] by auto
    have s: "WriteStaticDict vs skip = of_nat (0xF7 + ?w) # ?e @ ?c"
      unfolding WriteStaticDict_def SerializeList_def GenLeadingBytes_List_def if_not_P [OF False] Let_def by simp
    have u: "unat (of_nat ?w :: byte) = ?w" using w(2) by (intro unat_of_nat_byte) simp
    show ?thesis
      using size_back [OF c] unfolding s ParserBase_Parse_def
      by (simp only: GetByteAndAdv.simps bindE_Inr prod.case decode_lead(5) [OF w] Let_def)
        (simp add: StaticDictParser_def ProcRlpListHeader_def CheckByteLeft_ok u ParseSize_back [OF c] items)
  qed
qed

section \<open>Properties\<close>

text \<open>C25. Parsing what the generic writer wrote gives the object back: any nesting of byte
  strings and lists whose encoding is shorter than \<open>2 ^ 64\<close> bytes.\<close>

theorem rlp_roundtrip:
  assumes "length (Write x) < 2 ^ 64"
  shows "ParserBase_Parse GeneralParser (Write x) True = Inr x"
  by (rule rlp_roundtrip_aux [OF assms])

theorem rlp_roundtrip_witness:
  "ParserBase_Parse GeneralParser [0xC5, 0x83, 0x61, 0x62, 0x63, 0xC0] True
     = Inr (RList [RBytes [0x61, 0x62, 0x63], RList []])"
proof -
  have "Write (RList [RBytes [0x61, 0x62, 0x63], RList []]) = [0xC5, 0x83, 0x61, 0x62, 0x63, 0xC0]"
    by code_simp
  with rlp_roundtrip [of "RList [RBytes [0x61, 0x62, 0x63], RList []]"] show ?thesis by simp
qed

text \<open>Bytes after a complete object are an error when the parser checks for extra data.\<close>

theorem rlp_extra_rejected:
  assumes "length (Write x) < 2 ^ 64" and "extra \<noteq> []"
  shows "ParserBase_Parse GeneralParser (Write x @ extra) True
     = Inl (ParseError ''Extra data found at the end of input data'')"
proof -
  obtain b t where w: "Write x = b # t" using Write_pos [of x] by (cases "Write x") auto
  have "parse_next (b # t @ extra) (length (b # t @ extra)) = Inr (x, extra, length extra)"
    using parse_next_Write [OF assms(1), of "length (Write x @ extra)" extra] by (simp add: w)
  then show ?thesis
    using assms(2) by (simp add: ParserBase_Parse_def w parse_next_def CheckByteLeft_ok split_beta)
qed

theorem rlp_extra_rejected_witness:
  "ParserBase_Parse GeneralParser (Write (RBytes [0x61]) @ [0]) True
     = Inl (ParseError ''Extra data found at the end of input data'')"
proof -
  have "length (Write (RBytes [0x61])) < 2 ^ 64" by (simp add: SerializeBytes_def)
  then show ?thesis using rlp_extra_rejected [of "RBytes [0x61]" "[0]"] by simp
qed

text \<open>The size the writer computes before it writes is the size of what it writes.\<close>

theorem CalcSize_Write: "CalcSize x = length (Write x)"
  by (rule CalcSize_Write_aux)

end
