(* ===== verification/Keccak.thy ===== *)
theory Keccak
  imports HashStream
begin

text \<open>
  \<open>EclipseMonitor/Eth/Keccak256.hpp\<close>: the Keccak-f[1600] permutation and the sponge, as the
  header writes them. The byte array \<open>a[200]\<close> is a list of bytes; \<open>Keccakf\<close> views it as 25
  little-endian 64-bit lanes, as the cast in the code does on the platforms it runs on. The
  permutation is shown to be the composition of the step mappings of FIPS 202, with the
  rotation offsets and round constants generated by the algorithms of the standard, and
  \<open>Keccak256\<close> the sponge over the padded message.
\<close>

definition GetRho :: "nat list" where
  "GetRho = [1, 3, 6, 10, 15, 21, 28, 36, 45, 55, 2, 14, 27, 41, 56, 8, 25, 43, 62, 18, 39, 61, 20, 44]"

definition GetPi :: "nat list" where
  "GetPi = [10, 7, 11, 17, 18, 3, 5, 16, 8, 21, 24, 4, 15, 23, 19, 13, 12, 2, 20, 14, 22, 9, 6, 1]"

definition GetRC :: "u64 list" where
  "GetRC = [1, 0x8082, 0x800000000000808a, 0x8000000080008000,
     0x808b, 0x80000001, 0x8000000080008081, 0x8000000000008009,
     0x8a, 0x88, 0x80008009, 0x8000000a,
     0x8000808b, 0x800000000000008b, 0x8000000000008089, 0x8000000000008003,
     0x8000000000008002, 0x8000000000000080, 0x800a, 0x800000008000000a,
     0x8000000080008081, 0x8000000000008080, 0x80000001, 0x8000000080008008]"

definition Rol :: "u64 \<Rightarrow> nat \<Rightarrow> u64" where
  "Rol x s = push_bit s x OR drop_bit (64 - s) x"

text \<open>\<open>For5(v, s, e)\<close> runs \<open>e\<close> with \<open>v = 0, s, 2 s, 3 s, 4 s\<close>.\<close>

definition For5 :: "nat \<Rightarrow> (nat \<Rightarrow> 'a \<Rightarrow> 'a) \<Rightarrow> 'a \<Rightarrow> 'a" where
  "For5 s e st = fold e [0, s, 2 * s, 3 * s, 4 * s] st"

definition keccak_theta :: "u64 list \<Rightarrow> u64 list" where
  "keccak_theta a =
     (let b = For5 1 (\<lambda>x b. For5 5 (\<lambda>y b. b[x := b ! x XOR a ! (x + y)]) (b[x := 0])) (replicate 5 0)
      in For5 1 (\<lambda>x a. For5 5 (\<lambda>y a. a[y + x := a ! (y + x) XOR
           (b ! ((x + 4) mod 5) XOR Rol (b ! ((x + 1) mod 5)) 1)]) a) a)"

definition keccak_rho_pi :: "u64 list \<Rightarrow> u64 list" where
  "keccak_rho_pi a =
     fst (fold (\<lambda>x (a, t). (a[GetPi ! x := Rol t (GetRho ! x)], a ! (GetPi ! x))) [0..<24] (a, a ! 1))"

definition keccak_chi :: "u64 list \<Rightarrow> u64 list" where
  "keccak_chi a =
     For5 5 (\<lambda>y a.
       let b = For5 1 (\<lambda>x b. b[x := a ! (y + x)]) (replicate 5 0)
       in For5 1 (\<lambda>x a. a[y + x := b ! x XOR (NOT (b ! ((x + 1) mod 5)) AND b ! ((x + 2) mod 5))]) a) a"

definition keccak_iota :: "nat \<Rightarrow> u64 list \<Rightarrow> u64 list" where
  "keccak_iota i a = a[0 := a ! 0 XOR GetRC ! i]"

definition keccak_round :: "nat \<Rightarrow> u64 list \<Rightarrow> u64 list" where
  "keccak_round i a = keccak_iota i (keccak_chi (keccak_rho_pi (keccak_theta a)))"

definition lanes_of :: "bytes \<Rightarrow> u64 list" where
  "lanes_of a = map (\<lambda>i. GET_UINT64_LE a (8 * i)) [0..<25]"

definition Keccakf :: "bytes \<Rightarrow> bytes" where
  "Keccakf a = concat (map BYTES64_LE (fold keccak_round [0..<24] (lanes_of a)))"

definition Xorin :: "bytes \<Rightarrow> bytes \<Rightarrow> nat \<Rightarrow> bytes" where
  "Xorin dst src len = fold (\<lambda>i dst. dst[i := dst ! i XOR src ! i]) [0..<len] dst"

text \<open>\<open>FoldP\<close> with \<open>Xorin\<close>, the absorbing loop: the state and what is left of the input.\<close>

function FoldP_Xorin :: "bytes \<Rightarrow> bytes \<Rightarrow> nat \<Rightarrow> bytes \<times> bytes" where
  "FoldP_Xorin a input rate =
     (if 0 < rate \<and> rate \<le> length input
      then FoldP_Xorin (Keccakf (Xorin a input rate)) (drop rate input) rate
      else (a, input))"
  by pat_completeness auto
termination
  by (relation "measure (\<lambda>(a, input, rate). length input)") auto

text \<open>\<open>FoldP\<close> with \<open>Setout\<close> and the last \<open>Setout\<close>, the squeezing of \<open>outlen\<close> bytes.\<close>

function FoldP_Setout :: "bytes \<Rightarrow> nat \<Rightarrow> nat \<Rightarrow> bytes" where
  "FoldP_Setout a outlen rate =
     (if 0 < rate \<and> rate \<le> outlen
      then take rate a @ FoldP_Setout (Keccakf a) (outlen - rate) rate
      else take outlen a)"
  by pat_completeness auto
termination
  by (relation "measure (\<lambda>(a, outlen, rate). outlen)") auto

declare FoldP_Xorin.simps [simp del] FoldP_Setout.simps [simp del]

definition keccak_Hash :: "nat \<Rightarrow> bytes \<Rightarrow> nat \<Rightarrow> byte \<Rightarrow> bytes" where
  "keccak_Hash outlen input rate delim =
     (let a = replicate 200 0;
          (a, input) = FoldP_Xorin a input rate;
          inlen = length input;
          a = a[inlen := a ! inlen XOR delim];
          a = a[rate - 1 := a ! (rate - 1) XOR 0x80];
          a = Xorin a input inlen;
          a = Keccakf a
      in FoldP_Setout a outlen rate)"

definition Keccak256 :: "bytes \<Rightarrow> bytes" where
  "Keccak256 input = keccak_Hash 32 input (200 - 256 div 4) 0x01"

section \<open>FIPS 202\<close>

text \<open>The lane \<open>A[x, y]\<close>, coordinates modulo 5, is at \<open>x + 5 y\<close>; \<open>klanes f\<close> is the state
  with \<open>A[x, y] = f x y\<close>.\<close>

definition lane :: "u64 list \<Rightarrow> nat \<Rightarrow> nat \<Rightarrow> u64" where
  "lane a x y = a ! (x mod 5 + 5 * (y mod 5))"

definition klanes :: "(nat \<Rightarrow> nat \<Rightarrow> u64) \<Rightarrow> u64 list" where
  "klanes f = map (\<lambda>n. f (n mod 5) (n div 5)) [0..<25]"

definition fips_C :: "u64 list \<Rightarrow> nat \<Rightarrow> u64" where
  "fips_C a x = lane a x 0 XOR lane a x 1 XOR lane a x 2 XOR lane a x 3 XOR lane a x 4"

definition fips_theta :: "u64 list \<Rightarrow> u64 list" where
  "fips_theta a = klanes (\<lambda>x y. lane a x y XOR (fips_C a (x + 4) XOR word_rotl 1 (fips_C a (x + 1))))"

text \<open>The offset of lane \<open>x, y\<close>: walking \<open>(x, y) := (y, 2 x + 3 y)\<close> from \<open>(1, 0)\<close>, the lane met
  at step \<open>t\<close> is rotated by \<open>(t + 1) (t + 2) / 2\<close>.\<close>

definition fips_walk :: "nat \<Rightarrow> nat \<times> nat" where
  "fips_walk t = ((\<lambda>(x, y). (y, (2 * x + 3 * y) mod 5)) ^^ t) (1, 0)"

definition fips_offset :: "nat \<Rightarrow> nat \<Rightarrow> nat" where
  "fips_offset x y =
     (case find (\<lambda>t. fips_walk t = (x mod 5, y mod 5)) [0..<24] of
        None \<Rightarrow> 0 | Some t \<Rightarrow> ((t + 1) * (t + 2) div 2) mod 64)"

definition fips_rho :: "u64 list \<Rightarrow> u64 list" where
  "fips_rho a = klanes (\<lambda>x y. word_rotl (fips_offset x y) (lane a x y))"

definition fips_pi :: "u64 list \<Rightarrow> u64 list" where
  "fips_pi a = klanes (\<lambda>x y. lane a (x + 3 * y) x)"

definition fips_chi :: "u64 list \<Rightarrow> u64 list" where
  "fips_chi a = klanes (\<lambda>x y. lane a x y XOR (NOT (lane a (x + 1) y) AND lane a (x + 2) y))"

text \<open>The round constant: bit \<open>2 ^ j - 1\<close> is \<open>rc(j + 7 i)\<close>, from the shift register of Algorithm 5.\<close>

definition fips_lfsr :: "bool list \<Rightarrow> bool list" where
  "fips_lfsr R =
     (let R = False # R;
          R = R[0 := (R ! 0 \<noteq> R ! 8)];
          R = R[4 := (R ! 4 \<noteq> R ! 8)];
          R = R[5 := (R ! 5 \<noteq> R ! 8)];
          R = R[6 := (R ! 6 \<noteq> R ! 8)]
      in take 8 R)"

definition fips_R0 :: "bool list" where
  "fips_R0 = [True, False, False, False, False, False, False, False]"

definition fips_rc :: "nat \<Rightarrow> bool" where
  "fips_rc t = hd ((fips_lfsr ^^ (t mod 255)) fips_R0)"

definition fips_RC :: "nat \<Rightarrow> u64" where
  "fips_RC i = fold (\<lambda>j v. if fips_rc (j + 7 * i) then v OR push_bit (2 ^ j - 1) 1 else v) [0..<7] 0"

definition fips_iota :: "nat \<Rightarrow> u64 list \<Rightarrow> u64 list" where
  "fips_iota i a = klanes (\<lambda>x y. if x = 0 \<and> y = 0 then lane a x y XOR fips_RC i else lane a x y)"

definition fips_round :: "nat \<Rightarrow> u64 list \<Rightarrow> u64 list" where
  "fips_round i a = fips_iota i (fips_chi (fips_pi (fips_rho (fips_theta a))))"

section \<open>The permutation of the code is the one of the standard\<close>

fun lfsr_bits :: "nat \<Rightarrow> bool list \<Rightarrow> bool list" where
  "lfsr_bits 0 R = []"
| "lfsr_bits (Suc n) R = hd R # lfsr_bits n (fips_lfsr R)"

lemma lfsr_bits_nth: "t < n \<Longrightarrow> lfsr_bits n R ! t = hd ((fips_lfsr ^^ t) R)"
proof (induction n arbitrary: t R)
  case (Suc n)
  then show ?case by (cases t) (simp_all add: funpow_swap1)
qed simp

definition rc_bits :: "bool list" where
  "rc_bits =
    [True, False, False, False, False, False, False, False, True, False, True, True, False, False, False,
     True, True, True, True, False, True, False, False, False, False, True, True, True, True, True, True,
     True, True, False, False, True, False, False, False, False, True, False, True, False, False, True,
     True, True, True, True, False, True, False, True, False, True, False, True, True, True, False,
     False, False, False, False, True, True, False, False, False, True, False, True, False, True, True,
     False, False, True, True, False, False, True, False, True, True, True, True, True, True, False,
     True, True, True, True, False, False, True, True, False, True, True, True, False, True, True, True,
     False, False, True, False, True, False, True, False, False, True, False, True, False, False, False,
     True, False, False, True, False, True, True, False, True, False, False, False, True, True, False,
     False, True, True, True, False, False, True, True, True, True, False, False, False, True, True,
     False, True, True, False, False, False, False, True, False, False, False, True, False, True, True,
     True]"

lemma rc_bits_lfsr: "lfsr_bits 168 fips_R0 = rc_bits"
  by code_simp

lemma fips_rc_bits: "t < 168 \<Longrightarrow> fips_rc t = rc_bits ! t"
  using lfsr_bits_nth [of t 168 fips_R0] by (simp add: fips_rc_def rc_bits_lfsr)

lemma RC_bits: "map (\<lambda>i. fold (\<lambda>j v. if rc_bits ! (j + 7 * i) then v OR push_bit (2 ^ j - 1) 1 else v) [0..<7] 0) [0..<24] = GetRC"
  by code_simp

lemma fips_RC_eq: "i < 24 \<Longrightarrow> fips_RC i = GetRC ! i"
proof -
  assume i: "i < 24"
  have "fips_RC i = fold (\<lambda>j v. if rc_bits ! (j + 7 * i) then v OR push_bit (2 ^ j - 1) 1 else v) [0..<7] 0"
    unfolding fips_RC_def by (rule fold_cong) (use i in \<open>auto simp: fips_rc_bits\<close>)
  then show ?thesis
    using i unfolding RC_bits [symmetric] by (simp del: upt_rec_numeral)
qed

lemma fips_offsets:
  "fips_offset 0 0 = 0" "fips_offset (Suc 0) 0 = 1" "fips_offset 2 0 = 62"
  "fips_offset 3 0 = 28" "fips_offset 4 0 = 27" "fips_offset 0 (Suc 0) = 36"
  "fips_offset (Suc 0) (Suc 0) = 44" "fips_offset 2 (Suc 0) = 6" "fips_offset 3 (Suc 0) = 55"
  "fips_offset 4 (Suc 0) = 20" "fips_offset 0 2 = 3" "fips_offset (Suc 0) 2 = 10"
  "fips_offset 2 2 = 43" "fips_offset 3 2 = 25" "fips_offset 4 2 = 39"
  "fips_offset 0 3 = 41" "fips_offset (Suc 0) 3 = 45" "fips_offset 2 3 = 15"
  "fips_offset 3 3 = 21" "fips_offset 4 3 = 8" "fips_offset 0 4 = 18"
  "fips_offset (Suc 0) 4 = 2" "fips_offset 2 4 = 61" "fips_offset 3 4 = 56"
  "fips_offset 4 4 = 14"
  by code_simp+

lemma Rol_rotl: "0 < n \<Longrightarrow> n < 64 \<Longrightarrow> Rol x n = word_rotl n x"
  by (simp add: Rol_def rotl64)

lemma length25:
  assumes "length a = 25"
  obtains a0 a1 a2 a3 a4 a5 a6 a7 a8 a9 a10 a11 a12 a13 a14 a15 a16 a17 a18 a19 a20 a21 a22 a23 a24
  where "a = [a0, a1, a2, a3, a4, a5, a6, a7, a8, a9, a10, a11, a12, a13, a14, a15, a16, a17, a18, a19,
    a20, a21, a22, a23, a24]"
  using assms by (auto simp: length_Suc_conv numeral_eq_Suc)

lemma replicate5: "replicate 5 (0::u64) = [0, 0, 0, 0, 0]"
  by (simp add: numeral_eq_Suc)

lemma theta_fips: "length a = 25 \<Longrightarrow> keccak_theta a = fips_theta a"
  by (elim length25) (simp add: keccak_theta_def fips_theta_def For5_def klanes_def lane_def fips_C_def Rol_rotl xor.assoc upt_rec
      replicate5)

lemma chi_fips: "length a = 25 \<Longrightarrow> keccak_chi a = fips_chi a"
  by (elim length25) (simp add: keccak_chi_def fips_chi_def For5_def klanes_def lane_def upt_rec replicate5)

lemma iota_fips: "length a = 25 \<Longrightarrow> i < 24 \<Longrightarrow> keccak_iota i a = fips_iota i a"
  by (elim length25) (simp add: keccak_iota_def fips_iota_def klanes_def lane_def upt_rec fips_RC_eq)

lemma word_rotl64_0: "word_rotl 0 (x::u64) = x"
  by (rule bit_word_eqI) (simp add: bit_word_rotl_iff)

lemma rho_pi_fips: "length a = 25 \<Longrightarrow> keccak_rho_pi a = fips_pi (fips_rho a)"
  by (elim length25) (simp add: keccak_rho_pi_def fips_pi_def fips_rho_def klanes_def lane_def upt_rec Rol_rotl GetPi_def
      GetRho_def fips_offsets fips_offsets [unfolded One_nat_def, simplified numeral_2_eq_2] word_rotl64_0)

lemma length_klanes [simp]: "length (klanes f) = 25"
  by (simp add: klanes_def)

lemma length_fips_round [simp]: "length (fips_round i a) = 25"
  by (simp add: fips_round_def fips_iota_def)

lemma keccak_round_fips:
  assumes "length a = 25" and "i < 24"
  shows "keccak_round i a = fips_round i a"
proof -
  have "length (fips_theta a) = 25" "length (fips_pi b) = 25" "length (fips_chi b) = 25" for b
    by (simp_all add: fips_theta_def fips_pi_def fips_chi_def)
  then show ?thesis
    by (simp add: keccak_round_def fips_round_def theta_fips [OF assms(1)] rho_pi_fips chi_fips iota_fips [OF _ assms(2)])
qed

lemma keccak_rounds_fips:
  assumes "length a = 25" and "n \<le> 24"
  shows "fold keccak_round [0..<n] a = fold fips_round [0..<n] a \<and> length (fold fips_round [0..<n] a) = 25"
  using assms(2) by (induction n) (simp_all add: assms(1) keccak_round_fips)

definition fips_keccak_f :: "bytes \<Rightarrow> bytes" where
  "fips_keccak_f a = concat (map BYTES64_LE (fold fips_round [0..<24] (lanes_of a)))"

lemma Keccakf_fips: "Keccakf = fips_keccak_f"
proof
  fix a
  have "length (lanes_of a) = 25" by (simp add: lanes_of_def)
  from keccak_rounds_fips [OF this, of 24] show "Keccakf a = fips_keccak_f a"
    by (simp add: Keccakf_def fips_keccak_f_def del: upt_rec_numeral)
qed

lemma length_Keccakf [simp]: "length (Keccakf a) = 200"
proof -
  have "length (lanes_of a) = 25" by (simp add: lanes_of_def)
  from keccak_rounds_fips [OF this, of 24] show ?thesis
    by (simp add: Keccakf_fips fips_keccak_f_def length_concat comp_def sum_list_triv del: upt_rec_numeral)
qed

section \<open>The sponge\<close>

definition xor_block :: "bytes \<Rightarrow> bytes \<Rightarrow> bytes" where
  "xor_block a b = map (\<lambda>i. if i < length b then a ! i XOR b ! i else a ! i) [0..<length a]"

definition keccak_pad :: "nat \<Rightarrow> bytes \<Rightarrow> bytes" where
  "keccak_pad rate m =
     (let k = rate - length m mod rate
      in m @ (if k = 1 then [0x81] else 0x01 # replicate (k - 2) 0 @ [0x80]))"

definition keccak_sponge :: "nat \<Rightarrow> bytes \<Rightarrow> bytes" where
  "keccak_sponge rate m = absorb rate (\<lambda>a b. fips_keccak_f (xor_block a b)) (replicate 200 0) (keccak_pad rate m)"

lemma Xorin_xor_block:
  assumes "n \<le> length src" and "n \<le> length dst"
  shows "Xorin dst src n = xor_block dst (take n src)"
  using assms
proof (induction n)
  case 0
  then show ?case by (simp add: Xorin_def xor_block_def map_nth)
next
  case (Suc n)
  then have "Xorin dst src (Suc n) = (xor_block dst (take n src))[n := xor_block dst (take n src) ! n XOR src ! n]"
    by (simp add: Xorin_def)
  also have "\<dots> = xor_block dst (take (Suc n) src)"
    using Suc.prems by (intro nth_equalityI) (auto simp: xor_block_def nth_list_update less_Suc_eq)
  finally show ?case .
qed

lemma length_xor_block [simp]: "length (xor_block a b) = length a"
  by (simp add: xor_block_def)

lemma FoldP_absorb:
  assumes "length a = 200" and "0 < rate" and "rate \<le> 200"
  shows "FoldP_Xorin a m rate = (absorb rate (\<lambda>a b. Keccakf (xor_block a b)) a m, tail_of rate m)"
  using assms(1)
proof (induction "length m" arbitrary: a m rule: less_induct)
  case less
  show ?case
  proof (cases "rate \<le> length m")
    case True
    have t: "tail_of rate m = tail_of rate (drop rate m)"
      using tail_of_append [OF assms(2), of "take rate m" "drop rate m"] True by (simp add: tail_of_def [of rate "take rate m"])
    have x: "Xorin a m rate = xor_block a (take rate m)"
      using True less.prems assms(3) by (intro Xorin_xor_block) auto
    show ?thesis
      using less.hyps [of "drop rate m" "Keccakf (Xorin a m rate)"] True assms(2)
      by (subst FoldP_Xorin.simps, subst absorb.simps) (simp add: x t)
  next
    case False
    then show ?thesis
      by (subst FoldP_Xorin.simps) (simp add: absorb_short tail_of_def)
  qed
qed

lemma less_135_cases: "\<not> x < 135 \<Longrightarrow> x < 136 \<Longrightarrow> x = (135::nat)"
  by simp

lemma keccak_last_block:
  assumes "length a = 200" and "length t < 136"
  shows "Xorin ((a[length t := a ! length t XOR 0x01])[135 := a[length t := a ! length t XOR 0x01] ! 135 XOR 0x80]) t (length t)
     = xor_block a (t @ (if 136 - length t = 1 then [0x81] else 0x01 # replicate (136 - length t - 2) 0 @ [0x80]))"
proof -
  have e: "(x XOR 0x01) XOR 0x80 = x XOR (0x81::byte)" for x
    by (simp add: xor.assoc)
  show ?thesis
  proof (cases "length t = 135")
    case True
    then show ?thesis
      using assms(1) e
      by (subst Xorin_xor_block)
        (auto intro!: nth_equalityI simp: xor_block_def nth_list_update nth_append nth_Cons' split: if_splits dest!: less_135_cases)
  next
    case False
    with assms(2) have "length t < 135" by simp
    then show ?thesis
      using assms(1)
      by (subst Xorin_xor_block)
        (auto intro!: nth_equalityI simp: xor_block_def nth_list_update nth_append nth_Cons' less_Suc_eq)
  qed
qed

lemma Keccak256_sponge_aux: "Keccak256 m = take 32 (keccak_sponge 136 m)"
proof -
  let ?cf = "\<lambda>a b. Keccakf (xor_block a b)"
  let ?z = "replicate 200 0 :: bytes"
  define a where "a = absorb 136 ?cf ?z m"
  let ?t = "tail_of 136 m"
  have la: "length a = 200"
    unfolding a_def by (rule absorb_length) simp_all
  have lt: "length ?t < 136" by simp
  let ?p = "if 136 - length ?t = 1 then [0x81] else 0x01 # replicate (136 - length ?t - 2) 0 @ [0x80]"
  have pad: "keccak_pad 136 m = m @ ?p" by (simp add: keccak_pad_def Let_def)
  have lp: "length (?t @ ?p) = 136" using lt by (auto simp del: length_tail_of)
  have "keccak_sponge 136 m = absorb 136 ?cf a (?t @ ?p)"
    unfolding keccak_sponge_def pad Keccakf_fips [symmetric] a_def by (rule absorb_tail) simp
  also have "\<dots> = Keccakf (xor_block a (?t @ ?p))"
    using absorb_block [of 136 "?t @ ?p" ?cf a "[]"] lp by simp
  also have "xor_block a (?t @ ?p) = Xorin ((a[length ?t := a ! length ?t XOR 0x01])
      [135 := a[length ?t := a ! length ?t XOR 0x01] ! 135 XOR 0x80]) ?t (length ?t)"
    by (rule keccak_last_block [OF la lt, symmetric])
  finally show ?thesis
    unfolding Keccak256_def keccak_Hash_def Let_def
    using FoldP_absorb [of ?z 136 m] by (simp add: a_def [symmetric] FoldP_Setout.simps del: length_tail_of)
qed

section \<open>Properties\<close>

text \<open>C26. \<open>Keccak256\<close> is the Keccak sponge: rate 136, the permutation written as in FIPS 202
  (steps on the lanes, round constants from the LFSR, offsets from the walk), the pad
  \<open>0x01 .. 0x80\<close> and 32 bytes squeezed, for a message of any length.\<close>

theorem Keccak256_sponge: "Keccak256 m = take 32 (keccak_sponge 136 m)"
  by (rule Keccak256_sponge_aux)

end
