(* ===== verification/EthHeader.thy ===== *)
theory EthHeader
  imports EthParams Rlp Keccak
begin

text \<open>
  The block header: the twenty byte strings of \<open>SimpleRlp/EthHeader.hpp\<close> and the class
  \<open>HeaderMgr\<close> of \<open>EclipseMonitor/Eth/HeaderMgr.hpp\<close>, with the integers decoded from the raw
  fields. Exceptions are the values of
  \<open>Exception\<close>; a use of an object after its destruction is \<open>UndefinedBehaviour\<close>.
\<close>

datatype Exception =
    Exception string
  | RlpParseError ParseError
  | UndefinedBehaviour string

record EthHeader =
  ParentHash :: bytes
  Sha3Uncles :: bytes
  Miner :: bytes
  StateRoot :: bytes
  TransactionsRoot :: bytes
  ReceiptsRoot :: bytes
  LogsBloom :: bytes
  hdr_Difficulty :: bytes
  hdr_Number :: bytes
  GasLimit :: bytes
  GasUsed :: bytes
  hdr_Timestamp :: bytes
  ExtraData :: bytes
  MixHash :: bytes
  Nonce :: bytes
  BaseFee :: bytes
  WithdrawalsHash :: bytes
  BlobGasUsed :: bytes
  ExcessBlobGas :: bytes
  ParentBeaconRoot :: bytes

record HeaderMgr =
  m_rawHeader :: EthHeader
  m_trustedTime :: TrustedTimestamp
  m_hash :: bytes
  m_blkNum :: BlockNumber
  m_time :: Timestamp
  m_diff :: Difficulty
  m_hasUncle :: bool

definition GetEmptyUncleHash :: bytes where
  "GetEmptyUncleHash =
    [0x1D, 0xCC, 0x4D, 0xE8, 0xDE, 0xC7, 0x5D, 0x7A, 0xAB, 0x85,
     0xB5, 0x67, 0xB6, 0xCC, 0xD4, 0x1A, 0xD3, 0x12, 0x45, 0x1B,
     0x94, 0x8A, 0x74, 0x13, 0xF0, 0xA1, 0x42, 0xFD, 0x40, 0xD4,
     0x93, 0x47]"

definition EthHeader_values :: "EthHeader \<Rightarrow> bytes list" where
  "EthHeader_values h =
     [ParentHash h, Sha3Uncles h, Miner h, StateRoot h, TransactionsRoot h, ReceiptsRoot h, LogsBloom h,
      hdr_Difficulty h, hdr_Number h, GasLimit h, GasUsed h, hdr_Timestamp h, ExtraData h, MixHash h, Nonce h,
      BaseFee h, WithdrawalsHash h, BlobGasUsed h, ExcessBlobGas h, ParentBeaconRoot h]"

text \<open>A missing field keeps its default value, the empty byte string.\<close>

definition dict_field :: "bytes list \<Rightarrow> nat \<Rightarrow> bytes" where
  "dict_field vs i = (if i < length vs then vs ! i else [])"

definition EthHeader_of :: "bytes list \<Rightarrow> EthHeader" where
  "EthHeader_of vs = \<lparr>
     ParentHash = dict_field vs 0, Sha3Uncles = dict_field vs 1, Miner = dict_field vs 2,
     StateRoot = dict_field vs 3, TransactionsRoot = dict_field vs 4, ReceiptsRoot = dict_field vs 5,
     LogsBloom = dict_field vs 6, hdr_Difficulty = dict_field vs 7, hdr_Number = dict_field vs 8,
     GasLimit = dict_field vs 9, GasUsed = dict_field vs 10, hdr_Timestamp = dict_field vs 11,
     ExtraData = dict_field vs 12, MixHash = dict_field vs 13, Nonce = dict_field vs 14,
     BaseFee = dict_field vs 15, WithdrawalsHash = dict_field vs 16, BlobGasUsed = dict_field vs 17,
     ExcessBlobGas = dict_field vs 18, ParentBeaconRoot = dict_field vs 19\<rparr>"

definition EthHeaderParser :: "bytes \<Rightarrow> Exception + EthHeader" where
  "EthHeaderParser raw =
     (case ParserBase_Parse (StaticDictParser 20) raw True of
        Inl e \<Rightarrow> Inl (RlpParseError e)
      | Inr vs \<Rightarrow> Inr (EthHeader_of vs))"

text \<open>\<open>PrimitiveTypeTrait\<close> of \<open>DataTypes.hpp\<close>.\<close>

definition FromBytes :: "bytes \<Rightarrow> Exception + u64" where
  "FromBytes b =
     (case ParsePrimitiveIntValue (length b) b of
        Inl e \<Rightarrow> Inl (RlpParseError e)
      | Inr (v, _) \<Rightarrow> Inr v)"

definition ToBytes :: "u64 \<Rightarrow> bytes" where
  "ToBytes v = EncodePrimitiveIntValue v"

definition HeaderMgr_default :: HeaderMgr where
  "HeaderMgr_default = \<lparr>
     m_rawHeader = (EthHeader_of [])\<lparr>LogsBloom := replicate 256 0\<rparr>,
     m_trustedTime = 0, m_hash = replicate 32 0, m_blkNum = 0, m_time = 0, m_diff = 0, m_hasUncle = False\<rparr>"

definition HeaderMgr_new :: "bytes \<Rightarrow> u64 \<Rightarrow> Exception + HeaderMgr" where
  "HeaderMgr_new rawBinary trustedTime =
     bindE (EthHeaderParser rawBinary) (\<lambda>raw.
     bindE (guardE (length (LogsBloom raw) = 256)
              (Exception ''Invalid bloom bytes size'')) (\<lambda>_.
     bindE (FromBytes (hdr_Number raw)) (\<lambda>blkNum.
     bindE (FromBytes (hdr_Timestamp raw)) (\<lambda>time.
     bindE (FromBytes (hdr_Difficulty raw)) (\<lambda>diff.
     Inr \<lparr>m_rawHeader = raw, m_trustedTime = trustedTime, m_hash = Keccak256 rawBinary,
          m_blkNum = blkNum, m_time = time, m_diff = diff,
          m_hasUncle = (Sha3Uncles raw \<noteq> GetEmptyUncleHash)\<rparr>)))))"

definition SetNumber :: "BlockNumber \<Rightarrow> HeaderMgr \<Rightarrow> HeaderMgr" where
  "SetNumber n h = h\<lparr>m_rawHeader := (m_rawHeader h)\<lparr>hdr_Number := ToBytes n\<rparr>, m_blkNum := n\<rparr>"

definition SetTime :: "Timestamp \<Rightarrow> HeaderMgr \<Rightarrow> HeaderMgr" where
  "SetTime t h = h\<lparr>m_rawHeader := (m_rawHeader h)\<lparr>hdr_Timestamp := ToBytes t\<rparr>, m_time := t\<rparr>"

definition SetDiff :: "Difficulty \<Rightarrow> HeaderMgr \<Rightarrow> HeaderMgr" where
  "SetDiff d h = h\<lparr>m_rawHeader := (m_rawHeader h)\<lparr>hdr_Difficulty := ToBytes d\<rparr>, m_diff := d\<rparr>"

definition SetUncleHash :: "bytes \<Rightarrow> HeaderMgr \<Rightarrow> HeaderMgr" where
  "SetUncleHash u h = h\<lparr>m_rawHeader := (m_rawHeader h)\<lparr>Sha3Uncles := u\<rparr>,
     m_hasUncle := (u \<noteq> GetEmptyUncleHash)\<rparr>"

section \<open>Round trips\<close>

lemma FromBytes_ToBytes: "FromBytes (ToBytes v) = Inr v"
  using ParsePrimitiveIntValue_eq [of "EncodePrimitiveIntValue v" "[]"] EncodedWidth_le [of v]
  by (simp add: FromBytes_def ToBytes_def int_of_bytes_encode)

lemma EthHeader_of_values: "EthHeader_of (EthHeader_values h) = h"
  by (cases h) (simp add: EthHeader_of_def EthHeader_values_def dict_field_def)

lemma length_EthHeader_values [simp]: "length (EthHeader_values h) = 20"
  by (simp add: EthHeader_values_def)

lemma EthHeaderParser_write:
  assumes "length (WriteStaticDict (EthHeader_values h) 0) < 2 ^ 64"
  shows "EthHeaderParser (WriteStaticDict (EthHeader_values h) 0) = Inr h"
  using StaticDict_roundtrip [OF _ assms, of 20] by (simp add: EthHeaderParser_def EthHeader_of_values)

text \<open>The decoded integers of a header agree with its raw fields.\<close>

definition header_wf :: "HeaderMgr \<Rightarrow> bool" where
  "header_wf h \<longleftrightarrow> FromBytes (hdr_Number (m_rawHeader h)) = Inr (m_blkNum h)
     \<and> FromBytes (hdr_Timestamp (m_rawHeader h)) = Inr (m_time h)
     \<and> FromBytes (hdr_Difficulty (m_rawHeader h)) = Inr (m_diff h)"

lemma header_wf_new: "HeaderMgr_new raw t = Inr h \<Longrightarrow> header_wf h"
  by (auto simp: HeaderMgr_new_def header_wf_def sum_simps)

lemma header_wf_default: "header_wf HeaderMgr_default"
  by (simp add: header_wf_def HeaderMgr_default_def EthHeader_of_def dict_field_def FromBytes_def
      ParsePrimitiveIntValue_def)

lemma header_wf_set [intro]:
  assumes "header_wf h"
  shows "header_wf (SetNumber n h)" "header_wf (SetTime t h)" "header_wf (SetDiff d h)" "header_wf (SetUncleHash u h)"
  using assms by (simp_all add: header_wf_def SetNumber_def SetTime_def SetDiff_def SetUncleHash_def FromBytes_ToBytes)

section \<open>Properties\<close>

text \<open>C24. A header whose fields are encoded by the RLP writer and whose numbers are encoded by
  \<open>ToBytes\<close> is read back by the constructor of \<open>HeaderMgr\<close>: every raw field, the decoded number,
  time and difficulty, the uncle flag, and the Keccak-256 hash of the binary.\<close>

theorem HeaderMgr_new_written:
  fixes h t defines "raw \<equiv> WriteStaticDict (EthHeader_values h) 0"
  assumes "length raw < 2 ^ 64" and "length (LogsBloom h) = 256"
    and "hdr_Number h = ToBytes n" and "hdr_Timestamp h = ToBytes ts" and "hdr_Difficulty h = ToBytes d"
  shows "HeaderMgr_new raw t = Inr \<lparr>m_rawHeader = h, m_trustedTime = t, m_hash = Keccak256 raw,
     m_blkNum = n, m_time = ts, m_diff = d, m_hasUncle = (Sha3Uncles h \<noteq> GetEmptyUncleHash)\<rparr>"
  using EthHeaderParser_write [of h] assms
  by (simp add: HeaderMgr_new_def FromBytes_ToBytes guardE_def)

theorem HeaderMgr_new_written_witness:
  "\<exists>raw m. HeaderMgr_new raw 5 = Inr m \<and> m_blkNum m = 15050000 \<and> m_time m = 1656586444 \<and> m_diff m = 131072"
proof -
  let ?h = "(EthHeader_of [])\<lparr>LogsBloom := replicate 256 0, hdr_Number := ToBytes 15050000,
      hdr_Timestamp := ToBytes 1656586444, hdr_Difficulty := ToBytes 131072\<rparr>"
  have "length (WriteStaticDict (EthHeader_values ?h) 0) = 291" by code_simp
  then obtain m where "HeaderMgr_new (WriteStaticDict (EthHeader_values ?h) 0) 5 = Inr m"
    and "m = \<lparr>m_rawHeader = ?h, m_trustedTime = 5, m_hash = Keccak256 (WriteStaticDict (EthHeader_values ?h) 0),
     m_blkNum = 15050000, m_time = 1656586444, m_diff = 131072, m_hasUncle = (Sha3Uncles ?h \<noteq> GetEmptyUncleHash)\<rparr>"
    using HeaderMgr_new_written [of ?h 15050000 1656586444 131072 5] by simp
  then show ?thesis by (metis HeaderMgr.select_convs(4-6))
qed

text \<open>A \<open>HeaderMgr\<close> the constructor accepts is well formed (its decoded numbers are those of
  its raw fields), and the setters keep it so.\<close>

theorem HeaderMgr_wf:
  assumes "HeaderMgr_new raw t = Inr h"
  shows "header_wf h \<and> header_wf (SetUncleHash u (SetDiff d (SetTime ts (SetNumber n h))))"
  using header_wf_new [OF assms] by auto

theorem HeaderMgr_wf_witness:
  "\<exists>h. header_wf (SetUncleHash [] (SetDiff 7 (SetTime 8 (SetNumber 9 h)))) \<and> header_wf h"
proof -
  let ?h = "(EthHeader_of [])\<lparr>LogsBloom := replicate 256 0\<rparr>"
  have "length (WriteStaticDict (EthHeader_values ?h) 0) = 281" by code_simp
  then have p: "EthHeaderParser (WriteStaticDict (EthHeader_values ?h) 0) = Inr ?h"
    using EthHeaderParser_write [of ?h] by simp
  have f: "FromBytes [] = Inr 0" by code_simp
  obtain h where "HeaderMgr_new (WriteStaticDict (EthHeader_values ?h) 0) 0 = Inr h"
    unfolding HeaderMgr_new_def p by (simp add: EthHeader_of_def dict_field_def guardE_def f)
  from HeaderMgr_wf [OF this] show ?thesis by blast
qed

end
