(* ===== verification/EthTrie.thy ===== *)
theory EthTrie
  imports EthHeader "HOL-Library.Sublist"
begin

text \<open>
  \<open>EclipseMonitor/Eth/Trie\<close>: the Merkle-Patricia trie whose root hash a block header names for its
  receipts. A node owned by a \<open>unique_ptr\<close> is a value of \<open>trie\<close>, the null pointer is \<open>Null\<close>; a
  branch has its value flag, its 16 slots and its value. \<open>lookup\<close>, which the code does not have,
  says which key and value pairs a trie holds; \<open>canonical\<close> is the shape \<open>Put\<close> keeps. The theorems:
  \<open>Put\<close> is a map update for prefix-free keys, and two tries with the same content are the same
  trie, so that the root hash depends on the content only.
\<close>

section \<open>Nibbles\<close>

definition IsNibble :: "u8 \<Rightarrow> bool" where
  "IsNibble n \<longleftrightarrow> n \<le> 15"

definition NibblesFromBytes :: "bytes \<Rightarrow> u8 list" where
  "NibblesFromBytes bs = concat (map (\<lambda>b. [drop_bit 4 b AND 0x0F, b AND 0x0F]) bs)"

text \<open>\<open>None\<close>: an odd number of nibbles, for which the code reads one element past the end.\<close>

fun NibblesToBytes :: "u8 list \<Rightarrow> bytes option" where
  "NibblesToBytes [] = Some []"
| "NibblesToBytes [n] = None"
| "NibblesToBytes (n # m # ns) =
     (case NibblesToBytes ns of None \<Rightarrow> None | Some bs \<Rightarrow> Some ((push_bit 4 n OR m) # bs))"

definition ToPrefixed :: "u8 list \<Rightarrow> bool \<Rightarrow> u8 list" where
  "ToPrefixed nibbles isLeafNode =
     (let prefixed = (if length nibbles mod 2 = 1 then [1] else [0, 0]);
          prefixed = prefixed @ nibbles
      in if isLeafNode then prefixed[0 := prefixed ! 0 + 2] else prefixed)"

text \<open>The loop of \<open>PrefixMatchedLen\<close> counts in a \<open>uint8_t\<close> and indexes with a \<open>size_t\<close>.\<close>

fun PrefixMatchedLen :: "u8 list \<Rightarrow> u8 list \<Rightarrow> u8" where
  "PrefixMatchedLen (x # xs) (y # ys) = (if x = y then PrefixMatchedLen xs ys + 1 else 0)"
| "PrefixMatchedLen _ _ = 0"

section \<open>The trie\<close>

datatype trie =
    Null
  | Leaf "u8 list" bytes
  | is_Branch: Branch bool "trie list" bytes
  | Extension "u8 list" trie

definition BranchNode_new :: trie where
  "BranchNode_new = Branch False (replicate 16 Null) []"

fun SetValue :: "bytes \<Rightarrow> trie \<Rightarrow> trie" where
  "SetValue v (Branch h bs w) = Branch True bs v"
| "SetValue v t = t"

fun SetBranch :: "u8 \<Rightarrow> trie \<Rightarrow> trie \<Rightarrow> trie" where
  "SetBranch n t (Branch h bs w) = Branch h (bs[unat n := t]) w"
| "SetBranch n t t' = t'"

definition PutKeyLeafNode :: "u8 list \<Rightarrow> bytes \<Rightarrow> u8 list \<Rightarrow> bytes \<Rightarrow> trie" where
  "PutKeyLeafNode leafPath leafValue nibbles value =
     (let matched = unat (PrefixMatchedLen nibbles leafPath) in
      if matched = length nibbles \<and> matched = length leafPath then Leaf leafPath value
      else
        let b = BranchNode_new;
            b = (if matched = length leafPath then SetValue leafValue b else b);
            b = (if matched = length nibbles then SetValue value b else b);
            b = (if matched < length leafPath
                 then SetBranch (leafPath ! matched) (Leaf (drop (matched + 1) leafPath) leafValue) b else b);
            b = (if matched < length nibbles
                 then SetBranch (nibbles ! matched) (Leaf (drop (matched + 1) nibbles) value) b else b)
        in if matched > 0 then Extension (take matched leafPath) b else b)"

text \<open>When the key ends inside the path of an extension, the code reads the nibble after the key.\<close>

definition PutKeyExtensionSplit :: "u8 list \<Rightarrow> trie \<Rightarrow> u8 list \<Rightarrow> bytes \<Rightarrow> nat \<Rightarrow> Exception + trie" where
  "PutKeyExtensionSplit extensionPath next nibbles value matched =
     (if matched \<ge> length nibbles then Inl (UndefinedBehaviour ''nibbles[matched] past the end'')
      else
        let sharedNibbles = take matched extensionPath;
            remaining = drop (matched + 1) extensionPath;
            b = BranchNode_new;
            b = SetBranch (extensionPath ! matched) (if length remaining = 0 then next else Extension remaining next) b;
            b = SetBranch (nibbles ! matched) (Leaf (drop (matched + 1) nibbles) value) b
        in Inr (if length sharedNibbles = 0 then b else Extension sharedNibbles b))"

lemma size_nth_trie: "n < length bs \<Longrightarrow> size (bs ! n) < Suc (size_list size bs)"
  by (metis less_Suc_eq_le nth_mem order_refl size_list_estimation')

function PutKey :: "trie \<Rightarrow> u8 list \<Rightarrow> bytes \<Rightarrow> Exception + trie" where
  "PutKey Null nibbles value = Inr (Leaf nibbles value)"
| "PutKey (Leaf p w) nibbles value = Inr (PutKeyLeafNode p w nibbles value)"
| "PutKey (Branch h bs w) nibbles value =
     (case nibbles of
        [] \<Rightarrow> Inr (SetValue value (Branch h bs w))
      | n # remaining \<Rightarrow>
          (if unat n < length bs then
             bindE (PutKey (bs ! unat n) remaining value) (\<lambda>t. Inr (Branch h (bs[unat n := t]) w))
           else Inl (UndefinedBehaviour ''m_branches[nibble] past the end'')))"
| "PutKey (Extension p next) nibbles value =
     (let matched = unat (PrefixMatchedLen nibbles p) in
      if matched < length p then PutKeyExtensionSplit p next nibbles value matched
      else bindE (PutKey next (drop matched nibbles) value) (\<lambda>t. Inr (Extension p t)))"
  by pat_completeness auto
termination
  by (relation "measure (\<lambda>(t, n, v). size t)") (auto simp: size_nth_trie)

definition Put :: "trie \<Rightarrow> bytes \<Rightarrow> bytes \<Rightarrow> Exception + trie" where
  "Put root keyRlp value = PutKey root (NibblesFromBytes keyRlp) value"

section \<open>Hashes\<close>

definition EmptyNodeHash :: bytes where
  "EmptyNodeHash =
   [0x56, 0xe8, 0x1f, 0x17, 0x1b, 0xcc, 0x55, 0xa6, 0xff, 0x83, 0x45, 0xe6, 0x92, 0xc0, 0xf8, 0x6e,
    0x5b, 0x48, 0xe0, 0x1b, 0x99, 0x6c, 0xad, 0xc0, 0x01, 0x62, 0x2f, 0xb5, 0xe3, 0x63, 0xb4, 0x21]"

definition path_bytes :: "u8 list \<Rightarrow> bool \<Rightarrow> bytes" where
  "path_bytes p leaf = (case NibblesToBytes (ToPrefixed p leaf) of Some bs \<Rightarrow> bs | None \<Rightarrow> [])"

text \<open>What a parent stores of a child: the child itself when its encoding is shorter than a hash.\<close>

definition child_ref :: "rlp \<Rightarrow> rlp" where
  "child_ref raw = (if CalcSize raw \<ge> 32 then RBytes (Keccak256 (Write raw)) else raw)"

fun Raw :: "trie \<Rightarrow> rlp" where
  "Raw Null = RBytes []"
| "Raw (Leaf p v) = RList [RBytes (path_bytes p True), RBytes v]"
| "Raw (Extension p next) = RList [RBytes (path_bytes p False), child_ref (Raw next)]"
| "Raw (Branch h bs v) =
     RList (map (\<lambda>t. if t = Null then RBytes [] else child_ref (Raw t)) bs @ [RBytes v])"

definition trie_Hash :: "trie \<Rightarrow> bytes" where
  "trie_Hash root = (if root = Null then EmptyNodeHash else Keccak256 (Write (Raw root)))"

section \<open>Facts on nibbles\<close>

lemma length_ToPrefixed: "even (length (ToPrefixed p l))"
  by (auto simp: ToPrefixed_def Let_def)

lemma NibblesToBytes_even: "even (length ns) \<Longrightarrow> NibblesToBytes ns \<noteq> None"
  by (induction ns rule: NibblesToBytes.induct) auto

text \<open>The path of a node always has an even number of nibbles when it is packed.\<close>

lemma path_packed: "\<exists>bs. NibblesToBytes (ToPrefixed p l) = Some bs"
  using NibblesToBytes_even [OF length_ToPrefixed] by blast

lemma and_15: "(b :: u8) AND 0x0F = take_bit 4 b"
  by (simp add: take_bit_eq_mask mask_eq_exp_minus_1)

lemma nibble_pack: "push_bit 4 (take_bit 4 (drop_bit 4 b)) OR take_bit 4 b = (b :: u8)"
  by (rule bit_word_eqI) (auto simp: bit_simps)

lemma nibble_inj: "take_bit 4 (drop_bit 4 a) = take_bit 4 (drop_bit 4 b) \<Longrightarrow> take_bit 4 a = take_bit 4 b \<Longrightarrow> a = (b :: u8)"
  using nibble_pack [of a] nibble_pack [of b] by metis

lemma NibblesFromBytes_Nil [simp]: "NibblesFromBytes [] = []"
  by (simp add: NibblesFromBytes_def)

lemma NibblesFromBytes_Cons [simp]:
  "NibblesFromBytes (b # bs) = take_bit 4 (drop_bit 4 b) # take_bit 4 b # NibblesFromBytes bs"
  unfolding NibblesFromBytes_def and_15 by simp

lemma NibblesToBytes_FromBytes: "NibblesToBytes (NibblesFromBytes bs) = Some bs"
proof (induction bs)
  case (Cons b bs)
  then show ?case by (simp only: NibblesFromBytes_Cons NibblesToBytes.simps option.case nibble_pack)
qed simp

lemma NibblesFromBytes_nibble: "n \<in> set (NibblesFromBytes bs) \<Longrightarrow> unat n < 16"
proof (induction bs)
  case (Cons b bs)
  have "unat (take_bit 4 x) < 16" for x :: u8
    using take_bit_nat_less_exp [of 4 "unat x"] by (simp add: unsigned_take_bit_eq)
  with Cons show ?case by auto
qed simp

lemma length_NibblesFromBytes: "length (NibblesFromBytes bs) = 2 * length bs"
  by (induction bs) simp_all

text \<open>Nibbles of a key are a prefix of another key's nibbles only when the keys are.\<close>

lemma NibblesFromBytes_prefix: "prefix (NibblesFromBytes a) (NibblesFromBytes b) \<Longrightarrow> prefix a b"
proof (induction a arbitrary: b)
  case (Cons x a)
  then obtain y b' where b: "b = y # b'" by (cases b) auto
  with Cons.prems have "x = y" "prefix (NibblesFromBytes a) (NibblesFromBytes b')"
    using nibble_inj [of x y] by (simp_all del: take_bit_drop_bit)
  with Cons.IH b show ?case by simp
qed simp

section \<open>Contents\<close>

text \<open>The value a trie holds for a key.\<close>

fun lookup :: "trie \<Rightarrow> u8 list \<Rightarrow> bytes option" where
  "lookup Null k = None"
| "lookup (Leaf p v) k = (if k = p then Some v else None)"
| "lookup (Branch h bs v) [] = (if h then Some v else None)"
| "lookup (Branch h bs v) (n # k) = (if unat n < length bs then lookup (bs ! unat n) k else None)"
| "lookup (Extension p t) k = (if prefix p k then lookup t (drop (length p) k) else None)"

fun entries :: "trie \<Rightarrow> nat" where
  "entries (Branch h bs v) = (if h then 1 else 0) + length (filter (\<lambda>t. t \<noteq> Null) bs)"
| "entries t = 0"

text \<open>The shape \<open>Put\<close> keeps: a branch has 16 slots and at least two entries, an extension has a
  path and leads to a branch, paths are short enough for the \<open>uint8_t\<close> counter.\<close>

fun canonical :: "trie \<Rightarrow> bool" where
  "canonical Null = True"
| "canonical (Leaf p v) = (length p < 256 \<and> (\<forall>n\<in>set p. unat n < 16))"
| "canonical (Branch h bs v) =
     (length bs = 16 \<and> 2 \<le> entries (Branch h bs v) \<and> (\<not> h \<longrightarrow> v = []) \<and> (\<forall>t\<in>set bs. canonical t))"
| "canonical (Extension p t) =
     (p \<noteq> [] \<and> length p < 256 \<and> (\<forall>n\<in>set p. unat n < 16) \<and> is_Branch t \<and> canonical t)"

lemma is_Branch_iff [simp]: "is_Branch t \<longleftrightarrow> (\<exists>h bs v. t = Branch h bs v)"
  by (cases t) auto

lemma lookup_nibbles: "canonical t \<Longrightarrow> lookup t k = Some v \<Longrightarrow> \<forall>n\<in>set k. unat n < 16"
proof (induction t k rule: lookup.induct)
  case (4 h bs w n k)
  then show ?case by (auto split: if_splits)
next
  case (5 p t k)
  then obtain z where "k = p @ z" by (auto simp: prefix_def split: if_splits)
  with 5 show ?case by (auto split: if_splits)
qed (auto split: if_splits)

text \<open>A trie that is not null holds something.\<close>

lemma canonical_nonempty: "canonical t \<Longrightarrow> t \<noteq> Null \<Longrightarrow> \<exists>k. lookup t k \<noteq> None"
proof (induction t)
  case (Branch h bs v)
  show ?case
  proof (cases h)
    case True
    then show ?thesis by (intro exI [of _ "[]"]) simp
  next
    case False
    with Branch.prems have "filter (\<lambda>t. t \<noteq> Null) bs \<noteq> []" by auto
    then obtain b where "b \<in> set bs" "b \<noteq> Null" by (auto simp: filter_empty_conv)
    from this(1) obtain i where i: "i < length bs" "bs ! i = b" by (auto simp: in_set_conv_nth)
    obtain k where k: "lookup b k \<noteq> None"
      using Branch.IH [OF \<open>b \<in> set bs\<close> _ \<open>b \<noteq> Null\<close>] Branch.prems(1) \<open>b \<in> set bs\<close> by auto
    have "unat (of_nat i :: u8) = i" using i(1) Branch.prems by (simp add: unat_of_nat)
    with k i show ?thesis by (intro exI [of _ "of_nat i # k"]) simp
  qed
next
  case (Extension p t)
  then obtain k where "lookup t k \<noteq> None" by auto
  then show ?case by (intro exI [of _ "p @ k"]) simp
qed auto

section \<open>Put is a map update\<close>

text \<open>The number of nibbles two paths share, and the split it gives.\<close>

fun common :: "u8 list \<Rightarrow> u8 list \<Rightarrow> nat" where
  "common (x # xs) (y # ys) = (if x = y then Suc (common xs ys) else 0)"
| "common _ _ = 0"

lemma common_le: "common xs ys \<le> length xs \<and> common xs ys \<le> length ys"
  by (induction xs ys rule: common.induct) auto

lemma PrefixMatchedLen_common:
  "length ys < 256 \<Longrightarrow> unat (PrefixMatchedLen xs ys) = common xs ys"
proof (induction xs ys rule: PrefixMatchedLen.induct)
  case (1 x xs y ys)
  then show ?case
    using common_le [of xs ys] by (auto simp: unat_word_ariths)
qed auto

lemma common_split:
  obtains s k' p' where "k = s @ k'" "p = s @ p'" "common k p = length s"
    "k' = [] \<or> p' = [] \<or> hd k' \<noteq> hd p'"
proof -
  have "\<exists>s k' p'. k = s @ k' \<and> p = s @ p' \<and> common k p = length s \<and> (k' = [] \<or> p' = [] \<or> hd k' \<noteq> hd p')"
  proof (induction k p rule: common.induct)
    case (1 x xs y ys)
    show ?case
    proof (cases "x = y")
      case True
      with 1 obtain s k' p' where "xs = s @ k'" "ys = s @ p'" "common xs ys = length s"
        "k' = [] \<or> p' = [] \<or> hd k' \<noteq> hd p'" by blast
      with True show ?thesis by (intro exI [of _ "x # s"] exI [of _ k'] exI [of _ p']) simp
    next
      case False
      then show ?thesis by (intro exI [of _ "[]"] exI [of _ "x # xs"] exI [of _ "y # ys"]) simp
    qed
  qed auto
  then show ?thesis using that by blast
qed

text \<open>A node behind a possibly empty path.\<close>

definition ext :: "u8 list \<Rightarrow> trie \<Rightarrow> trie" where
  "ext s t = (if s = [] then t else Extension s t)"

lemma lookup_ext: "lookup (ext s t) q = (if prefix s q then lookup t (drop (length s) q) else None)"
  by (simp add: ext_def)

lemma canonical_ext:
  "canonical (Branch h bs v) \<Longrightarrow> length s < 256 \<Longrightarrow> \<forall>n\<in>set s. unat n < 16 \<Longrightarrow> canonical (ext s (Branch h bs v))"
  by (simp add: ext_def)

abbreviation null16 :: "trie list" where
  "null16 \<equiv> replicate 16 Null"

lemma filter_update:
  "i < length bs \<Longrightarrow> bs ! i = Null \<Longrightarrow> t \<noteq> Null \<Longrightarrow>
   length (filter (\<lambda>t. t \<noteq> Null) (bs[i := t])) = Suc (length (filter (\<lambda>t. t \<noteq> Null) bs))"
  by (induction bs arbitrary: i) (auto split: nat.splits)

lemma filter_update_mono:
  "i < length bs \<Longrightarrow> t \<noteq> Null \<Longrightarrow>
   length (filter (\<lambda>t. t \<noteq> Null) bs) \<le> length (filter (\<lambda>t. t \<noteq> Null) (bs[i := t]))"
  by (induction bs arbitrary: i) (auto split: nat.splits simp: le_SucI)

lemma unat_eq_nibble: "unat a = unat b \<longleftrightarrow> a = (b :: u8)"
  by (simp add: word_unat_eq_iff)

lemma PutKeyLeafNode_split:
  assumes "length p < 256" and "k = s @ k'" and "p = s @ p'" and "common k p = length s"
  shows "PutKeyLeafNode p w k v =
    (case (k', p') of
       ([], []) \<Rightarrow> Leaf p v
     | ([], a # p'') \<Rightarrow> ext s (Branch True (null16[unat a := Leaf p'' w]) v)
     | (b # k'', []) \<Rightarrow> ext s (Branch True (null16[unat b := Leaf k'' v]) w)
     | (b # k'', a # p'') \<Rightarrow> ext s (Branch False (null16[unat a := Leaf p'' w, unat b := Leaf k'' v]) []))"
  using PrefixMatchedLen_common [OF assms(1), of k] assms
  by (cases k'; cases p') (simp_all add: PutKeyLeafNode_def BranchNode_new_def ext_def Let_def)

lemma lookup_null16: "unat n < 16 \<Longrightarrow> lookup (null16 ! unat n) q = None"
  by simp

lemma PutKeyLeafNode_correct:
  assumes c: "canonical (Leaf p w)" and k: "length k < 256" "\<forall>n\<in>set k. unat n < 16"
  shows "lookup (PutKeyLeafNode p w k v) q = (if q = k then Some v else lookup (Leaf p w) q)"
    and "canonical (PutKeyLeafNode p w k v)" and "PutKeyLeafNode p w k v \<noteq> Null"
proof -
  obtain s k' p' where sp: "k = s @ k'" "p = s @ p'" "common k p = length s"
    "k' = [] \<or> p' = [] \<or> hd k' \<noteq> hd p'" by (rule common_split)
  have p: "length p < 256" "\<forall>n\<in>set p. unat n < 16" using c by auto
  note eq = PutKeyLeafNode_split [OF p(1) sp(1-3), of w v]
  have q: "prefix s q \<Longrightarrow> q = s @ drop (length s) q" by (auto simp: prefix_def)
  show "lookup (PutKeyLeafNode p w k v) q = (if q = k then Some v else lookup (Leaf p w) q)"
    using sp p k q unfolding eq
    by (cases k'; cases p'; cases "drop (length s) q")
      (auto simp: lookup_ext nth_list_update unat_eq_nibble)
  show "canonical (PutKeyLeafNode p w k v)"
    using sp p k unfolding eq
    by (cases k'; cases p')
      (auto intro!: canonical_ext simp: filter_update nth_list_update unat_eq_nibble dest!: set_update_subset_insert [THEN subsetD])
  show "PutKeyLeafNode p w k v \<noteq> Null"
    unfolding eq by (cases k'; cases p') (auto simp: ext_def)
qed

text \<open>The split of an extension whose path leaves the key after \<open>s\<close>.\<close>

lemma PutKeyExtensionSplit_eq:
  assumes "p = s @ a # p'" and "k = s @ b # k'"
  shows "PutKeyExtensionSplit p next k v (length s)
    = Inr (ext s (Branch False (null16[unat a := ext p' next, unat b := Leaf k' v]) []))"
  using assms by (simp add: PutKeyExtensionSplit_def BranchNode_new_def ext_def Let_def)

lemma PutKeyExtensionSplit_correct:
  fixes v :: bytes
  assumes c: "canonical (Extension (s @ a # p') next)" and k: "length (s @ b # k') < 256" "\<forall>n\<in>set (s @ b # k'). unat n < 16"
    and ab: "a \<noteq> b"
  defines "t \<equiv> ext s (Branch False (null16[unat a := ext p' next, unat b := Leaf k' v]) [])"
  shows "lookup t q = (if q = s @ b # k' then Some v else lookup (Extension (s @ a # p') next) q)"
    and "canonical t" and "t \<noteq> Null"
proof -
  have q: "prefix s q \<Longrightarrow> q = s @ drop (length s) q" by (auto simp: prefix_def)
  have a: "unat a < 16" "unat b < 16" using c k by auto
  show "lookup t q = (if q = s @ b # k' then Some v else lookup (Extension (s @ a # p') next) q)"
  proof (cases "prefix s q")
    case True
    then obtain z where z: "q = s @ z" by (auto simp: prefix_def)
    show ?thesis
      using a ab unfolding t_def z
      by (cases z) (auto simp: lookup_ext nth_list_update unat_eq_nibble)
  next
    case False
    then have "\<not> prefix (s @ a # p') q" "q \<noteq> s @ b # k'" by (auto simp: prefix_def)
    with False show ?thesis by (simp add: t_def lookup_ext)
  qed
  have n: "ext p' next \<noteq> Null" "canonical (ext p' next)" using c by (auto simp: ext_def)
  show "canonical t"
    using a ab c k n unfolding t_def
    by (intro canonical_ext)
      (auto simp: filter_update nth_list_update unat_eq_nibble dest!: set_update_subset_insert [THEN subsetD])
  show "t \<noteq> Null" by (simp add: t_def ext_def)
qed

lemma PutKey_Branch: "PutKey (Branch h bs w) k v = Inr t \<Longrightarrow> \<exists>h bs w. t = Branch h bs w"
  by (auto simp: sum_simps split: list.splits if_splits)

lemma canonical_Branch_update:
  assumes "canonical (Branch h bs w)" and "i < 16" and "canonical t" and "t \<noteq> Null"
  shows "canonical (Branch h (bs[i := t]) w)"
  using assms filter_update_mono [of i bs t]
  by (auto dest!: set_update_subset_insert [THEN subsetD])

text \<open>A key that is no proper prefix of a stored key is inserted, replacing the value it had.\<close>

lemma PutKey_correct:
  assumes "canonical t" and "length k < 256" and "\<forall>n\<in>set k. unat n < 16"
    and "\<forall>q. lookup t q \<noteq> None \<longrightarrow> \<not> strict_prefix k q"
  shows "\<exists>t'. PutKey t k v = Inr t' \<and> canonical t' \<and> t' \<noteq> Null
    \<and> (\<forall>q. lookup t' q = (if q = k then Some v else lookup t q))"
  using assms
proof (induction t k v rule: PutKey.induct)
  case (1 k v)
  then show ?case by simp
next
  case (2 p w k v)
  then show ?case using PutKeyLeafNode_correct [of p w k v] by (metis PutKey.simps(2))
next
  case (3 h bs w k v)
  show ?case
  proof (cases k)
    case Nil
    moreover have "lookup (Branch True bs v) q = (if q = [] then Some v else lookup (Branch h bs w) q)" for q
      by (cases q) auto
    moreover have "canonical (Branch True bs v)" using "3.prems"(1) by (cases h) auto
    ultimately show ?thesis using Nil by simp
  next
    case (Cons n k')
    have n: "unat n < 16" "length bs = 16" "canonical (bs ! unat n)" using 3 Cons by auto
    have "\<exists>t'. PutKey (bs ! unat n) k' v = Inr t' \<and> canonical t' \<and> t' \<noteq> Null
        \<and> (\<forall>q. lookup t' q = (if q = k' then Some v else lookup (bs ! unat n) q))"
    proof (rule "3.IH" [OF Cons])
      show "\<forall>q. lookup (bs ! unat n) q \<noteq> None \<longrightarrow> \<not> strict_prefix k' q"
        using "3.prems"(4) n unfolding Cons by (metis lookup.simps(4) strict_prefix_simps(3))
    qed (use 3 Cons n in auto)
    then obtain t' where t': "PutKey (bs ! unat n) k' v = Inr t'" "canonical t'" "t' \<noteq> Null"
      "\<And>q. lookup t' q = (if q = k' then Some v else lookup (bs ! unat n) q)" by blast
    have "lookup (Branch h (bs[unat n := t']) w) q = (if q = k then Some v else lookup (Branch h bs w) q)" for q
      using n t'(4) Cons by (cases q) (auto simp: nth_list_update unat_eq_nibble)
    moreover have "canonical (Branch h (bs[unat n := t']) w)"
      by (rule canonical_Branch_update [OF "3.prems"(1) n(1) t'(2,3)])
    ultimately show ?thesis using n t'(1) Cons by auto
  qed
next
  case (4 p nxt k v)
  have p: "length p < 256" using 4 by simp
  obtain s k' p' where sp: "k = s @ k'" "p = s @ p'" "common k p = length s"
    "k' = [] \<or> p' = [] \<or> hd k' \<noteq> hd p'" by (rule common_split)
  have m: "unat (PrefixMatchedLen k p) = length s"
    using PrefixMatchedLen_common [OF p, of k] sp(3) by simp
  have c: "canonical nxt" "nxt \<noteq> Null" using 4 by auto
  show ?case
  proof (cases p')
    case Nil
    then have ps: "p = s" "drop (length s) k = k'" using sp by auto
    have "\<exists>t'. PutKey nxt (drop (unat (PrefixMatchedLen k p)) k) v = Inr t' \<and> canonical t' \<and> t' \<noteq> Null
        \<and> (\<forall>q. lookup t' q = (if q = drop (unat (PrefixMatchedLen k p)) k then Some v else lookup nxt q))"
    proof (rule "4.IH" [OF refl])
      show "\<forall>q. lookup nxt q \<noteq> None \<longrightarrow> \<not> strict_prefix (drop (unat (PrefixMatchedLen k p)) k) q"
      proof (intro allI impI notI)
        fix q assume "lookup nxt q \<noteq> None" "strict_prefix (drop (unat (PrefixMatchedLen k p)) k) q"
        then have "lookup (Extension p nxt) (s @ q) \<noteq> None" "strict_prefix k (s @ q)"
          using ps sp(1) unfolding m by (auto simp: same_prefix_prefix strict_prefix_def)
        with "4.prems"(4) show False by blast
      qed
    qed (use 4 m ps sp c in auto)
    then obtain t' where t': "PutKey nxt k' v = Inr t'" "canonical t'"
      "\<And>q. lookup t' q = (if q = k' then Some v else lookup nxt q)"
      using m ps by auto
    have "\<exists>h bs w. t' = Branch h bs w" using 4 t'(1) PutKey_Branch by auto
    moreover have "lookup (Extension p t') q = (if q = k then Some v else lookup (Extension p nxt) q)" for q
      using ps sp(1) t'(3) by (auto simp: prefix_def)
    ultimately show ?thesis using m ps t'(1,2) "4.prems"(1) by (auto simp: Let_def)
  next
    case (Cons a p'')
    show ?thesis
    proof (cases k')
      case Nil
      obtain z where "lookup nxt z \<noteq> None" using canonical_nonempty [OF c] by blast
      then have "lookup (Extension p nxt) (p @ z) \<noteq> None" by simp
      moreover have "strict_prefix k (p @ z)" using sp Nil Cons by (simp add: strict_prefix_def)
      ultimately show ?thesis using "4.prems"(4) by blast
    next
      fix b k'' assume k': "k' = b # k''"
      have e: "p = s @ a # p''" "k = s @ b # k''" "a \<noteq> b" using sp Cons k' by auto
      have "PutKey (Extension p nxt) k v = Inr (ext s (Branch False (null16[unat a := ext p'' nxt, unat b := Leaf k'' v]) []))"
        using PutKeyExtensionSplit_eq [OF e(1,2), of nxt v] m e(1) by (simp add: Let_def)
      moreover note PutKeyExtensionSplit_correct [of s a p'' nxt b k'' v, OF _ _ _ e(3)]
      ultimately show ?thesis using "4.prems" unfolding e(1,2) by metis
    qed
  qed
qed

section \<open>A trie is determined by its contents\<close>

lemma two_positions:
  assumes "2 \<le> length (filter P xs)"
  shows "\<exists>i j. i < length xs \<and> j < length xs \<and> i \<noteq> j \<and> P (xs ! i) \<and> P (xs ! j)"
proof -
  let ?A = "{i. i < length xs \<and> P (xs ! i)}"
  have "\<not> card ?A \<le> Suc 0" using assms by (simp add: length_filter_conv_card)
  then obtain i j where "i \<in> ?A" "j \<in> ?A" "i \<noteq> j" using card_le_Suc0_iff_eq [of ?A] by auto
  then show ?thesis by blast
qed

lemma Branch_child_key:
  assumes "canonical (Branch h bs v)" and "i < 16" and "bs ! i \<noteq> Null"
  shows "\<exists>k. lookup (Branch h bs v) (of_nat i # k) \<noteq> None"
proof -
  have "unat (of_nat i :: u8) = i" using assms(2) by (simp add: unat_of_nat)
  moreover have "canonical (bs ! i)" using assms by auto
  ultimately show ?thesis using canonical_nonempty [of "bs ! i"] assms by auto
qed

text \<open>Below a branch two keys part at once.\<close>

lemma Branch_two_keys:
  assumes c: "canonical (Branch h bs v)"
  shows "\<exists>k k'. lookup (Branch h bs v) k \<noteq> None \<and> lookup (Branch h bs v) k' \<noteq> None
    \<and> k' \<noteq> [] \<and> (k = [] \<or> hd k \<noteq> hd k')"
proof (cases h)
  case True
  with c have "filter (\<lambda>t. t \<noteq> Null) bs \<noteq> []" by auto
  then obtain i where "i < 16" "bs ! i \<noteq> Null" using c by (auto simp: filter_empty_conv in_set_conv_nth)
  from Branch_child_key [OF c this] True show ?thesis by (metis list.discI lookup.simps(3) option.discI)
next
  case False
  with c have "2 \<le> length (filter (\<lambda>t. t \<noteq> Null) bs)" by auto
  then obtain i j where ij: "i < 16" "j < 16" "i \<noteq> j" "bs ! i \<noteq> Null" "bs ! j \<noteq> Null"
    using two_positions [of "\<lambda>t. t \<noteq> Null" bs] c by auto
  have ne: "(of_nat i :: u8) \<noteq> of_nat j"
  proof
    assume "(of_nat i :: u8) = of_nat j"
    then have "unat (of_nat i :: u8) = unat (of_nat j :: u8)" by simp
    with ij show False by (simp add: unat_of_nat)
  qed
  obtain k where k: "lookup (Branch h bs v) (of_nat i # k) \<noteq> None"
    using Branch_child_key [OF c ij(1,4)] by blast
  obtain k' where k': "lookup (Branch h bs v) (of_nat j # k') \<noteq> None"
    using Branch_child_key [OF c ij(2,5)] by blast
  have hd: "hd (of_nat i # k) \<noteq> hd (of_nat j # k')" unfolding list.sel by (rule ne)
  show ?thesis
    by (rule exI [of _ "of_nat i # k"], rule exI [of _ "of_nat j # k'"],
        intro conjI, rule k, rule k', rule list.distinct(2), rule disjI2, rule hd)
qed

lemma Branch_not_one_key:
  assumes "canonical (Branch h bs v)"
  shows "\<exists>k k'. k \<noteq> k' \<and> lookup (Branch h bs v) k \<noteq> None \<and> lookup (Branch h bs v) k' \<noteq> None"
proof -
  obtain k k' where k: "lookup (Branch h bs v) k \<noteq> None" "lookup (Branch h bs v) k' \<noteq> None"
    and ne: "k' \<noteq> []" "k = [] \<or> hd k \<noteq> hd k'"
    using Branch_two_keys [OF assms] by (elim exE conjE)
  from ne have "k \<noteq> k'" by auto
  with k show ?thesis by (intro exI conjI)
qed

lemma Extension_path_unique:
  assumes c: "canonical (Extension p t)" "canonical (Extension p' t')"
    and eq: "\<And>q. lookup (Extension p t) q = lookup (Extension p' t') q"
  shows "prefix p' p"
proof -
  obtain h bs v where t: "t = Branch h bs v" using c by auto
  have ct: "canonical (Branch h bs v)" using c(1) t by auto
  obtain k k' where k: "lookup t k \<noteq> None" "lookup t k' \<noteq> None" "k' \<noteq> []" "k = [] \<or> hd k \<noteq> hd k'"
    using Branch_two_keys [OF ct] t by blast
  have "prefix p' (p @ k)" "prefix p' (p @ k')"
    using eq [of "p @ k"] eq [of "p @ k'"] k(1,2) by (auto split: if_splits)
  then show ?thesis
    using k(3,4) by (cases k; cases k') (auto simp: prefix_append prefix_Cons)
qed

lemma canonical_unique:
  "canonical t \<Longrightarrow> canonical t' \<Longrightarrow> (\<And>q. lookup t q = lookup t' q) \<Longrightarrow> t = t'"
proof (induction t arbitrary: t')
  case Null
  then show ?case using canonical_nonempty [of t'] by auto
next
  case (Leaf p v)
  have one: "lookup t' q \<noteq> None \<Longrightarrow> q = p" for q using Leaf(3) [of q] by (auto split: if_splits)
  show ?case
  proof (cases t')
    case Null
    then show ?thesis using Leaf(3) [of p] by simp
  next
    case (Leaf p' v')
    then show ?thesis using \<open>\<And>q. lookup (Leaf p v) q = lookup t' q\<close> [of p] by (auto split: if_splits)
  next
    case (Branch h bs w)
    then show ?thesis using Branch_not_one_key [of h bs w] Leaf.prems(2) one by blast
  next
    case (Extension p' b)
    obtain h bs w where b: "b = Branch h bs w" using Extension Leaf.prems(2) by auto
    have "canonical (Branch h bs w)" using Extension Leaf.prems(2) b by auto
    then obtain k k' where "k \<noteq> k'" "lookup b k \<noteq> None" "lookup b k' \<noteq> None"
      using Branch_not_one_key b by blast
    then show ?thesis using one [of "p' @ k"] one [of "p' @ k'"] Extension by simp
  qed
next
  case (Branch h bs v)
  obtain k k' where k: "lookup (Branch h bs v) k \<noteq> None" "lookup (Branch h bs v) k' \<noteq> None"
    "k' \<noteq> []" "k = [] \<or> hd k \<noteq> hd k'" using Branch_two_keys [OF Branch.prems(1)] by blast
  show ?case
  proof (cases t')
    case Null
    then show ?thesis using k(1) Branch.prems(3) by simp
  next
    case (Leaf p' v')
    then have "k = p'" "k' = p'" using k(1,2) Branch.prems(3) [of k] Branch.prems(3) [of k'] by (auto split: if_splits)
    with k(3,4) show ?thesis by auto
  next
    case (Branch h' bs' v')
    have len: "length bs = 16" "length bs' = 16" using Branch.prems(1,2) Branch by auto
    have "bs ! i = bs' ! i" if i: "i < 16" for i
    proof (rule Branch.IH)
      show "bs ! i \<in> set bs" "canonical (bs ! i)" "canonical (bs' ! i)"
        using Branch.prems(1,2) Branch i len by auto
      fix q
      have "unat (of_nat i :: u8) = i" using i by (simp add: unat_of_nat)
      then show "lookup (bs ! i) q = lookup (bs' ! i) q"
        using Branch.prems(3) [of "of_nat i # q"] Branch i len by simp
    qed
    then have "bs = bs'" using len by (simp add: list_eq_iff_nth_eq)
    moreover have "h = h'" "h \<Longrightarrow> v = v'" using Branch.prems(3) [of "[]"] Branch by (auto split: if_splits)
    moreover have "\<not> h \<Longrightarrow> v = v'" using Branch.prems(1,2) Branch \<open>h = h'\<close> by auto
    ultimately show ?thesis using Branch by blast
  next
    case (Extension p' b)
    then obtain x p'' where p': "p' = x # p''" using Branch.prems(2) by (cases p') auto
    have "prefix p' k" "prefix p' k'"
      using k(1,2) Branch.prems(3) [of k] Branch.prems(3) [of k'] Extension by (auto split: if_splits)
    with k(3,4) p' show ?thesis by (auto simp: prefix_def)
  qed
next
  case (Extension p b)
  obtain h bs v where b: "b = Branch h bs v" using Extension.prems(1) by auto
  have cb: "canonical (Branch h bs v)" using Extension.prems(1) b by auto
  obtain x p0 where p: "p = x # p0" using Extension.prems(1) by (cases p) auto
  show ?case
  proof (cases t')
    case Null
    then show ?thesis using canonical_nonempty [OF Extension.prems(1)] Extension.prems(3) by auto
  next
    case (Leaf p' v')
    obtain k k' where k: "k \<noteq> k'" "lookup b k \<noteq> None" "lookup b k' \<noteq> None" using Branch_not_one_key [OF cb] b by blast
    then have "p @ k = p'" "p @ k' = p'"
      using Leaf Extension.prems(3) [of "p @ k"] Extension.prems(3) [of "p @ k'"] by (auto split: if_splits)
    with k(1) have False by (metis same_append_eq)
    then show ?thesis by simp
  next
    case (Branch h' bs' v')
    obtain k k' where k: "lookup (Branch h' bs' v') k \<noteq> None" "lookup (Branch h' bs' v') k' \<noteq> None"
      "k' \<noteq> []" "k = [] \<or> hd k \<noteq> hd k'" using Branch_two_keys Extension.prems(2) Branch by blast
    have "prefix p k" "prefix p k'"
      using k(1,2) Extension.prems(3) [of k] Extension.prems(3) [of k'] Branch by (auto split: if_splits)
    with k(3,4) p show ?thesis by (auto simp: prefix_def)
  next
    case (Extension p' b')
    have "prefix p' p" "prefix p p'"
      using Extension_path_unique [of p b p' b'] Extension_path_unique [of p' b' p b] Extension.prems Extension by auto
    then have pp: "p' = p" by (simp add: prefix_order.antisym)
    have "b = b'"
    proof (rule Extension.IH)
      show "canonical b" "canonical b'" using Extension.prems(1,2) Extension by auto
      show "lookup b q = lookup b' q" for q using Extension.prems(3) [of "p @ q"] Extension pp by simp
    qed
    with Extension pp show ?thesis by simp
  qed
qed

section \<open>The root hash binds the contents\<close>

lemma nibble_take_bit: "unat n < 16 \<Longrightarrow> take_bit 4 (n :: u8) = n"
  by (simp add: word_unat_eq_iff unsigned_take_bit_eq take_bit_nat_eq_self)

lemma nibble_bit: "unat (n :: u8) < 16 \<Longrightarrow> bit n i \<Longrightarrow> i < 4"
  by (metis bit_take_bit_iff nibble_take_bit)

lemma unpack_nibbles:
  assumes "unat (n :: u8) < 16" and "unat (m :: u8) < 16"
  shows "take_bit 4 (drop_bit 4 (push_bit 4 n OR m)) = n" and "take_bit 4 (push_bit 4 n OR m) = m"
  using nibble_bit [OF assms(1)] nibble_bit [OF assms(2)]
  by (auto intro!: bit_word_eqI simp: bit_simps simp del: take_bit_or take_bit_drop_bit) fastforce+

lemma NibblesFromBytes_ToBytes:
  "NibblesToBytes ns = Some bs \<Longrightarrow> \<forall>n\<in>set ns. unat n < 16 \<Longrightarrow> NibblesFromBytes bs = ns"
proof (induction ns arbitrary: bs rule: NibblesToBytes.induct)
  case (3 n m ns)
  then obtain bs' where "NibblesToBytes ns = Some bs'" "bs = (push_bit 4 n OR m) # bs'"
    by (auto split: option.splits)
  moreover from this 3 have "NibblesFromBytes bs' = ns" by simp
  ultimately show ?case
    using 3 by (simp only: NibblesFromBytes_Cons unpack_nibbles list.set ball_simps)
qed auto

lemma ToPrefixed_nibbles: "\<forall>n\<in>set p. unat n < 16 \<Longrightarrow> \<forall>n\<in>set (ToPrefixed p l). unat n < 16"
  by (auto simp: ToPrefixed_def Let_def)

lemma ToPrefixed_inj: "ToPrefixed p l = ToPrefixed p' l' \<Longrightarrow> p = p' \<and> l = l'"
  by (auto simp: ToPrefixed_def Let_def split: if_splits)

lemma path_bytes_inj:
  assumes "path_bytes p l = path_bytes p' l'" and "\<forall>n\<in>set p. unat n < 16" and "\<forall>n\<in>set p'. unat n < 16"
  shows "p = p' \<and> l = l'"
proof -
  obtain b b' where b: "NibblesToBytes (ToPrefixed p l) = Some b" "NibblesToBytes (ToPrefixed p' l') = Some b'"
    using path_packed by blast
  have "NibblesFromBytes b = ToPrefixed p l" "NibblesFromBytes b' = ToPrefixed p' l'"
    using NibblesFromBytes_ToBytes [OF b(1)] NibblesFromBytes_ToBytes [OF b(2)] ToPrefixed_nibbles assms(2,3) by blast+
  moreover have "b = b'" using assms(1) b by (simp add: path_bytes_def)
  ultimately have "ToPrefixed p l = ToPrefixed p' l'" by simp
  then show ?thesis by (rule ToPrefixed_inj)
qed

text \<open>The encodings that are hashed or embedded in the computation of the root hash.\<close>

fun encodings :: "trie \<Rightarrow> bytes set" where
  "encodings Null = {}"
| "encodings (Leaf p v) = {Write (Raw (Leaf p v))}"
| "encodings (Branch h bs v) = insert (Write (Raw (Branch h bs v))) (\<Union>t\<in>set bs. encodings t)"
| "encodings (Extension p t) = insert (Write (Raw (Extension p t))) (encodings t)"

lemma encodings_root: "t \<noteq> Null \<Longrightarrow> Write (Raw t) \<in> encodings t"
  by (cases t) auto

lemma Raw_list: "t \<noteq> Null \<Longrightarrow> \<exists>xs. Raw t = RList xs"
  by (cases t) auto

lemma length_Keccak256: "length (Keccak256 m) = 32"
proof -
  have "length (keccak_sponge 136 m) = 200"
    unfolding keccak_sponge_def
    by (rule absorb_length) (simp_all flip: Keccakf_fips)
  then show ?thesis by (simp add: Keccak256_sponge_aux)
qed

lemma Write_inj:
  assumes "Write x = Write y" and "length (Write x) < 2 ^ 64"
  shows "x = y"
proof -
  have "ParserBase_Parse GeneralParser (Write x) True = Inr x" by (rule rlp_roundtrip_aux [OF assms(2)])
  moreover have "ParserBase_Parse GeneralParser (Write y) True = Inr y"
    by (rule rlp_roundtrip_aux [OF assms(2) [unfolded assms(1)]])
  ultimately show ?thesis unfolding assms(1) by simp
qed

definition binding :: "bytes set \<Rightarrow> bool" where
  "binding E \<longleftrightarrow> inj_on Keccak256 E \<and> (\<forall>e\<in>E. length e < 2 ^ 64)"

lemma child_ref_inj:
  assumes "child_ref (Raw t) = child_ref (Raw t')" and "t \<noteq> Null" and "t' \<noteq> Null"
    and "binding (encodings t \<union> encodings t')"
  shows "Raw t = Raw t'"
proof -
  have l: "length (Write (Raw t)) < 2 ^ 64" using assms(2,4) encodings_root by (auto simp: binding_def)
  have k: "Keccak256 (Write (Raw t)) = Keccak256 (Write (Raw t')) \<Longrightarrow> Write (Raw t) = Write (Raw t')"
    using assms(2-4) encodings_root unfolding binding_def by (blast dest: inj_onD)
  show ?thesis
    using assms(1) Raw_list [OF assms(2)] Raw_list [OF assms(3)] Write_inj [OF k l]
    by (auto simp: child_ref_def split: if_splits)
qed

lemma binding_mono: "binding E \<Longrightarrow> E' \<subseteq> E \<Longrightarrow> binding E'"
  by (auto simp: binding_def intro: inj_on_subset)

definition no_empty_value :: "trie \<Rightarrow> bool" where
  "no_empty_value t \<longleftrightarrow> (\<forall>k. lookup t k \<noteq> Some [])"

lemma no_empty_child:
  assumes "canonical (Branch h bs v)" and "no_empty_value (Branch h bs v)" and "i < 16"
  shows "no_empty_value (bs ! i)"
proof -
  have u: "unat (of_nat i :: u8) = i" using assms(3) by (simp add: unat_of_nat)
  show ?thesis unfolding no_empty_value_def
  proof
    fix k show "lookup (bs ! i) k \<noteq> Some []"
      using assms u unfolding no_empty_value_def
      by (metis canonical.simps(3) lookup.simps(4))
  qed
qed

text \<open>Two tries with the same node encoding are equal, unless Keccak-256 collides on their nodes.\<close>

lemma Raw_inj:
  "canonical t \<Longrightarrow> canonical t' \<Longrightarrow> no_empty_value t \<Longrightarrow> no_empty_value t' \<Longrightarrow>
   t \<noteq> Null \<Longrightarrow> t' \<noteq> Null \<Longrightarrow> binding (encodings t \<union> encodings t') \<Longrightarrow> Raw t = Raw t' \<Longrightarrow> t = t'"
proof (induction t arbitrary: t')
  case Null
  then show ?case by simp
next
  case (Leaf p v)
  show ?case
  proof (cases t')
    case (Leaf p' v')
    then show ?thesis using \<open>canonical (Leaf p v)\<close> \<open>canonical t'\<close> \<open>Raw (Leaf p v) = Raw t'\<close>
      using path_bytes_inj [of p True p' True] by simp
  next
    case (Branch h bs w)
    then show ?thesis using Leaf.prems by auto
  next
    case (Extension p' b)
    then show ?thesis using Leaf.prems path_bytes_inj [of p True p' False] by simp
  qed (use Leaf.prems in simp)
next
  case (Extension p b)
  show ?case
  proof (cases t')
    case (Leaf p' v')
    then show ?thesis using Extension.prems path_bytes_inj [of p False p' True] by simp
  next
    case (Branch h bs w)
    then show ?thesis using Extension.prems by auto
  next
    case (Extension p' b')
    have b: "b \<noteq> Null" "b' \<noteq> Null" "canonical b" "canonical b'" using Extension.prems Extension by auto
    have p: "p = p'" using Extension.prems Extension path_bytes_inj [of p False p' False] by simp
    have bind: "binding (encodings b \<union> encodings b')"
      using Extension.prems(7) Extension by (auto elim!: binding_mono)
    have "child_ref (Raw b) = child_ref (Raw b')" using Extension.prems(8) Extension by simp
    from child_ref_inj [OF this b(1,2) bind] have r: "Raw b = Raw b'" .
    have ne: "no_empty_value b" "no_empty_value b'"
      using Extension.prems(3,4) Extension unfolding no_empty_value_def
      by (metis lookup.simps(5) append_eq_conv_conj prefixI)+
    show ?thesis using Extension.IH [OF b(3,4) ne b(1,2) bind r] p Extension by simp
  qed (use Extension.prems in simp)
next
  case (Branch h bs v)
  show ?case
  proof (cases t')
    case (Branch h' bs' v')
    have len: "length bs = 16" "length bs' = 16" using Branch.prems(1,2) Branch by auto
    let ?f = "\<lambda>t. if t = Null then RBytes [] else child_ref (Raw t)"
    have raw: "map ?f bs = map ?f bs'" "v = v'"
      using Branch.prems(8) Branch by auto
    have "bs ! i = bs' ! i" if i: "i < 16" for i
    proof -
      have c: "canonical (bs ! i)" "canonical (bs' ! i)"
        using Branch.prems(1,2) Branch i len by auto
      have f: "?f (bs ! i) = ?f (bs' ! i)" using arg_cong [OF raw(1), of "\<lambda>xs. xs ! i"] i len by simp
      have null: "child_ref (Raw t) \<noteq> RBytes []" if "t \<noteq> Null" for t
        using Raw_list [OF that] length_Keccak256 [of "Write (Raw t)"] by (auto simp: child_ref_def)
      show ?thesis
      proof (cases "bs ! i = Null \<or> bs' ! i = Null")
        case True
        then show ?thesis using f null by (auto split: if_splits)
      next
        case False
        have bind: "binding (encodings (bs ! i) \<union> encodings (bs' ! i))"
          using Branch.prems(7) Branch i len by (auto elim!: binding_mono)
        have "Raw (bs ! i) = Raw (bs' ! i)"
          using f False by (intro child_ref_inj [OF _ _ _ bind]) auto
        then show ?thesis
          using Branch.IH [of "bs ! i" "bs' ! i"] c bind False i len
            no_empty_child [OF Branch.prems(1,3) i] no_empty_child [of h' bs' v' i] Branch.prems(2,4) Branch
          by simp
      qed
    qed
    then have "bs = bs'" using len by (simp add: list_eq_iff_nth_eq)
    moreover have "h \<longleftrightarrow> v \<noteq> []" "h' \<longleftrightarrow> v' \<noteq> []"
      using Branch.prems(1-4) Branch unfolding no_empty_value_def
      by (metis canonical.simps(3) lookup.simps(3))+
    ultimately show ?thesis using raw(2) Branch by simp
  next
    case (Leaf p' v')
    then show ?thesis using Branch.prems by auto
  next
    case (Extension p' b')
    then show ?thesis using Branch.prems by auto
  qed (use Branch.prems in simp)
qed

lemma trie_Hash_inj:
  assumes "canonical t" and "canonical t'" and "no_empty_value t" and "no_empty_value t'"
    and "t \<noteq> Null" and "t' \<noteq> Null" and "binding (encodings t \<union> encodings t')"
    and "trie_Hash t = trie_Hash t'"
  shows "t = t'"
proof -
  have "Write (Raw t) = Write (Raw t')"
    using assms(5-8) encodings_root unfolding binding_def trie_Hash_def
    by (metis Un_iff inj_onD)
  moreover have "length (Write (Raw t)) < 2 ^ 64"
    using assms(5,7) encodings_root by (auto simp: binding_def)
  ultimately have "Raw t = Raw t'" by (rule Write_inj)
  with assms show ?thesis by (intro Raw_inj)
qed

section \<open>Properties\<close>

text \<open>C7. \<open>Put\<close> on a well-shaped trie is the map update: when the key (below 128 bytes) is no proper
  prefix of a stored key, it stores the value under the key, changes no other key, keeps the shape,
  and does not run into the out-of-range read.\<close>

theorem Put_correct:
  assumes "canonical t" and "length key < 128"
    and "\<forall>q. lookup t q \<noteq> None \<longrightarrow> \<not> strict_prefix (NibblesFromBytes key) q"
  shows "\<exists>t'. Put t key v = Inr t' \<and> canonical t' \<and> t' \<noteq> Null
    \<and> (\<forall>q. lookup t' q = (if q = NibblesFromBytes key then Some v else lookup t q))"
proof -
  have "length (NibblesFromBytes key) < 256" using assms(2) by (simp add: length_NibblesFromBytes)
  moreover have "\<forall>n\<in>set (NibblesFromBytes key). unat n < 16" using NibblesFromBytes_nibble by blast
  ultimately show ?thesis unfolding Put_def using assms by (intro PutKey_correct)
qed

theorem Put_correct_witness:
  "\<exists>t'. Put (Leaf [8, 0] [1]) [0x01] [2] = Inr t' \<and> canonical t'
     \<and> lookup t' [0, 1] = Some [2] \<and> lookup t' [8, 0] = Some [1]"
proof -
  have "\<forall>q. lookup (Leaf [8, 0] [1]) q \<noteq> None \<longrightarrow> \<not> strict_prefix (NibblesFromBytes [0x01]) q"
    by auto
  from Put_correct [OF _ _ this, of "[2]"] show ?thesis by force
qed



text \<open>C18. The root hash binds the contents: for two well-shaped, non-empty tries without empty
  values, equal root hashes mean equal tries, as long as Keccak-256 does not collide on the node
  encodings of the two.\<close>

theorem trie_Hash_binding:
  assumes "canonical t" and "canonical t'" and "no_empty_value t" and "no_empty_value t'"
    and "t \<noteq> Null" and "t' \<noteq> Null"
    and "inj_on Keccak256 (encodings t \<union> encodings t')"
    and "\<forall>e\<in>encodings t \<union> encodings t'. length e < 2 ^ 64"
    and "trie_Hash t = trie_Hash t'"
  shows "t = t'"
  using assms by (intro trie_Hash_inj) (simp_all add: binding_def)

theorem trie_Hash_binding_witness:
  "\<exists>t. Put Null [0x80] [1] = Inr t \<and> trie_Hash t = trie_Hash (Leaf [8, 0] [1]) \<and> t = Leaf [8, 0] [1]"
proof -
  have "length (Write (Raw (Leaf [8, 0] [1]))) = 5" by code_simp
  then have eq: "Leaf [8, 0] [1] = Leaf [8, 0] [1]"
    by (intro trie_Hash_binding) (simp_all add: no_empty_value_def)
  have put: "Put Null [0x80] [1] = Inr (Leaf [8, 0] [1])" by code_simp
  show ?thesis by (rule exI, rule conjI [OF put conjI [OF refl eq]])
qed

text \<open>C19. A key that ends inside the path of an extension node makes \<open>Put\<close> read past the end of the
  nibbles: the branch the node is split into has no place for a value in that case.\<close>

theorem PutKey_prefix_undefined:
  assumes "strict_prefix k p" and "length p < 256"
  shows "PutKey (Extension p next) k v = Inl (UndefinedBehaviour ''nibbles[matched] past the end'')"
proof -
  have lt: "length k < length p" by (rule prefix_length_less [OF assms(1)])
  obtain z where z: "p = k @ z" using assms(1) by (auto simp: strict_prefix_def prefix_def)
  have "common k (k @ z) = length k" by (induction k) (cases z; simp)+
  then have "unat (PrefixMatchedLen k p) = length k"
    using PrefixMatchedLen_common [OF assms(2), of k] z by simp
  then show ?thesis using lt by (simp add: PutKeyExtensionSplit_def Let_def)
qed

theorem PutKey_prefix_undefined_witness:
  "PutKey (Extension [1, 2, 3, 4] BranchNode_new) [1, 2] [7]
     = Inl (UndefinedBehaviour ''nibbles[matched] past the end'')"
  by (rule PutKey_prefix_undefined) (simp_all add: strict_prefix_def)

end
