(* ===== verification/EthReceipts.thy ===== *)
theory EthReceipts
  imports EthTrie
begin

text \<open>
  \<open>EclipseMonitor/Eth/Receipt.hpp\<close> and \<open>ReceiptsMgr.hpp\<close>: the transaction receipts of a block. Each
  receipt is parsed into its log entries and put into a Patricia trie under the RLP encoding of its
  index; the root hash of this trie is compared with the one in the header. The properties: the
  trie of a block holds exactly the receipts, each under its index; the root hash binds the list of
  receipts; a search finds exactly the log entries with the address and the leading topics.
\<close>

section \<open>Objects of the parser\<close>

definition AsBytes :: "rlp \<Rightarrow> Exception + bytes" where
  "AsBytes obj = (case obj of RBytes b \<Rightarrow> Inr b | RList xs \<Rightarrow> Inl (Exception ''TypeError: Bytes expected''))"

definition AsList :: "rlp \<Rightarrow> Exception + rlp list" where
  "AsList obj = (case obj of RList xs \<Rightarrow> Inr xs | RBytes b \<Rightarrow> Inl (Exception ''TypeError: List expected''))"

definition list_at :: "'a list \<Rightarrow> nat \<Rightarrow> Exception + 'a" where
  "list_at xs i = (if i < length xs then Inr (xs ! i) else Inl (Exception ''IndexError''))"

section \<open>Log entries\<close>

record ReceiptLogEntry =
  log_contractAddr :: bytes
  log_topics :: "bytes list"
  log_logData :: bytes

fun log_topics_loop :: "rlp list \<Rightarrow> Exception + bytes list" where
  "log_topics_loop [] = Inr []"
| "log_topics_loop (topic # topics) =
     bindE (AsBytes topic) (\<lambda>b.
     if length b \<noteq> 32 then Inl (Exception ''The topic found in log entry has invalid length'')
     else bindE (log_topics_loop topics) (\<lambda>bs. Inr (b # bs)))"

definition ReceiptLogEntry_new :: "rlp list \<Rightarrow> Exception + ReceiptLogEntry" where
  "ReceiptLogEntry_new logEntry =
     bindE (bindE (list_at logEntry 0) AsBytes) (\<lambda>addr.
     if length addr \<noteq> 20
     then Inl (Exception ''The contract address found in log entry has invalid length'')
     else
       bindE (bindE (list_at logEntry 1) AsList) (\<lambda>logTopics.
       bindE (log_topics_loop logTopics) (\<lambda>topics.
       bindE (bindE (list_at logEntry 2) AsBytes) (\<lambda>logData.
       Inr \<lparr>log_contractAddr = addr, log_topics = topics, log_logData = logData\<rparr>))))"

text \<open>The loop over the wanted topics, with the iterator into the entry's topics next to it.\<close>

fun topics_match :: "bytes list \<Rightarrow> bytes list \<Rightarrow> bool" where
  "topics_match [] tps = True"
| "topics_match (t # ts) [] = False"
| "topics_match (t # ts) (tp # tps) = (if t \<noteq> tp then False else topics_match ts tps)"

definition IsEventEmitted :: "bytes \<Rightarrow> bytes list \<Rightarrow> ReceiptLogEntry \<Rightarrow> bool" where
  "IsEventEmitted addr topics entry =
     (if log_contractAddr entry \<noteq> addr then False else topics_match topics (log_topics entry))"

section \<open>Receipts\<close>

type_synonym Receipt = "ReceiptLogEntry list"

definition ParseReceipt :: "bytes \<Rightarrow> Exception + rlp" where
  "ParseReceipt rlpBytes =
     bindE (list_at rlpBytes 0) (\<lambda>firstByte.
     let body = (if firstByte = 0x01 \<or> firstByte = 0x02 \<or> firstByte = 0x03 then tl rlpBytes else rlpBytes) in
     (case ParserBase_Parse GeneralParser body True of
        Inl e \<Rightarrow> Inl (RlpParseError e)
      | Inr obj \<Rightarrow> Inr obj))"

fun log_entries_loop :: "rlp list \<Rightarrow> Exception + ReceiptLogEntry list" where
  "log_entries_loop [] = Inr []"
| "log_entries_loop (x # xs) =
     bindE (bindE (AsList x) ReceiptLogEntry_new) (\<lambda>e.
     bindE (log_entries_loop xs) (\<lambda>es. Inr (e # es)))"

definition Receipt_new :: "rlp \<Rightarrow> Exception + Receipt" where
  "Receipt_new receiptObj =
     bindE (AsList receiptObj) (\<lambda>receiptBody.
     bindE (bindE (list_at receiptBody 3) AsList) (\<lambda>receiptLogs.
     log_entries_loop receiptLogs))"

definition Receipt_FromBytes :: "bytes \<Rightarrow> Exception + Receipt" where
  "Receipt_FromBytes rlpBytes = bindE (ParseReceipt rlpBytes) Receipt_new"

definition Receipt_SearchEvents :: "bytes \<Rightarrow> bytes list \<Rightarrow> Receipt \<Rightarrow> ReceiptLogEntry list" where
  "Receipt_SearchEvents addr topics receipt = filter (IsEventEmitted addr topics) receipt"

section \<open>ReceiptsMgr\<close>

record ReceiptsMgr =
  m_receipts :: "Receipt list"
  m_rootHashBytes :: bytes

definition receipt_key :: "nat \<Rightarrow> bytes" where
  "receipt_key i = SerializeBytes (EncodePrimitiveIntValue (of_nat i))"

fun receipts_loop :: "rlp list \<Rightarrow> nat \<Rightarrow> trie \<Rightarrow> Exception + (trie \<times> Receipt list)" where
  "receipts_loop [] i trie = Inr (trie, [])"
| "receipts_loop (receipt # receipts) i trie =
     bindE (AsBytes receipt) (\<lambda>receiptBytes.
     bindE (Put trie (receipt_key i) receiptBytes) (\<lambda>trie.
     bindE (Receipt_FromBytes receiptBytes) (\<lambda>r.
     bindE (receipts_loop receipts (i + 1) trie) (\<lambda>(trie, rs). Inr (trie, r # rs)))))"

definition ReceiptsMgr_new :: "rlp list \<Rightarrow> Exception + ReceiptsMgr" where
  "ReceiptsMgr_new receipts =
     bindE (receipts_loop receipts 0 Null) (\<lambda>(trie, rs).
     Inr \<lparr>m_receipts = rs, m_rootHashBytes = trie_Hash trie\<rparr>)"

definition ReceiptsMgr_SearchEvents :: "bytes \<Rightarrow> bytes list \<Rightarrow> ReceiptsMgr \<Rightarrow> ReceiptLogEntry list" where
  "ReceiptsMgr_SearchEvents addr topics mgr =
     concat (map (Receipt_SearchEvents addr topics) (m_receipts mgr))"

section \<open>The keys are prefix-free\<close>

lemma SerializeBytes_prefix:
  assumes "prefix (SerializeBytes a) (SerializeBytes b)" and a: "length a < 2 ^ 64" and b: "length b < 2 ^ 64"
  shows "a = b"
proof -
  obtain z where z: "SerializeBytes b = SerializeBytes a @ z" using assms(1) by (auto simp: prefix_def)
  have "parse_next (SerializeBytes b @ []) (length (SerializeBytes b)) = Inr (RBytes b, [], 0)"
    using parse_bytes [OF b, of "length (SerializeBytes b)" "[]"] by simp
  moreover have "parse_next (SerializeBytes a @ z) (length (SerializeBytes b)) = Inr (RBytes a, z, length z)"
    using parse_bytes [OF a, of "length (SerializeBytes b)" z] z by simp
  ultimately show ?thesis unfolding z by simp
qed

lemma receipt_key_prefix:
  assumes "prefix (NibblesFromBytes (receipt_key i)) (NibblesFromBytes (receipt_key j))" and "i < 2 ^ 64" and "j < 2 ^ 64"
  shows "i = j"
proof -
  have l: "length (EncodePrimitiveIntValue v) < 2 ^ 64" for v
    using EncodedWidth_le [of v] by simp
  have "EncodePrimitiveIntValue (of_nat i) = EncodePrimitiveIntValue (of_nat j)"
    using NibblesFromBytes_prefix [OF assms(1)] unfolding receipt_key_def by (rule SerializeBytes_prefix [OF _ l l])
  then have "(of_nat i :: u64) = of_nat j" by (metis int_of_bytes_encode)
  then have "unat (of_nat i :: u64) = unat (of_nat j :: u64)" by (rule arg_cong)
  then show ?thesis using assms(2,3) by (simp only: size_back)
qed

lemma receipt_key_short: "length (receipt_key i) < 128"
proof -
  have "length (EncodePrimitiveIntValue (of_nat i)) \<le> 8" using EncodedWidth_le [of "of_nat i"] by simp
  then show ?thesis by (auto simp: receipt_key_def SerializeBytes_def GenLeadingBytes_Bytes_def Let_def)
qed

section \<open>The trie of a block\<close>

abbreviation nkey :: "nat \<Rightarrow> u8 list" where
  "nkey i \<equiv> NibblesFromBytes (receipt_key i)"

text \<open>The trie built so far holds the receipts before index \<open>i\<close> only.\<close>

definition holds_below :: "nat \<Rightarrow> trie \<Rightarrow> bool" where
  "holds_below i t \<longleftrightarrow> canonical t \<and> (\<forall>q. lookup t q \<noteq> None \<longrightarrow> (\<exists>j<i. q = nkey j))"

lemma Put_receipt:
  assumes "holds_below i t" and "i < 2 ^ 64"
  shows "\<exists>t'. Put t (receipt_key i) b = Inr t' \<and> holds_below (Suc i) t'
    \<and> (\<forall>q. lookup t' q = (if q = nkey i then Some b else lookup t q))"
proof -
  have "\<forall>q. lookup t q \<noteq> None \<longrightarrow> \<not> strict_prefix (nkey i) q"
  proof (intro allI impI notI)
    fix q assume "lookup t q \<noteq> None" "strict_prefix (nkey i) q"
    moreover from this obtain j where "j < i" "q = nkey j" using assms(1) by (auto simp: holds_below_def)
    ultimately show False using receipt_key_prefix [of i j] assms(2) by (auto simp: strict_prefix_def)
  qed
  then obtain t' where "Put t (receipt_key i) b = Inr t'" "canonical t'"
    "\<forall>q. lookup t' q = (if q = nkey i then Some b else lookup t q)"
    using PutKey_correct [of t "nkey i" b] assms(1) receipt_key_short [of i] NibblesFromBytes_nibble
    by (auto simp: holds_below_def Put_def length_NibblesFromBytes)
  with assms(1) show ?thesis by (fastforce simp: holds_below_def less_Suc_eq)
qed

lemma receipts_loop_trie:
  assumes "receipts_loop rs i t = Inr (t', recs)" and "holds_below i t" and "i + length rs \<le> 2 ^ 64"
  shows "\<exists>bs. rs = map RBytes bs \<and> list_all2 (\<lambda>b r. Receipt_FromBytes b = Inr r) bs recs
    \<and> canonical t' \<and> (\<forall>n<length bs. lookup t' (nkey (i + n)) = Some (bs ! n))
    \<and> (\<forall>q. (\<forall>n<length bs. q \<noteq> nkey (i + n)) \<longrightarrow> lookup t' q = lookup t q)"
  using assms
proof (induction rs arbitrary: i t recs)
  case Nil
  then show ?case by (simp add: holds_below_def)
next
  case (Cons x rs)
  then obtain b t1 r recs' where x: "x = RBytes b" and t1: "Put t (receipt_key i) b = Inr t1"
    and r: "Receipt_FromBytes b = Inr r" and rec: "receipts_loop rs (Suc i) t1 = Inr (t', recs')" "recs = r # recs'"
    by (auto simp: sum_simps AsBytes_def split: rlp.splits)
  have i: "i < 2 ^ 64" using Cons.prems(3) by simp
  have h: "holds_below (Suc i) t1" and l: "\<And>q. lookup t1 q = (if q = nkey i then Some b else lookup t q)"
    using Put_receipt [OF Cons.prems(2) i, of b] t1 by auto
  obtain bs where bs: "rs = map RBytes bs" "list_all2 (\<lambda>b r. Receipt_FromBytes b = Inr r) bs recs'"
    "canonical t'" "\<And>n. n < length bs \<Longrightarrow> lookup t' (nkey (Suc i + n)) = Some (bs ! n)"
    "\<And>q. (\<forall>n<length bs. q \<noteq> nkey (Suc i + n)) \<Longrightarrow> lookup t' q = lookup t1 q"
    using Cons.IH [OF rec(1) h] Cons.prems(3) by auto
  have "lookup t' (nkey (i + n)) = Some ((b # bs) ! n)" if n: "n < length (b # bs)" for n
  proof (cases n)
    case 0
    have "nkey i \<noteq> nkey (Suc i + m)" if "m < length bs" for m
    proof
      assume "nkey i = nkey (Suc i + m)"
      then have "i = Suc i + m"
        using that bs(1) Cons.prems(3) by (intro receipt_key_prefix) simp_all
      then show False by simp
    qed
    then show ?thesis using 0 bs(5) [of "nkey i"] l [of "nkey i"] by simp
  next
    case (Suc m)
    then show ?thesis using bs(4) [of m] n by simp
  qed
  moreover have "lookup t' q = lookup t q" if q: "\<forall>n<length (b # bs). q \<noteq> nkey (i + n)" for q
  proof -
    have "q \<noteq> nkey i" "\<forall>n<length bs. q \<noteq> nkey (Suc i + n)" using q by force+
    then show ?thesis using bs(5) [of q] l [of q] by simp
  qed
  ultimately show ?case
    using x r rec(2) bs(1-3) by (intro exI [of _ "b # bs"]) simp
qed

definition receipts_trie :: "rlp list \<Rightarrow> trie" where
  "receipts_trie receipts = (case receipts_loop receipts 0 Null of Inr (t, rs) \<Rightarrow> t | Inl e \<Rightarrow> Null)"

lemma ReceiptsMgr_new_trie:
  assumes "ReceiptsMgr_new receipts = Inr mgr" and "length receipts \<le> 2 ^ 64"
  defines "t \<equiv> receipts_trie receipts"
  obtains bs where "receipts = map RBytes bs" and "list_all2 (\<lambda>b r. Receipt_FromBytes b = Inr r) bs (m_receipts mgr)"
    and "canonical t" and "m_rootHashBytes mgr = trie_Hash t"
    and "\<And>n. n < length bs \<Longrightarrow> lookup t (nkey n) = Some (bs ! n)"
    and "\<And>q. (\<forall>n<length bs. q \<noteq> nkey n) \<Longrightarrow> lookup t q = None"
proof -
  obtain t0 rs where l: "receipts_loop receipts 0 Null = Inr (t0, rs)"
    "mgr = \<lparr>m_receipts = rs, m_rootHashBytes = trie_Hash t0\<rparr>"
    using assms(1) by (auto simp: ReceiptsMgr_new_def sum_simps)
  have "t = t0" using l by (simp add: t_def receipts_trie_def)
  moreover have "holds_below 0 Null" by (simp add: holds_below_def)
  ultimately show ?thesis
    using receipts_loop_trie [OF l(1)] assms(2) l(2) that by auto
qed

section \<open>No undefined behaviour\<close>

definition defined_exn :: "Exception \<Rightarrow> bool" where
  "defined_exn e \<longleftrightarrow> (\<forall>m. e \<noteq> UndefinedBehaviour m)"

lemma accessor_defined:
  "AsBytes x = Inl e \<Longrightarrow> defined_exn e" "AsList x = Inl e \<Longrightarrow> defined_exn e"
  "list_at xs i = Inl e \<Longrightarrow> defined_exn e"
  by (auto simp: AsBytes_def AsList_def list_at_def defined_exn_def split: rlp.splits if_splits)

lemma bind_defined:
  "bindE m f = Inl e \<Longrightarrow> (\<And>e. m = Inl e \<Longrightarrow> defined_exn e)
    \<Longrightarrow> (\<And>x e. m = Inr x \<Longrightarrow> f x = Inl e \<Longrightarrow> defined_exn e) \<Longrightarrow> defined_exn e"
  by (auto simp: sum_simps)

lemma Receipt_FromBytes_defined:
  assumes "Receipt_FromBytes b = Inl e"
  shows "defined_exn e"
proof -
  have t: "log_topics_loop ts = Inl e \<Longrightarrow> defined_exn e" for ts e
    by (induction ts) (auto simp: sum_simps AsBytes_def defined_exn_def split: rlp.splits if_splits)
  have n: "ReceiptLogEntry_new l = Inl e \<Longrightarrow> defined_exn e" for l e
  proof -
    have c: "defined_exn (Exception m)" for m by (simp add: defined_exn_def)
    show "ReceiptLogEntry_new l = Inl e \<Longrightarrow> defined_exn e"
      unfolding ReceiptLogEntry_new_def
      by (auto simp: sum_simps c dest: t accessor_defined split: if_splits)
  qed
  have l: "log_entries_loop ls = Inl e \<Longrightarrow> defined_exn e" for ls e
  proof (induction ls arbitrary: e)
    case (Cons x xs)
    from Cons.prems show ?case
      unfolding log_entries_loop.simps
      by (elim bind_defined) (auto dest: n accessor_defined Cons.IH)
  qed simp
  have p: "ParseReceipt b = Inl e \<Longrightarrow> defined_exn e" for e
    unfolding ParseReceipt_def Let_def
    by (erule bind_defined) (auto dest: accessor_defined simp: defined_exn_def split: sum.splits)
  have r: "Receipt_new x = Inl e \<Longrightarrow> defined_exn e" for x e
    unfolding Receipt_new_def by (elim bind_defined) (auto dest: accessor_defined l)
  show ?thesis
    using assms unfolding Receipt_FromBytes_def by (elim bind_defined) (auto dest: p r)
qed

lemma receipts_loop_defined:
  "receipts_loop rs i t = Inl e \<Longrightarrow> holds_below i t \<Longrightarrow> i + length rs \<le> 2 ^ 64 \<Longrightarrow> defined_exn e"
proof (induction rs arbitrary: i t)
  case (Cons x rs)
  have i: "i < 2 ^ 64" using Cons.prems(3) by simp
  show ?case
  proof (cases x)
    case (RBytes b)
    obtain t1 where t1: "Put t (receipt_key i) b = Inr t1" "holds_below (Suc i) t1"
      using Put_receipt [OF Cons.prems(2) i, of b] by blast
    with Cons RBytes show ?thesis
      using Receipt_FromBytes_defined [of b e] Cons.IH [OF _ t1(2)]
      by (auto simp: sum_simps AsBytes_def)
  next
    case (RList xs)
    then show ?thesis using Cons.prems(1) by (auto simp: AsBytes_def sum_simps defined_exn_def)
  qed
qed simp

lemma topics_match_prefix: "topics_match ts tps \<longleftrightarrow> prefix ts tps"
  by (induction ts tps rule: topics_match.induct) auto


lemma IsEventEmitted_iff:
  "IsEventEmitted addr topics e \<longleftrightarrow> log_contractAddr e = addr \<and> prefix topics (log_topics e)"
  by (simp add: IsEventEmitted_def topics_match_prefix)

lemma Receipt_FromBytes_nonempty: "Receipt_FromBytes b = Inr r \<Longrightarrow> b \<noteq> []"
  by (auto simp: Receipt_FromBytes_def ParseReceipt_def list_at_def sum_simps)

lemma receipts_no_empty_value:
  assumes "ReceiptsMgr_new receipts = Inr mgr" and "length receipts \<le> 2 ^ 64"
  shows "no_empty_value (receipts_trie receipts)"
proof -
  obtain bs where bs: "list_all2 (\<lambda>b r. Receipt_FromBytes b = Inr r) bs (m_receipts mgr)"
    "\<And>n. n < length bs \<Longrightarrow> lookup (receipts_trie receipts) (nkey n) = Some (bs ! n)"
    "\<And>q. (\<forall>n<length bs. q \<noteq> nkey n) \<Longrightarrow> lookup (receipts_trie receipts) q = None"
    using ReceiptsMgr_new_trie [OF assms] that by metis
  have "bs ! n \<noteq> []" if "n < length bs" for n
    using bs(1) that Receipt_FromBytes_nonempty by (auto simp: list_all2_conv_all_nth)
  then show ?thesis using bs(2,3) unfolding no_empty_value_def by (metis option.distinct(1) option.inject)
qed

lemma receipts_trie_inj:
  assumes "ReceiptsMgr_new rs = Inr m" and "ReceiptsMgr_new rs' = Inr m'"
    and "length rs \<le> 2 ^ 64" and "length rs' \<le> 2 ^ 64"
    and "receipts_trie rs = receipts_trie rs'"
  shows "rs = rs'"
proof -
  obtain bs where bs: "rs = map RBytes bs"
    "\<And>n. n < length bs \<Longrightarrow> lookup (receipts_trie rs) (nkey n) = Some (bs ! n)"
    "\<And>q. (\<forall>n<length bs. q \<noteq> nkey n) \<Longrightarrow> lookup (receipts_trie rs) q = None"
    using ReceiptsMgr_new_trie [OF assms(1,3)] that by metis
  obtain bs' where bs': "rs' = map RBytes bs'"
    "\<And>n. n < length bs' \<Longrightarrow> lookup (receipts_trie rs') (nkey n) = Some (bs' ! n)"
    "\<And>q. (\<forall>n<length bs'. q \<noteq> nkey n) \<Longrightarrow> lookup (receipts_trie rs') q = None"
    using ReceiptsMgr_new_trie [OF assms(2,4)] that by metis
  have le: "length xs \<le> length ys"
    if a: "\<And>n. n < length xs \<Longrightarrow> lookup t (nkey n) = Some (xs ! n)"
      "\<And>q. (\<forall>n<length ys. q \<noteq> nkey n) \<Longrightarrow> lookup t q = None" "length xs \<le> 2 ^ 64"
    for xs ys :: "u8 list list" and t
  proof (rule ccontr)
    assume "\<not> length xs \<le> length ys"
    then have y: "length ys < length xs" by simp
    have "nkey (length ys) \<noteq> nkey n" if "n < length ys" for n
      using receipt_key_prefix [of "length ys" n] that y a(3) by auto
    then have "lookup t (nkey (length ys)) = None" using a(2) by blast
    then show False using a(1) [OF y] by simp
  qed
  have "length bs = length bs'"
    using le [of bs "receipts_trie rs" bs'] le [of bs' "receipts_trie rs'" bs] bs bs' assms(3-5)
    by (simp add: le_antisym)
  moreover have "bs ! n = bs' ! n" if "n < length bs" "n < length bs'" for n
    using bs(2) [OF that(1)] bs'(2) [OF that(2)] assms(5) by simp
  ultimately have "bs = bs'" by (simp add: list_eq_iff_nth_eq)
  then show ?thesis using bs(1) bs'(1) by simp
qed

lemma receipts_trie_Null:
  assumes "ReceiptsMgr_new rs = Inr m" and "length rs \<le> 2 ^ 64" and "rs \<noteq> []"
  shows "receipts_trie rs \<noteq> Null"
proof -
  obtain bs where "rs = map RBytes bs"
    "\<And>n. n < length bs \<Longrightarrow> lookup (receipts_trie rs) (nkey n) = Some (bs ! n)"
    using ReceiptsMgr_new_trie [OF assms(1,2)] that by metis
  then have "lookup (receipts_trie rs) (nkey 0) \<noteq> None" using assms(3) by auto
  then show ?thesis by auto
qed

lemma receipts_binding:
  assumes "ReceiptsMgr_new rs = Inr m" and "ReceiptsMgr_new rs' = Inr m'"
    and "rs \<noteq> []" and "rs' \<noteq> []" and "length rs \<le> 2 ^ 64" and "length rs' \<le> 2 ^ 64"
    and "binding (encodings (receipts_trie rs) \<union> encodings (receipts_trie rs'))"
    and "m_rootHashBytes m = m_rootHashBytes m'"
  shows "rs = rs'"
proof (rule receipts_trie_inj [OF assms(1,2,5,6)])
  have "canonical (receipts_trie rs)" "m_rootHashBytes m = trie_Hash (receipts_trie rs)"
    "canonical (receipts_trie rs')" "m_rootHashBytes m' = trie_Hash (receipts_trie rs')"
    using ReceiptsMgr_new_trie [OF assms(1,5)] ReceiptsMgr_new_trie [OF assms(2,6)] by metis+
  then show "receipts_trie rs = receipts_trie rs'"
    using assms receipts_no_empty_value receipts_trie_Null by (intro trie_Hash_inj) auto
qed

text \<open>Two lists of receipts on whose encodings Keccak-256 does not collide, the empty list included.\<close>

definition no_collision :: "rlp list \<Rightarrow> rlp list \<Rightarrow> bool" where
  "no_collision rs rs' \<longleftrightarrow> binding (encodings (receipts_trie rs) \<union> encodings (receipts_trie rs')) \<and>
     ((rs = []) \<noteq> (rs' = []) \<longrightarrow> trie_Hash (receipts_trie rs) \<noteq> trie_Hash (receipts_trie rs'))"

lemma receipts_same_root:
  assumes "ReceiptsMgr_new rs = Inr m" and "ReceiptsMgr_new rs' = Inr m'"
    and "length rs \<le> 2 ^ 64" and "length rs' \<le> 2 ^ 64" and "no_collision rs rs'"
    and "m_rootHashBytes m = m_rootHashBytes m'"
  shows "rs = rs'"
proof (cases "rs = [] \<or> rs' = []")
  case True
  have "m_rootHashBytes m = trie_Hash (receipts_trie rs)" "m_rootHashBytes m' = trie_Hash (receipts_trie rs')"
    using ReceiptsMgr_new_trie [OF assms(1,3)] ReceiptsMgr_new_trie [OF assms(2,4)] by metis+
  then show ?thesis using True assms(5,6) unfolding no_collision_def by metis
next
  case False
  with assms show ?thesis by (intro receipts_binding [of rs m rs' m']) (simp_all add: no_collision_def)
qed

text \<open>A block with one receipt, without log entries, for the concrete instances.\<close>

definition one_receipt :: bytes where
  "one_receipt = [0xC4, 0x80, 0x80, 0x80, 0xC0]"

lemma one_receipt_loop:
  "receipts_loop [RBytes one_receipt] 0 Null = Inr (Leaf [8, 0] one_receipt, [[]])"
  by code_simp

lemma one_receipt_new:
  "ReceiptsMgr_new [RBytes one_receipt]
     = Inr \<lparr>m_receipts = [[]], m_rootHashBytes = trie_Hash (Leaf [8, 0] one_receipt)\<rparr>"
  unfolding ReceiptsMgr_new_def one_receipt_loop by simp

lemma one_receipt_trie: "receipts_trie [RBytes one_receipt] = Leaf [8, 0] one_receipt"
  unfolding receipts_trie_def one_receipt_loop by simp

section \<open>Properties\<close>

text \<open>The receipts of a block: when \<open>ReceiptsMgr\<close> accepts the list, every element is a byte string
  that parses to the receipt it keeps, and the root hash is the hash of a trie of canonical shape
  that holds each receipt under the RLP encoding of its index and nothing else.\<close>

theorem ReceiptsMgr_trie:
  assumes "ReceiptsMgr_new receipts = Inr mgr" and "length receipts \<le> 2 ^ 64"
  shows "\<exists>t. canonical t \<and> m_rootHashBytes mgr = trie_Hash t
    \<and> length (m_receipts mgr) = length receipts
    \<and> (\<forall>n<length receipts. \<exists>b. receipts ! n = RBytes b
          \<and> Receipt_FromBytes b = Inr (m_receipts mgr ! n)
          \<and> lookup t (NibblesFromBytes (receipt_key n)) = Some b)
    \<and> (\<forall>q. (\<forall>n<length receipts. q \<noteq> NibblesFromBytes (receipt_key n)) \<longrightarrow> lookup t q = None)"
proof -
  obtain bs where bs: "receipts = map RBytes bs"
    "list_all2 (\<lambda>b r. Receipt_FromBytes b = Inr r) bs (m_receipts mgr)"
    "canonical (receipts_trie receipts)" "m_rootHashBytes mgr = trie_Hash (receipts_trie receipts)"
    "\<forall>n<length bs. lookup (receipts_trie receipts) (nkey n) = Some (bs ! n)"
    "\<forall>q. (\<forall>n<length bs. q \<noteq> nkey n) \<longrightarrow> lookup (receipts_trie receipts) q = None"
    using ReceiptsMgr_new_trie [OF assms] that by metis
  show ?thesis
    by (rule exI [of _ "receipts_trie receipts"])
       (use bs in \<open>simp add: list_all2_conv_all_nth\<close>)
qed

theorem ReceiptsMgr_trie_witness:
  "\<exists>t mgr. ReceiptsMgr_new [RBytes one_receipt] = Inr mgr \<and> m_rootHashBytes mgr = trie_Hash t
     \<and> lookup t (NibblesFromBytes (receipt_key 0)) = Some one_receipt"
  using ReceiptsMgr_trie [OF one_receipt_new] one_receipt_new by auto

text \<open>C20. The receipts root binds the receipts: two non-empty lists of receipts that \<open>ReceiptsMgr\<close>
  accepts with the same root hash are the same list, as long as Keccak-256 does not collide on the
  encodings of the nodes of the two tries.\<close>

theorem receipts_root_binding:
  assumes "ReceiptsMgr_new rs = Inr m" and "ReceiptsMgr_new rs' = Inr m'"
    and "rs \<noteq> []" and "rs' \<noteq> []" and "length rs \<le> 2 ^ 64" and "length rs' \<le> 2 ^ 64"
    and "inj_on Keccak256 (encodings (receipts_trie rs) \<union> encodings (receipts_trie rs'))"
    and "\<forall>e\<in>encodings (receipts_trie rs) \<union> encodings (receipts_trie rs'). length e < 2 ^ 64"
    and "m_rootHashBytes m = m_rootHashBytes m'"
  shows "rs = rs'"
  using assms by (intro receipts_binding [of rs m rs' m']) (simp_all add: binding_def)

theorem receipts_root_binding_witness:
  "\<exists>rs m. ReceiptsMgr_new rs = Inr m \<and> m_rootHashBytes m = trie_Hash (Leaf [8, 0] one_receipt)
     \<and> rs = [RBytes one_receipt]"
proof -
  have "length (Write (Raw (Leaf [8, 0] one_receipt))) = 10" by code_simp
  then have eq: "[RBytes one_receipt] = [RBytes one_receipt]"
    by (intro receipts_root_binding [OF one_receipt_new one_receipt_new]) (simp_all add: one_receipt_trie)
  show ?thesis
    by (intro exI, rule conjI [OF one_receipt_new conjI [OF _ eq]]) simp
qed

text \<open>Parsing the receipts of a block never runs into undefined behaviour, whatever bytes the host
  sends: every failure is an exception of the code.\<close>

theorem ReceiptsMgr_defined:
  assumes "length receipts \<le> 2 ^ 64"
  shows "ReceiptsMgr_new receipts \<noteq> Inl (UndefinedBehaviour msg)"
proof
  assume "ReceiptsMgr_new receipts = Inl (UndefinedBehaviour msg)"
  then have "receipts_loop receipts 0 Null = Inl (UndefinedBehaviour msg)"
    by (auto simp: ReceiptsMgr_new_def sum_simps)
  moreover have "holds_below 0 Null" by (simp add: holds_below_def)
  ultimately show False using receipts_loop_defined [of receipts 0 Null] assms by (force simp: defined_exn_def)
qed

theorem ReceiptsMgr_defined_witness:
  "ReceiptsMgr_new [RBytes [], RList []] \<noteq> Inl (UndefinedBehaviour [])"
  by (rule ReceiptsMgr_defined) simp

text \<open>\<open>SearchEvents\<close> returns, in the order of the receipts and of the entries in each, exactly the
  log entries of the wanted contract whose topics start with the wanted ones.\<close>

theorem SearchEvents_correct:
  "ReceiptsMgr_SearchEvents addr topics mgr
     = filter (\<lambda>e. log_contractAddr e = addr \<and> prefix topics (log_topics e)) (concat (m_receipts mgr))"
  by (simp add: ReceiptsMgr_SearchEvents_def Receipt_SearchEvents_def [abs_def] IsEventEmitted_iff [abs_def] filter_concat)

end
