(* ===== verification/EthEvents.thy ===== *)
theory EthEvents
  imports EthReceipts
begin

text \<open>
  \<open>EclipseMonitor/Eth/BloomFilter.hpp\<close>, \<open>EventDescription.hpp\<close>, \<open>EventManager.hpp\<close>, and the
  synchronisation messages of \<open>SyncMsgMgrBase.hpp\<close> and \<open>Eth/SyncMsgMgr.hpp\<close>.

  A listener's callback is either the one \<open>RegisterSyncEvent_Locked\<close> builds, which captures a shared
  pointer to a \<open>SyncState\<close> (an index into the list of sync states made so far), or a callback of the
  client, a value of the type variable whose effect is the parameter \<open>ucb\<close>. The identifier of a
  listener is the address of its description, which the parameter \<open>alloc\<close> chooses from the
  addresses in use; locale \<open>allocator\<close> is what the code relies on there. The iteration order of the
  hash map, which C++ leaves open, is the order of the association list.
\<close>

section \<open>BloomFilter\<close>

definition bloom_index :: "u8 \<Rightarrow> u8 \<Rightarrow> nat" where
  "bloom_index hi lo =
     (let i = (push_bit 8 (ucast hi) OR ucast lo :: u16);
          i = drop_bit 3 (i AND 0x7FF);
          i = 256 - i - 1
      in unat i)"

definition bloom_mask :: "u8 \<Rightarrow> u8" where
  "bloom_mask lo = push_bit (unat (lo AND 0x7)) 1"

definition CheckBloomBits :: "bytes \<Rightarrow> bytes \<Rightarrow> bool" where
  "CheckBloomBits bloom hashedData =
     (let v1 = bloom_mask (hashedData ! 1);
          v2 = bloom_mask (hashedData ! 3);
          v3 = bloom_mask (hashedData ! 5);
          i1 = bloom_index (hashedData ! 0) (hashedData ! 1);
          i2 = bloom_index (hashedData ! 2) (hashedData ! 3);
          i3 = bloom_index (hashedData ! 4) (hashedData ! 5)
      in (bloom ! i1) AND v1 \<noteq> 0 \<and> (bloom ! i2) AND v2 \<noteq> 0 \<and> (bloom ! i3) AND v3 \<noteq> 0)"

fun AreHashesInBloom :: "bytes \<Rightarrow> bytes list \<Rightarrow> bool" where
  "AreHashesInBloom bloom [] = True"
| "AreHashesInBloom bloom (h # hs) = (if \<not> CheckBloomBits bloom h then False else AreHashesInBloom bloom hs)"

definition IsEventInBloom :: "bytes \<Rightarrow> bytes list \<Rightarrow> bool" where
  "IsEventInBloom bloom eventData = AreHashesInBloom bloom (map Keccak256 eventData)"

definition Count1BitsInByte :: "u8 \<Rightarrow> nat" where
  "Count1BitsInByte byte =
     unat (byte AND 0x01) + unat (drop_bit 1 (byte AND 0x02)) + unat (drop_bit 2 (byte AND 0x04))
     + unat (drop_bit 3 (byte AND 0x08)) + unat (drop_bit 4 (byte AND 0x10))
     + unat (drop_bit 5 (byte AND 0x20)) + unat (drop_bit 6 (byte AND 0x40))
     + unat (drop_bit 7 (byte AND 0x80))"

definition Count1Bits :: "bytes \<Rightarrow> nat" where
  "Count1Bits bloom = foldl (\<lambda>count i. count + Count1BitsInByte (bloom ! i)) 0 [0..<256]"

definition Count0Bits :: "bytes \<Rightarrow> nat" where
  "Count0Bits bloom = 2048 - Count1Bits bloom"

subsection \<open>The bits of a filter\<close>

text \<open>Bit \<open>m\<close> of the filter read as one big-endian number, and the three bit numbers of a hash: the
  low eleven bits of its first three pairs of bytes.\<close>

definition bloom_bit :: "bytes \<Rightarrow> nat \<Rightarrow> bool" where
  "bloom_bit bloom m \<longleftrightarrow> bit (bloom ! (255 - m div 8)) (m mod 8)"

definition bloom_numbers :: "bytes \<Rightarrow> nat list" where
  "bloom_numbers h = map (\<lambda>k. (256 * unat (h ! (2 * k)) + unat (h ! (2 * k + 1))) mod 2048) [0, 1, 2]"

lemma unat_pair: "unat (push_bit 8 (ucast hi) OR ucast lo :: u16) = 256 * unat (hi :: u8) + unat (lo :: u8)"
proof -
  have lt: "unat hi < 256" "unat lo < 256" by (rule order_less_le_trans [OF unsigned_less], simp)+
  have "(push_bit 8 (ucast hi) OR ucast lo :: u16) = push_bit 8 (ucast hi) + ucast lo"
  proof (rule disjunctive_add_eq_or [symmetric], rule bit_word_eqI)
    fix n assume "n < LENGTH(16)"
    show "bit (push_bit 8 (ucast hi) AND ucast lo :: u16) n = bit (0 :: u16) n"
      using bit_imp_le_length [of lo n] by (auto simp: bit_simps)
  qed
  moreover have "unat (push_bit 8 (ucast hi) :: u16) = 256 * unat hi"
    using lt by (simp add: push_bit_eq_mult unat_word_ariths unsigned_ucast_eq take_bit_eq_mod)
  moreover have "unat (ucast lo :: u16) = unat lo"
    using lt by (simp add: unsigned_ucast_eq take_bit_eq_mod)
  ultimately show ?thesis using lt by (simp add: unat_word_ariths)
qed

lemma bloom_index_eq: "bloom_index hi lo = 255 - (256 * unat hi + unat lo) mod 2048 div 8"
proof -
  let ?m = "(256 * unat hi + unat lo) mod 2048"
  let ?i = "drop_bit 3 ((push_bit 8 (ucast hi) OR ucast lo) AND 0x7FF) :: u16"
  have "unat ((push_bit 8 (ucast hi) OR ucast lo :: u16) AND mask 11) = ?m"
    unfolding unat_and_mask unat_pair by simp
  moreover have "mask 11 = (0x7FF :: u16)" by (simp add: mask_eq_exp_minus_1)
  moreover have "unat (drop_bit 3 x) = unat x div 8" for x :: u16
    by (simp add: drop_bit_eq_div unat_div)
  ultimately have i: "unat ?i = ?m div 8" by metis
  have lt: "?m div 8 < 256" by (simp add: div_less_iff_less_mult)
  have "unat (256 - ?i - 1) = 255 - unat ?i"
    using i lt by (simp add: unat_sub_if')
  then show ?thesis using i by (simp add: bloom_index_def Let_def)
qed

lemma and_bit_nonzero: "(b :: u8) AND push_bit k 1 \<noteq> 0 \<longleftrightarrow> bit b k"
  unfolding push_bit_of_1 and_exp_eq_0_iff_not_bit by simp

lemma bloom_mask_bit: "(b AND bloom_mask lo \<noteq> 0) \<longleftrightarrow> bit b (unat lo mod 8)"
proof -
  have "mask 3 = (0x7 :: u8)" by (simp add: mask_eq_exp_minus_1)
  then have "unat (lo AND 0x7) = unat lo mod 8" using unat_and_mask [of lo 3] by simp
  then show ?thesis unfolding bloom_mask_def and_bit_nonzero by simp
qed

lemma bloom_test:
  "(bloom ! bloom_index hi lo) AND bloom_mask lo \<noteq> 0 \<longleftrightarrow> bloom_bit bloom ((256 * unat hi + unat lo) mod 2048)"
proof -
  have "256 * unat hi + unat lo = unat lo + 8 * (32 * unat hi)" by simp
  then have "(256 * unat hi + unat lo) mod 8 = unat lo mod 8" by (metis mod_mult_self2)
  moreover have "m mod 2048 mod 8 = m mod (8 :: nat)" for m by (rule mod_mod_cancel) simp
  ultimately have "unat lo mod 8 = (256 * unat hi + unat lo) mod 2048 mod 8" by metis
  then show ?thesis by (simp add: bloom_mask_bit bloom_index_eq bloom_bit_def)
qed

lemma CheckBloomBits_iff: "CheckBloomBits bloom h \<longleftrightarrow> (\<forall>m\<in>set (bloom_numbers h). bloom_bit bloom m)"
  using bloom_test by (simp add: CheckBloomBits_def Let_def bloom_numbers_def)

lemma AreHashesInBloom_iff: "AreHashesInBloom bloom hs \<longleftrightarrow> (\<forall>h\<in>set hs. CheckBloomBits bloom h)"
  by (induction hs) auto

lemma unat_single_bit: "unat (drop_bit k (b AND push_bit k 1)) = of_bool (bit (b :: u8) k)" if "k < 8"
proof -
  have "drop_bit k (b AND push_bit k 1) = of_bool (bit b k)"
    using that by (auto intro!: bit_word_eqI simp: bit_simps)
  then show ?thesis by simp
qed

lemma Count1BitsInByte_eq: "Count1BitsInByte b = (\<Sum>k<8. of_bool (bit b k))"
  using unat_single_bit [of 0 b] unat_single_bit [of 1 b] unat_single_bit [of 2 b] unat_single_bit [of 3 b]
    unat_single_bit [of 4 b] unat_single_bit [of 5 b] unat_single_bit [of 6 b] unat_single_bit [of 7 b]
  unfolding Count1BitsInByte_def by (simp add: eval_nat_numeral)


section \<open>Hash maps\<close>

text \<open>\<open>std::unordered_map\<close> with unique keys: \<open>insert\<close> and \<open>emplace\<close> do nothing when the key is there.\<close>

definition map_emplace :: "'k \<Rightarrow> 'v \<Rightarrow> ('k \<times> 'v) list \<Rightarrow> ('k \<times> 'v) list" where
  "map_emplace k v m = (if map_of m k = None then m @ [(k, v)] else m)"

definition map_erase :: "'k \<Rightarrow> ('k \<times> 'v) list \<Rightarrow> ('k \<times> 'v) list" where
  "map_erase k m = filter (\<lambda>e. fst e \<noteq> k) m"

definition map_assign :: "'k \<Rightarrow> 'v \<Rightarrow> ('k \<times> 'v) list \<Rightarrow> ('k \<times> 'v) list" where
  "map_assign k v m =
     (if map_of m k = None then m @ [(k, v)] else map (\<lambda>e. if fst e = k then (k, v) else e) m)"

lemma map_of_emplace [simp]:
  "map_of (map_emplace k v m) k' = (if k' = k \<and> map_of m k = None then Some v else map_of m k')"
  by (auto simp: map_emplace_def map_of_append map_add_def split: option.splits)

lemma map_of_erase [simp]: "map_of (map_erase k m) k' = (if k' = k then None else map_of m k')"
  by (induction m) (auto simp: map_erase_def)

lemma map_of_replace:
  "map_of (map (\<lambda>e. if fst e = k then (k, v) else e) m) k'
     = (if k' = k then map_option (\<lambda>_. v) (map_of m k) else map_of m k')"
  by (induction m) auto

lemma map_of_assign [simp]: "map_of (map_assign k v m) k' = (if k' = k then Some v else map_of m k')"
  by (auto simp: map_assign_def map_of_replace map_of_append map_add_def split: option.splits)

lemma distinct_emplace: "distinct (map fst m) \<Longrightarrow> distinct (map fst (map_emplace k v m))"
  by (auto simp: map_emplace_def map_of_eq_None_iff)

lemma distinct_erase: "distinct (map fst m) \<Longrightarrow> distinct (map fst (map_erase k m))"
  by (induction m) (auto simp: map_erase_def)

lemma set_erase: "set (map_erase k m) = {e \<in> set m. fst e \<noteq> k}"
  by (auto simp: map_erase_def)

lemma set_emplace: "map_of m k = None \<Longrightarrow> set (map_emplace k v m) = insert (k, v) (set m)"
  by (simp add: map_emplace_def)

section \<open>SyncState\<close>

record SyncState =
  m_maxWaitTime :: TrustedTimestamp
  m_genTime :: TrustedTimestamp
  m_nonce :: bytes
  m_isSynced :: bool

definition SyncState_new :: "TrustedTimestamp \<Rightarrow> TrustedTimestamp \<Rightarrow> bytes \<Rightarrow> SyncState" where
  "SyncState_new maxWait nowInSec randomBytes =
     \<lparr>m_maxWaitTime = maxWait, m_genTime = nowInSec, m_nonce = randomBytes, m_isSynced = False\<rparr>"

definition SetSynced :: "TrustedTimestamp \<Rightarrow> SyncState \<Rightarrow> SyncState" where
  "SetSynced recvTime st =
     (let deltaT = recvTime - m_genTime st in
      if deltaT \<le> m_maxWaitTime st then st\<lparr>m_isSynced := True\<rparr> else st)"

section \<open>EventManager\<close>

datatype 'c NotifyCallback = SyncCallback nat | UserCallback 'c

record 'c EventDescription =
  m_contractAddr :: bytes
  m_topics :: "bytes list"
  m_hashes :: "bytes list"
  m_notifyCallback :: "'c NotifyCallback"

definition EventDescription_new :: "bytes \<Rightarrow> bytes list \<Rightarrow> 'c NotifyCallback \<Rightarrow> 'c EventDescription" where
  "EventDescription_new contractAddr topics notifyCallback =
     \<lparr>m_contractAddr = contractAddr, m_topics = topics,
      m_hashes = Keccak256 contractAddr # map Keccak256 topics, m_notifyCallback = notifyCallback\<rparr>"

type_synonym 'c EventManager = "(nat \<times> 'c EventDescription) list"

definition Listen :: "(nat list \<Rightarrow> nat) \<Rightarrow> 'c EventDescription \<Rightarrow> 'c EventManager \<Rightarrow> nat \<times> 'c EventManager" where
  "Listen alloc subDesc mgr =
     (let i = alloc (map fst mgr) in (i, map_emplace i subDesc mgr))"

definition Cancel :: "nat \<Rightarrow> 'c EventManager \<Rightarrow> 'c EventManager" where
  "Cancel i mgr = (case map_of mgr i of Some d \<Rightarrow> map_erase i mgr | None \<Rightarrow> mgr)"

definition GetNumOfListeners :: "'c EventManager \<Rightarrow> nat" where
  "GetNumOfListeners mgr = length mgr"

definition BloomEventDesc :: "bytes \<Rightarrow> 'c EventManager \<Rightarrow> 'c EventManager" where
  "BloomEventDesc bloom mgr = filter (\<lambda>e. AreHashesInBloom bloom (m_hashes (snd e))) mgr"

type_synonym 'c CallbackPlan = "(nat \<times> 'c NotifyCallback) \<times> ReceiptLogEntry list"

fun GenCallbackPlan :: "ReceiptsMgr \<Rightarrow> 'c EventManager \<Rightarrow> 'c CallbackPlan list" where
  "GenCallbackPlan rm [] = []"
| "GenCallbackPlan rm ((i, desc) # es) =
     (let logs = ReceiptsMgr_SearchEvents (m_contractAddr desc) (m_topics desc) rm in
      if logs \<noteq> [] then ((i, m_notifyCallback desc), logs) # GenCallbackPlan rm es else GenCallbackPlan rm es)"

text \<open>What callbacks work on: the listeners, the sync states, and the state of the client.\<close>

record ('c, 's) event_state =
  listeners :: "'c EventManager"
  sync_states :: "SyncState list"
  client :: 's

type_synonym ('c, 's) user_callback =
  "'c \<Rightarrow> HeaderMgr \<Rightarrow> ReceiptLogEntry \<Rightarrow> nat \<Rightarrow> 'c EventManager \<times> 's \<Rightarrow> Exception + ('c EventManager \<times> 's)"

text \<open>The lambda of \<open>RegisterSyncEvent_Locked\<close>; the event manager is alive while it runs a callback.\<close>

definition sync_callback :: "nat \<Rightarrow> HeaderMgr \<Rightarrow> nat \<Rightarrow> ('c, 's) event_state \<Rightarrow> ('c, 's) event_state" where
  "sync_callback p headerMgr cbID w =
     (let w = (if \<not> m_isSynced (sync_states w ! p)
               then w\<lparr>sync_states := (sync_states w)[p := SetSynced (m_trustedTime headerMgr) (sync_states w ! p)]\<rparr>
               else w)
      in w\<lparr>listeners := Cancel cbID (listeners w)\<rparr>)"

fun run_callback :: "('c, 's) user_callback \<Rightarrow> HeaderMgr \<Rightarrow> nat \<Rightarrow> 'c NotifyCallback \<Rightarrow> ReceiptLogEntry
    \<Rightarrow> ('c, 's) event_state \<Rightarrow> Exception + ('c, 's) event_state" where
  "run_callback ucb hdr i (SyncCallback p) entry w = Inr (sync_callback p hdr i w)"
| "run_callback ucb hdr i (UserCallback c) entry w =
     bindE (ucb c hdr entry i (listeners w, client w)) (\<lambda>(ls, s).
     Inr (w\<lparr>listeners := ls, client := s\<rparr>))"

fun conduct_logs :: "('c, 's) user_callback \<Rightarrow> HeaderMgr \<Rightarrow> nat \<times> 'c NotifyCallback \<Rightarrow> ReceiptLogEntry list
    \<Rightarrow> ('c, 's) event_state \<Rightarrow> Exception + ('c, 's) event_state" where
  "conduct_logs ucb hdr plan [] w = Inr w"
| "conduct_logs ucb hdr plan (l # ls) w =
     bindE (run_callback ucb hdr (fst plan) (snd plan) l w) (conduct_logs ucb hdr plan ls)"

fun ConductCallbackPlan :: "('c, 's) user_callback \<Rightarrow> HeaderMgr \<Rightarrow> 'c CallbackPlan list
    \<Rightarrow> ('c, 's) event_state \<Rightarrow> Exception + ('c, 's) event_state" where
  "ConductCallbackPlan ucb hdr [] w = Inr w"
| "ConductCallbackPlan ucb hdr (plan # plans) w =
     bindE (conduct_logs ucb hdr (fst plan) (snd plan) w) (ConductCallbackPlan ucb hdr plans)"

definition CheckEvents :: "('c, 's) user_callback \<Rightarrow> HeaderMgr \<Rightarrow> (BlockNumber \<Rightarrow> Exception + ReceiptsMgr)
    \<Rightarrow> ('c, 's) event_state \<Rightarrow> Exception + ('c, 's) event_state" where
  "CheckEvents ucb headerMgr receiptsMgrGetter w =
     (let bloomedEvents = BloomEventDesc (LogsBloom (m_rawHeader headerMgr)) (listeners w) in
      if bloomedEvents = [] then Inr w
      else
        bindE (receiptsMgrGetter (m_blkNum headerMgr)) (\<lambda>receiptsMgr.
        if m_rootHashBytes receiptsMgr \<noteq> ReceiptsRoot (m_rawHeader headerMgr)
        then Inl (Exception ''Receipts root mismatch'')
        else ConductCallbackPlan ucb headerMgr (GenCallbackPlan receiptsMgr bloomedEvents) w))"

section \<open>SyncMsgMgr\<close>

record SyncMsgMgr =
  sm_maxWaitTime :: TrustedTimestamp
  sm_sessId :: bytes
  m_lastSyncState :: nat
  m_syncContractAddr :: bytes
  m_eventSign :: bytes
  m_syncEventCallbackId :: nat

definition GetSessIdFromVec :: "bytes \<Rightarrow> Exception + bytes" where
  "GetSessIdFromVec sessIdVec =
     (if length sessIdVec \<noteq> 16 then Inl (Exception ''Invalid session ID size'') else Inr sessIdVec)"

text \<open>The session ID, followed by zeros up to the 32 bytes of a topic.\<close>

definition session_topic :: "bytes \<Rightarrow> bytes" where
  "session_topic sessId = memcpy_at (replicate 32 0) 0 sessId"

definition RegisterSyncEvent :: "(nat list \<Rightarrow> nat) \<Rightarrow> nat \<Rightarrow> SyncState \<Rightarrow> SyncMsgMgr
    \<Rightarrow> 'c EventManager option \<Rightarrow> Exception + (nat \<times> 'c EventManager)" where
  "RegisterSyncEvent alloc p syncState sm eventMgr =
     (let eventDesc = EventDescription_new (m_syncContractAddr sm)
            [m_eventSign sm, session_topic (sm_sessId sm), m_nonce syncState] (SyncCallback p)
      in case eventMgr of
           Some mgr \<Rightarrow> Inr (Listen alloc eventDesc mgr)
         | None \<Rightarrow> Inl (Exception ''Event manager is not available''))"

text \<open>The constructor: the new sync state is put at the end of the list of sync states.\<close>

definition SyncMsgMgr_new :: "(nat list \<Rightarrow> nat) \<Rightarrow> bytes \<Rightarrow> TrustedTimestamp \<Rightarrow> TrustedTimestamp \<Rightarrow> bytes
    \<Rightarrow> bytes \<Rightarrow> bytes \<Rightarrow> SyncState list \<Rightarrow> 'c EventManager option
    \<Rightarrow> Exception + (SyncMsgMgr \<times> SyncState list \<times> 'c EventManager)" where
  "SyncMsgMgr_new alloc sessionID syncMaxWait nowInSec randomBytes syncContractAddr eventSign heap eventMgr =
     bindE (GetSessIdFromVec sessionID) (\<lambda>sessId.
     let st = SyncState_new syncMaxWait nowInSec randomBytes;
         p = length heap;
         sm = \<lparr>sm_maxWaitTime = syncMaxWait, sm_sessId = sessId, m_lastSyncState = p,
               m_syncContractAddr = syncContractAddr, m_eventSign = eventSign, m_syncEventCallbackId = 0\<rparr>
     in bindE (RegisterSyncEvent alloc p st sm eventMgr) (\<lambda>(i, mgr).
        Inr (sm\<lparr>m_syncEventCallbackId := i\<rparr>, heap @ [st], mgr)))"

definition NewSyncState :: "(nat list \<Rightarrow> nat) \<Rightarrow> TrustedTimestamp \<Rightarrow> bytes \<Rightarrow> SyncMsgMgr \<Rightarrow> SyncState list
    \<Rightarrow> 'c EventManager option \<Rightarrow> Exception + (SyncMsgMgr \<times> SyncState list \<times> 'c EventManager)" where
  "NewSyncState alloc nowInSec randomBytes sm heap eventMgr =
     (let eventMgr = (case eventMgr of Some mgr \<Rightarrow> Some (Cancel (m_syncEventCallbackId sm) mgr) | None \<Rightarrow> None);
          st = SyncState_new (sm_maxWaitTime sm) nowInSec randomBytes;
          p = length heap
      in bindE (RegisterSyncEvent alloc p st sm eventMgr) (\<lambda>(i, mgr).
         let sm = sm\<lparr>m_syncEventCallbackId := i\<rparr>;
             sm = sm\<lparr>m_lastSyncState := p\<rparr>
         in Inr (sm, heap @ [st], mgr)))"


lemma map_of_Cancel: "map_of (Cancel i mgr) j = (if j = i then None else map_of mgr j)"
  by (auto simp: Cancel_def split: option.splits)

section \<open>The contract of a registry of listeners\<close>

text \<open>What \<open>SyncMsgMgr\<close> relies on: registering gives a handle that was not in use, and cancelling
  removes exactly the listener of a handle.\<close>

locale listener_registry =
  fixes find :: "'r \<Rightarrow> nat \<Rightarrow> 'd option"
    and register :: "'d \<Rightarrow> 'r \<Rightarrow> nat \<times> 'r"
    and cancel :: "nat \<Rightarrow> 'r \<Rightarrow> 'r"
  assumes register_fresh: "register d r = (i, r') \<Longrightarrow> find r i = None"
    and find_register: "register d r = (i, r') \<Longrightarrow> find r' j = (if j = i then Some d else find r j)"
    and find_cancel: "find (cancel i r) j = (if j = i then None else find r j)"
begin

definition replace :: "nat \<Rightarrow> 'd \<Rightarrow> 'r \<Rightarrow> nat \<times> 'r" where
  "replace i d r = register d (cancel i r)"

text \<open>Replacing the listener of a handle that is live, or that no listener has, leaves every other
  listener alone.\<close>

lemma find_replace:
  assumes "replace i d r = (i', r')"
  shows "find r' j = (if j = i' then Some d else if j = i then None else find r j)"
    and "i' = i \<or> find r i' = None"
  using find_register [of d "cancel i r" i' r'] register_fresh [of d "cancel i r" i' r'] assms
  by (auto simp: replace_def find_cancel split: if_splits)

end

locale allocator =
  fixes alloc :: "nat list \<Rightarrow> nat"
  assumes alloc_fresh: "alloc live \<notin> set live"
begin

lemma Listen_new: "Listen alloc d mgr = (i, mgr') \<Longrightarrow> mgr' = mgr @ [(i, d)] \<and> map_of mgr i = None"
  using alloc_fresh [of "map fst mgr"] by (auto simp: Listen_def Let_def map_emplace_def map_of_eq_None_iff)

lemma Cancel_erase: "Cancel i mgr = map_erase i mgr"
  by (auto simp: Cancel_def map_erase_def map_of_eq_None_iff intro!: filter_True [symmetric] split: option.splits)

end

sublocale allocator \<subseteq> reg: listener_registry "map_of" "Listen alloc" "Cancel"
proof
  show "map_of r i = None" if "Listen alloc d r = (i, r')" for d :: "'d EventDescription" and r i r'
    using Listen_new [OF that] by simp
  show "map_of r' j = (if j = i then Some d else map_of r j)" if "Listen alloc d r = (i, r')"
    for d :: "'d EventDescription" and r i r' j
    using Listen_new [OF that] by (auto simp: map_of_append map_add_def split: option.splits)
  show "map_of (Cancel i r) j = (if j = i then None else map_of r j)" for i and r :: "'d EventManager" and j
    by (simp add: Cancel_erase)
qed

text \<open>The least address that is not in use: an allocator that gives freed addresses out again.\<close>

definition first_free :: "nat list \<Rightarrow> nat" where
  "first_free live = hd (filter (\<lambda>i. i \<notin> set live) [0..<Suc (length live)])"

lemma first_free_fresh: "first_free live \<notin> set live"
proof -
  have "\<exists>i<Suc (length live). i \<notin> set live"
  proof (rule ccontr)
    assume "\<not> (\<exists>i<Suc (length live). i \<notin> set live)"
    then have "card {0..<Suc (length live)} \<le> card (set live)" by (intro card_mono) auto
    then show False using card_length [of live] by simp
  qed
  then obtain i where "i < Suc (length live)" "i \<notin> set live" by blast
  then have "i \<in> set (filter (\<lambda>i. i \<notin> set live) [0..<Suc (length live)])"
    unfolding set_filter set_upt by simp
  then have "filter (\<lambda>i. i \<notin> set live) [0..<Suc (length live)] \<noteq> []" by (metis empty_iff empty_set)
  then have "first_free live \<in> set (filter (\<lambda>i. i \<notin> set live) [0..<Suc (length live)])"
    unfolding first_free_def by (rule hd_in_set)
  then show ?thesis unfolding set_filter by blast
qed

interpretation ff: allocator first_free
  by unfold_locales (rule first_free_fresh)


section \<open>Counting the bits of a filter\<close>

lemma foldl_add_sum: "foldl (\<lambda>(c :: nat) i. c + f i) 0 [0..<n] = (\<Sum>i<n. f i)"
  by (induction n) simp_all

lemma sum_card: "(\<Sum>m<n. of_bool (P m)) = card {m. m < n \<and> P (m :: nat)}"
proof -
  have "{m. m < n \<and> P m} = {..<n} \<inter> {m. P m}" by auto
  then show ?thesis by simp
qed

lemma Count1Bits_card: "Count1Bits bloom = card {m. m < 2048 \<and> bloom_bit bloom m}"
proof -
  have "Count1Bits bloom = (\<Sum>i<256. \<Sum>k<8. of_bool (bit (bloom ! i) k))"
    by (simp only: Count1Bits_def foldl_add_sum Count1BitsInByte_eq)
  also have "\<dots> = (\<Sum>(i, k)\<in>{..<256} \<times> {..<8}. of_bool (bit (bloom ! i) k))"
    by (rule sum.cartesian_product)
  also have "\<dots> = (\<Sum>m<2048. of_bool (bloom_bit bloom m))"
  proof (rule sum.reindex_bij_witness [where i = "\<lambda>m. (255 - m div 8, m mod 8)" and j = "\<lambda>(i, k). 8 * (255 - i) + k"])
    fix a :: "nat \<times> nat" assume "a \<in> {..<256} \<times> {..<8}"
    then obtain i k where a: "a = (i, k)" "i < 256" "k < 8" by auto
    have d: "(8 * (255 - i) + k) div 8 = 255 - i" "(8 * (255 - i) + k) mod 8 = k" using a(3) by simp_all
    show "(\<lambda>m. (255 - m div 8, m mod 8)) ((\<lambda>(i, k). 8 * (255 - i) + k) a) = a"
      unfolding a(1) prod.case d using a(2) by simp
    show "(\<lambda>(i, k). 8 * (255 - i) + k) a \<in> {..<2048}" unfolding a(1) using a(2,3) by simp
    show "of_bool (bloom_bit bloom ((\<lambda>(i, k). 8 * (255 - i) + k) a)) = (case a of (i, k) \<Rightarrow> of_bool (bit (bloom ! i) k))"
      unfolding a(1) prod.case bloom_bit_def d using a(2) by simp
  next
    fix m :: nat assume "m \<in> {..<2048}"
    then have "m div 8 \<le> 255" by simp
    then show "(\<lambda>(i, k). 8 * (255 - i) + k) (255 - m div 8, m mod 8) = m"
      and "(255 - m div 8, m mod 8) \<in> {..<256} \<times> {..<8}" by simp_all
  qed
  also have "\<dots> = card {m. m < 2048 \<and> bloom_bit bloom m}"
    by (rule sum_card)
  finally show ?thesis .
qed

section \<open>A search of every listener\<close>

text \<open>A description as its constructor makes it, and a log entry that the filter covers: the
  address and every topic were added to it.\<close>

definition desc_ok :: "'c EventDescription \<Rightarrow> bool" where
  "desc_ok d \<longleftrightarrow> m_hashes d = Keccak256 (m_contractAddr d) # map Keccak256 (m_topics d)"

definition bloom_covers :: "bytes \<Rightarrow> ReceiptLogEntry \<Rightarrow> bool" where
  "bloom_covers bloom e \<longleftrightarrow>
     (\<forall>x\<in>set (log_contractAddr e # log_topics e). \<forall>m\<in>set (bloom_numbers (Keccak256 x)). bloom_bit bloom m)"

definition desc_matches :: "'c EventDescription \<Rightarrow> ReceiptLogEntry \<Rightarrow> bool" where
  "desc_matches d e \<longleftrightarrow> log_contractAddr e = m_contractAddr d \<and> prefix (m_topics d) (log_topics e)"

text \<open>The specification: for each listener in turn, each log entry it matches.\<close>

definition notifications :: "'c EventManager \<Rightarrow> ReceiptsMgr \<Rightarrow> (nat \<times> 'c NotifyCallback \<times> ReceiptLogEntry) list" where
  "notifications ls rm =
     concat (map (\<lambda>(i, d). map (\<lambda>e. (i, m_notifyCallback d, e)) (filter (desc_matches d) (concat (m_receipts rm)))) ls)"

fun notify :: "('c, 's) user_callback \<Rightarrow> HeaderMgr \<Rightarrow> (nat \<times> 'c NotifyCallback \<times> ReceiptLogEntry) list
    \<Rightarrow> ('c, 's) event_state \<Rightarrow> Exception + ('c, 's) event_state" where
  "notify ucb hdr [] w = Inr w"
| "notify ucb hdr ((i, c, e) # ns) w = bindE (run_callback ucb hdr i c e w) (notify ucb hdr ns)"

lemma notify_append: "notify ucb hdr (xs @ ys) w = bindE (notify ucb hdr xs w) (notify ucb hdr ys)"
  by (induction ucb hdr xs w rule: notify.induct) (simp_all add: bindE_def split: sum.splits)

lemma conduct_logs_notify:
  "conduct_logs ucb hdr (i, c) logs w = notify ucb hdr (map (\<lambda>e. (i, c, e)) logs) w"
  by (induction logs arbitrary: w) (simp_all cong: bindE_cong)

lemma search_matches:
  "ReceiptsMgr_SearchEvents (m_contractAddr d) (m_topics d) rm = filter (desc_matches d) (concat (m_receipts rm))"
  by (simp add: ReceiptsMgr_SearchEvents_def Receipt_SearchEvents_def [abs_def] IsEventEmitted_iff [abs_def]
      desc_matches_def [abs_def] filter_concat)

lemma Conduct_notify:
  "ConductCallbackPlan ucb hdr (GenCallbackPlan rm ls) w = notify ucb hdr (notifications ls rm) w"
proof (induction ls arbitrary: w)
  case (Cons x ls)
  obtain i d where x: "x = (i, d)" by force
  have "ConductCallbackPlan ucb hdr (GenCallbackPlan rm ls) = notify ucb hdr (notifications ls rm)"
    using Cons.IH by blast
  then show ?case
    unfolding x by (simp add: notifications_def notify_append search_matches conduct_logs_notify Let_def)
qed (simp add: notifications_def)

lemma covered_in_bloom:
  assumes "desc_ok d" and "desc_matches d e" and "bloom_covers bloom e"
  shows "AreHashesInBloom bloom (m_hashes d)"
proof -
  have "set (m_topics d) \<subseteq> set (log_topics e)"
    using assms(2) set_mono_prefix by (auto simp: desc_matches_def)
  then show ?thesis
    using assms by (auto simp: desc_ok_def desc_matches_def bloom_covers_def AreHashesInBloom_iff CheckBloomBits_iff)
qed

lemma notifications_bloom:
  assumes "\<forall>(i, d)\<in>set ls. desc_ok d" and "\<forall>e\<in>set (concat (m_receipts rm)). bloom_covers bloom e"
  shows "notifications (BloomEventDesc bloom ls) rm = notifications ls rm"
  using assms(1)
proof (induction ls)
  case (Cons x ls)
  obtain i d where x: "x = (i, d)" by force
  have "filter (desc_matches d) (concat (m_receipts rm)) = []" if "\<not> AreHashesInBloom bloom (m_hashes d)"
    using covered_in_bloom [of d] Cons.prems assms(2) that x by (auto simp: filter_empty_conv)
  with Cons show ?case by (auto simp: x notifications_def BloomEventDesc_def)
qed (simp add: notifications_def BloomEventDesc_def)

lemma CheckEvents_notify:
  assumes "receiptsMgrGetter (m_blkNum hdr) = Inr rm" and "m_rootHashBytes rm = ReceiptsRoot (m_rawHeader hdr)"
  shows "CheckEvents ucb hdr receiptsMgrGetter w
    = notify ucb hdr (notifications (BloomEventDesc (LogsBloom (m_rawHeader hdr)) (listeners w)) rm) w"
proof (cases "BloomEventDesc (LogsBloom (m_rawHeader hdr)) (listeners w) = []")
  case True
  then show ?thesis by (simp add: CheckEvents_def notifications_def)
next
  case False
  then show ?thesis using assms by (simp add: CheckEvents_def Conduct_notify)
qed


section \<open>Which sync states become synced\<close>

definition in_time :: "HeaderMgr \<Rightarrow> SyncState \<Rightarrow> bool" where
  "in_time hdr st \<longleftrightarrow> m_trustedTime hdr - m_genTime st \<le> m_maxWaitTime st"

text \<open>The sync states after notifications that name the sync states \<open>ps\<close>.\<close>

definition sync_upd :: "HeaderMgr \<Rightarrow> nat set \<Rightarrow> SyncState list \<Rightarrow> SyncState list" where
  "sync_upd hdr ps heap =
     map (\<lambda>p. if p \<in> ps \<and> in_time hdr (heap ! p) then (heap ! p)\<lparr>m_isSynced := True\<rparr> else heap ! p) [0..<length heap]"

lemma sync_upd_empty: "sync_upd hdr {} heap = heap"
  by (simp add: sync_upd_def map_nth)

lemma length_sync_upd: "length (sync_upd hdr ps heap) = length heap"
  by (simp add: sync_upd_def)

lemma SyncState_self: "(st :: SyncState)\<lparr>m_isSynced := m_isSynced st\<rparr> = st"
  by (cases st) simp

lemma sync_upd_nth:
  "p < length heap \<Longrightarrow> sync_upd hdr ps heap ! p
     = (heap ! p)\<lparr>m_isSynced := m_isSynced (heap ! p) \<or> in_time hdr (heap ! p) \<and> p \<in> ps\<rparr>"
  by (cases "p \<in> ps \<and> in_time hdr (heap ! p)") (auto simp: sync_upd_def SyncState_self)

lemma sync_upd_insert:
  assumes "p < length heap"
  shows "sync_upd hdr ps (heap[p := SetSynced (m_trustedTime hdr) (heap ! p)]) = sync_upd hdr (insert p ps) heap"
  using assms
  by (auto simp: sync_upd_def SetSynced_def Let_def in_time_def nth_list_update intro!: map_cong)

lemma sync_upd_known:
  assumes "m_isSynced (heap ! p)"
  shows "sync_upd hdr (insert p ps) heap = sync_upd hdr ps heap"
  using assms by (auto simp: sync_upd_def intro!: map_cong)

definition sync_targets :: "(nat \<times> 'c NotifyCallback \<times> ReceiptLogEntry) list \<Rightarrow> nat set" where
  "sync_targets ns = {p. \<exists>(i, c, e)\<in>set ns. c = SyncCallback p}"

lemma sync_targets_Cons:
  "sync_targets ((i, SyncCallback p, e) # ns) = insert p (sync_targets ns)"
  "sync_targets ((i, UserCallback u, e) # ns) = sync_targets ns"
  by (auto simp: sync_targets_def)

lemma notify_sync:
  assumes "notify ucb hdr ns w = Inr w'" and "sync_targets ns \<subseteq> {..<length (sync_states w)}"
  shows "sync_states w' = sync_upd hdr (sync_targets ns) (sync_states w)"
  using assms
proof (induction ucb hdr ns w rule: notify.induct)
  case (1 ucb hdr w)
  then show ?case by (simp add: sync_targets_def sync_upd_empty)
next
  case (2 ucb hdr i c e ns w)
  then obtain w1 where w1: "run_callback ucb hdr i c e w = Inr w1" "notify ucb hdr ns w1 = Inr w'"
    by (auto simp: sum_simps)
  show ?case
  proof (cases c)
    case (SyncCallback p)
    then have p: "p < length (sync_states w)" using 2(3) by (simp add: sync_targets_Cons)
    have s: "sync_states w1 = (if m_isSynced (sync_states w ! p) then sync_states w
        else (sync_states w)[p := SetSynced (m_trustedTime hdr) (sync_states w ! p)])"
      using w1(1) SyncCallback by (auto simp: sync_callback_def Let_def)
    have "sync_states w' = sync_upd hdr (sync_targets ns) (sync_states w1)"
      using "2.IH" [OF w1] 2(3) SyncCallback s by (auto simp: sync_targets_Cons)
    also have "\<dots> = sync_upd hdr (insert p (sync_targets ns)) (sync_states w)"
      unfolding s using sync_upd_insert [OF p] sync_upd_known [of "sync_states w" p] by (cases "m_isSynced (sync_states w ! p)") simp_all
    finally show ?thesis by (simp only: SyncCallback sync_targets_Cons)
  next
    case (UserCallback u)
    then have "sync_states w1 = sync_states w" using w1(1) by (auto simp: sum_simps)
    with "2.IH" [OF w1] 2(3) UserCallback show ?thesis by (simp add: sync_targets_Cons)
  qed
qed

lemma sync_targets_notifications:
  "p \<in> sync_targets (notifications ls rm) \<longleftrightarrow>
     (\<exists>(i, d)\<in>set ls. m_notifyCallback d = SyncCallback p \<and> (\<exists>e\<in>set (concat (m_receipts rm)). desc_matches d e))"
proof -
  let ?es = "concat (m_receipts rm)"
  have "p \<in> sync_targets (notifications ls rm) \<longleftrightarrow>
      (\<exists>x\<in>set ls. \<exists>n\<in>(\<lambda>e. (fst x, m_notifyCallback (snd x), e)) ` set (filter (desc_matches (snd x)) ?es).
         fst (snd n) = SyncCallback p)"
    unfolding sync_targets_def notifications_def split_beta by simp
  also have "\<dots> \<longleftrightarrow> (\<exists>x\<in>set ls. m_notifyCallback (snd x) = SyncCallback p \<and> (\<exists>e\<in>set ?es. desc_matches (snd x) e))"
    unfolding bex_simps(7) set_filter by auto
  finally show ?thesis unfolding split_beta .
qed

section \<open>The sync listener\<close>

text \<open>The only sync listener is the one of the last sync state, under the identifier kept for it.\<close>

definition sync_desc :: "SyncMsgMgr \<Rightarrow> bytes \<Rightarrow> nat \<Rightarrow> 'c EventDescription" where
  "sync_desc sm nonce p = EventDescription_new (m_syncContractAddr sm)
     [m_eventSign sm, session_topic (sm_sessId sm), nonce] (SyncCallback p)"

definition sync_inv :: "SyncMsgMgr \<Rightarrow> SyncState list \<Rightarrow> 'c EventManager \<Rightarrow> bool" where
  "sync_inv sm heap mgr \<longleftrightarrow> m_lastSyncState sm < length heap \<and> distinct (map fst mgr) \<and>
     (\<forall>(i, d)\<in>set mgr. desc_ok d \<and> (case m_notifyCallback d of
         UserCallback u \<Rightarrow> True
       | SyncCallback p \<Rightarrow> i = m_syncEventCallbackId sm
           \<and> d = sync_desc sm (m_nonce (heap ! m_lastSyncState sm)) (m_lastSyncState sm)))"

lemma desc_ok_new [simp]: "desc_ok (EventDescription_new a ts c)"
  by (simp add: desc_ok_def EventDescription_new_def)

lemma callback_new [simp]: "m_notifyCallback (EventDescription_new a ts c) = c"
  by (simp add: EventDescription_new_def)

context allocator begin

lemma NewSyncState_eq:
  assumes "NewSyncState alloc t r sm heap (Some mgr) = Inr (sm', heap', mgr')"
  shows "heap' = heap @ [SyncState_new (sm_maxWaitTime sm) t r]"
    and "sm' = sm\<lparr>m_syncEventCallbackId := m_syncEventCallbackId sm', m_lastSyncState := length heap\<rparr>"
    and "mgr' = map_erase (m_syncEventCallbackId sm) mgr @ [(m_syncEventCallbackId sm', sync_desc sm r (length heap))]"
    and "map_of (map_erase (m_syncEventCallbackId sm) mgr) (m_syncEventCallbackId sm') = None"
proof -
  let ?m = "map_erase (m_syncEventCallbackId sm) mgr"
  obtain i ls where l: "Listen alloc (sync_desc sm r (length heap)) ?m = (i, ls)" by force
  have s: "sm' = sm\<lparr>m_syncEventCallbackId := i, m_lastSyncState := length heap\<rparr>" and m: "mgr' = ls"
    and "heap' = heap @ [SyncState_new (sm_maxWaitTime sm) t r]"
    using assms l by (simp_all add: NewSyncState_def RegisterSyncEvent_def sync_desc_def SyncState_new_def Let_def Cancel_erase)
  then show "heap' = heap @ [SyncState_new (sm_maxWaitTime sm) t r]" by simp
  show "sm' = sm\<lparr>m_syncEventCallbackId := m_syncEventCallbackId sm', m_lastSyncState := length heap\<rparr>"
    unfolding s by simp
  show "mgr' = ?m @ [(m_syncEventCallbackId sm', sync_desc sm r (length heap))]"
    and "map_of ?m (m_syncEventCallbackId sm') = None"
    using Listen_new [OF l] unfolding s m by simp_all
qed

lemma NewSyncState_inv:
  assumes "sync_inv sm heap mgr" and "NewSyncState alloc t r sm heap (Some mgr) = Inr (sm', heap', mgr')"
  shows "sync_inv sm' heap' mgr'"
proof -
  note e = NewSyncState_eq [OF assms(2)]
  have d: "distinct (map fst mgr')"
    using assms(1) e(4) [unfolded map_of_eq_None_iff] distinct_erase [of mgr "m_syncEventCallbackId sm"]
    unfolding e(3) by (simp add: sync_inv_def)
  have old: "\<exists>u. m_notifyCallback d = UserCallback u" "desc_ok d"
    if "(i, d) \<in> set (map_erase (m_syncEventCallbackId sm) mgr)" for i d
  proof -
    have "(i, d) \<in> set mgr" "i \<noteq> m_syncEventCallbackId sm" using that by (simp_all add: set_erase)
    then have "desc_ok d \<and> (case m_notifyCallback d of UserCallback u \<Rightarrow> True
        | SyncCallback p \<Rightarrow> False)"
      using assms(1) unfolding sync_inv_def by (fastforce split: NotifyCallback.splits)
    then show "\<exists>u. m_notifyCallback d = UserCallback u" "desc_ok d"
      by (simp_all split: NotifyCallback.splits)
  qed
  have sd: "sync_desc sm' x p = sync_desc sm x p" for x p
    by (subst e(2)) (simp add: sync_desc_def)
  have last: "m_lastSyncState sm' = length heap" by (subst e(2)) simp
  have new: "desc_ok (sync_desc sm x p)" "m_notifyCallback (sync_desc sm x p) = SyncCallback p" for x p
    by (simp_all add: sync_desc_def)
  show ?thesis
    using d old(2) unfolding sync_inv_def e(1,3)
    by (auto simp: sd last new SyncState_new_def dest: old(1) split: NotifyCallback.splits)
qed

end

section \<open>An instance\<close>

text \<open>A header with a filter of ones, a block with one log entry, and the sync listener waiting for it.\<close>

definition demo_entry :: ReceiptLogEntry where
  "demo_entry = \<lparr>log_contractAddr = [1], log_topics = [[2], [3], [4], [5]], log_logData = []\<rparr>"

definition demo_receipts :: ReceiptsMgr where
  "demo_receipts = \<lparr>m_receipts = [[demo_entry]], m_rootHashBytes = [9]\<rparr>"

definition demo_header :: HeaderMgr where
  "demo_header = HeaderMgr_default\<lparr>m_trustedTime := 107,
     m_rawHeader := (EthHeader_of [])\<lparr>LogsBloom := replicate 256 0xFF, ReceiptsRoot := [9]\<rparr>\<rparr>"

definition demo_state :: "(unit, unit) event_state" where
  "demo_state = \<lparr>listeners = [(64, EventDescription_new [1] [[2], [3], [4]] (SyncCallback 0))],
     sync_states = [SyncState_new 60 100 [4]], client = ()\<rparr>"

definition demo_ucb :: "(unit, unit) user_callback" where
  "demo_ucb c hdr e i s = Inr s"

lemma ones_bit: "bloom_bit (replicate 256 0xFF) m" if "m < 2048"
proof -
  have ff: "(0xFF :: u8) = mask 8" by (simp add: mask_eq_exp_minus_1)
  have "bit (0xFF :: u8) (m mod 8)" unfolding ff bit_mask_iff by simp
  then show ?thesis by (simp add: bloom_bit_def)
qed

lemma bloom_numbers_less: "m \<in> set (bloom_numbers h) \<Longrightarrow> m < 2048"
  by (auto simp: bloom_numbers_def)

lemma ones_cover: "bloom_covers (replicate 256 0xFF) e"
  by (auto simp: bloom_covers_def dest!: bloom_numbers_less intro!: ones_bit)

lemma ones_pass: "AreHashesInBloom (replicate 256 0xFF) hs"
  by (auto simp: AreHashesInBloom_iff CheckBloomBits_iff dest!: bloom_numbers_less intro!: ones_bit)

lemma demo_notify:
  "notify demo_ucb demo_header (notifications (listeners demo_state) demo_receipts) demo_state
     = Inr (demo_state\<lparr>listeners := [], sync_states := [(SyncState_new 60 100 [4])\<lparr>m_isSynced := True\<rparr>]\<rparr>)"
  by (simp add: notifications_def demo_state_def demo_receipts_def demo_entry_def demo_header_def desc_matches_def
      EventDescription_new_def sync_callback_def SetSynced_def SyncState_new_def Cancel_def map_erase_def Let_def)

lemma demo_bloom: "BloomEventDesc (LogsBloom (m_rawHeader demo_header)) ls = ls"
  by (simp add: BloomEventDesc_def demo_header_def ones_pass)

lemma demo_CheckEvents:
  "CheckEvents demo_ucb demo_header (\<lambda>n. Inr demo_receipts) demo_state
     = Inr (demo_state\<lparr>listeners := [], sync_states := [(SyncState_new 60 100 [4])\<lparr>m_isSynced := True\<rparr>]\<rparr>)"
  by (subst CheckEvents_notify [of _ _ demo_receipts])
     (simp_all only: demo_bloom demo_notify, simp_all add: demo_receipts_def demo_header_def)

section \<open>Properties\<close>

text \<open>C9. The bloom filter costs no event: when the filter of a header covers the log entries of its
  receipts, checking the header's events is the same as notifying every listener, in the order of
  the listeners, of every log entry it matches, although the code only searches for the listeners
  that pass the filter, and fetches no receipts when none does.\<close>

theorem CheckEvents_notifies:
  assumes "receiptsMgrGetter (m_blkNum hdr) = Inr rm"
    and "m_rootHashBytes rm = ReceiptsRoot (m_rawHeader hdr)"
    and "\<forall>(i, d)\<in>set (listeners w). desc_ok d"
    and "\<forall>e\<in>set (concat (m_receipts rm)). bloom_covers (LogsBloom (m_rawHeader hdr)) e"
  shows "CheckEvents ucb hdr receiptsMgrGetter w = notify ucb hdr (notifications (listeners w) rm) w"
  unfolding CheckEvents_notify [of receiptsMgrGetter, OF assms(1,2)]
  by (simp only: notifications_bloom [OF assms(3,4)])

theorem CheckEvents_notifies_witness:
  "CheckEvents demo_ucb demo_header (\<lambda>n. Inr demo_receipts) demo_state
     = notify demo_ucb demo_header (notifications (listeners demo_state) demo_receipts) demo_state"
  by (rule CheckEvents_notifies)
     (simp_all add: demo_receipts_def demo_header_def demo_state_def ones_cover)

text \<open>C5. A sync state becomes synced only by proof: after the events of a header were checked, a sync
  state is synced exactly if it was before, or if one of its listeners passed the bloom filter and
  matches a log entry of receipts whose root hash is the one in the header, and the header arrived
  within the maximal waiting time. Nothing else about the sync states changes.\<close>

theorem CheckEvents_synced:
  assumes "CheckEvents ucb hdr receiptsMgrGetter w = Inr w'" and "p < length (sync_states w)"
    and "\<forall>(i, d)\<in>set (listeners w). case m_notifyCallback d of
           SyncCallback q \<Rightarrow> q < length (sync_states w) | UserCallback u \<Rightarrow> True"
  shows "length (sync_states w') = length (sync_states w)
    \<and> sync_states w' ! p = (sync_states w ! p)\<lparr>m_isSynced :=
        m_isSynced (sync_states w ! p)
        \<or> m_trustedTime hdr - m_genTime (sync_states w ! p) \<le> m_maxWaitTime (sync_states w ! p)
          \<and> (\<exists>(i, d)\<in>set (listeners w). m_notifyCallback d = SyncCallback p
               \<and> AreHashesInBloom (LogsBloom (m_rawHeader hdr)) (m_hashes d)
               \<and> (\<exists>rm. receiptsMgrGetter (m_blkNum hdr) = Inr rm
                    \<and> m_rootHashBytes rm = ReceiptsRoot (m_rawHeader hdr)
                    \<and> (\<exists>e\<in>set (concat (m_receipts rm)). desc_matches d e)))\<rparr>"
proof -
  let ?ls = "BloomEventDesc (LogsBloom (m_rawHeader hdr)) (listeners w)"
  let ?ok = "\<lambda>rm. receiptsMgrGetter (m_blkNum hdr) = Inr rm \<and> m_rootHashBytes rm = ReceiptsRoot (m_rawHeader hdr)"
  let ?heard = "\<exists>(i, d)\<in>set (listeners w). m_notifyCallback d = SyncCallback p
      \<and> AreHashesInBloom (LogsBloom (m_rawHeader hdr)) (m_hashes d)
      \<and> (\<exists>rm. receiptsMgrGetter (m_blkNum hdr) = Inr rm
           \<and> m_rootHashBytes rm = ReceiptsRoot (m_rawHeader hdr)
           \<and> (\<exists>e\<in>set (concat (m_receipts rm)). desc_matches d e))"
  have sub: "set ?ls = {(i, d) \<in> set (listeners w). AreHashesInBloom (LogsBloom (m_rawHeader hdr)) (m_hashes d)}"
    by (auto simp: BloomEventDesc_def)
  have "?ls = [] \<and> w' = w \<or> (\<exists>rm. ?ok rm)"
    using assms(1) by (auto simp: CheckEvents_def Let_def sum_simps split: if_splits)
  then consider (none) "?ls = []" "w' = w" | (some) rm where "?ok rm" by blast
  then have "\<exists>ps. sync_states w' = sync_upd hdr ps (sync_states w) \<and> (p \<in> ps \<longleftrightarrow> ?heard)"
  proof cases
    case none
    then have "\<forall>x\<in>set (listeners w). \<not> AreHashesInBloom (LogsBloom (m_rawHeader hdr)) (m_hashes (snd x))"
      by (simp add: BloomEventDesc_def filter_empty_conv)
    then have "\<not> ?heard" by force
    then show ?thesis using none(2) by (intro exI [of _ "{}"]) (simp add: sync_upd_empty)
  next
    case some
    let ?ns = "notifications ?ls rm"
    have n: "notify ucb hdr ?ns w = Inr w'" using some assms(1) CheckEvents_notify by metis
    have "sync_targets ?ns \<subseteq> {..<length (sync_states w)}"
      using assms(3) sub by (fastforce simp: sync_targets_notifications)
    then have s: "sync_states w' = sync_upd hdr (sync_targets ?ns) (sync_states w)"
      by (rule notify_sync [OF n])
    have "p \<in> sync_targets ?ns \<longleftrightarrow> ?heard"
      unfolding sync_targets_notifications sub using some by auto
    with s show ?thesis by blast
  qed
  then obtain ps where w': "sync_states w' = sync_upd hdr ps (sync_states w)" and ps: "p \<in> ps \<longleftrightarrow> ?heard"
    by blast
  show ?thesis
    unfolding w' length_sync_upd sync_upd_nth [OF assms(2)] ps in_time_def by (rule conjI [OF refl refl])
qed

theorem CheckEvents_synced_witness:
  "\<exists>w'. CheckEvents demo_ucb demo_header (\<lambda>n. Inr demo_receipts) demo_state = Inr w'
     \<and> m_isSynced (sync_states w' ! 0) \<and> m_isSynced (sync_states demo_state ! 0) = False"
proof -
  let ?w' = "demo_state\<lparr>listeners := [], sync_states := [(SyncState_new 60 100 [4])\<lparr>m_isSynced := True\<rparr>]\<rparr>"
  have "sync_states ?w' ! 0 = (sync_states demo_state ! 0)\<lparr>m_isSynced := True\<rparr>"
    using CheckEvents_synced [OF demo_CheckEvents, of 0]
    by (simp add: demo_state_def demo_header_def demo_receipts_def demo_entry_def desc_matches_def ones_pass
        EventDescription_new_def SyncState_new_def)
  then show ?thesis
    unfolding demo_CheckEvents by (simp add: demo_state_def SyncState_new_def)
qed

text \<open>A new sync state has exactly one listener. When the listeners agree with the manager (the only
  sync listener is the one of the last sync state, under the identifier the manager keeps), so they
  do after \<open>NewSyncState\<close>; the new sync state is not synced, its listener is registered, and every
  listener except the one under the old identifier is still there.\<close>

theorem NewSyncState_correct:
  assumes "\<forall>live. alloc live \<notin> set live" and "sync_inv sm heap mgr"
    and "NewSyncState alloc nowInSec randomBytes sm heap (Some mgr) = Inr (sm', heap', mgr')"
  shows "sync_inv sm' heap' mgr' \<and> heap' = heap @ [SyncState_new (sm_maxWaitTime sm) nowInSec randomBytes]
    \<and> m_lastSyncState sm' = length heap \<and> m_isSynced (heap' ! m_lastSyncState sm') = False
    \<and> map_of mgr' (m_syncEventCallbackId sm') = Some (sync_desc sm randomBytes (length heap))
    \<and> (\<forall>i d. i \<noteq> m_syncEventCallbackId sm \<longrightarrow> map_of mgr i = Some d \<longrightarrow> map_of mgr' i = Some d)"
proof -
  have a: "allocator alloc" using assms(1) by unfold_locales blast
  note e = allocator.NewSyncState_eq [OF a assms(3)]
  have "m_lastSyncState sm' = length heap" by (subst e(2)) simp
  moreover have "map_of mgr' i = Some d" if "i \<noteq> m_syncEventCallbackId sm" "map_of mgr i = Some d" for i d
    using that e(4) unfolding e(3) by (auto simp: map_of_append map_add_def split: option.splits if_splits)
  ultimately show ?thesis
    using allocator.NewSyncState_inv [OF a assms(2,3)] e(1) e(4) unfolding e(3)
    by (simp add: SyncState_new_def map_add_def)
qed

definition demo_sm :: SyncMsgMgr where
  "demo_sm = \<lparr>sm_maxWaitTime = 60, sm_sessId = replicate 16 7, m_lastSyncState = 0,
     m_syncContractAddr = [1], m_eventSign = [2], m_syncEventCallbackId = 0\<rparr>"

lemma demo_NewSyncState:
  "NewSyncState first_free 100 [4] demo_sm [SyncState_new 60 50 [3]] (Some [])
     = Inr (demo_sm\<lparr>m_lastSyncState := 1\<rparr>, [SyncState_new 60 50 [3], SyncState_new 60 100 [4]],
            [(0, sync_desc demo_sm [4] 1) :: nat \<times> unit EventDescription])"
  by (simp add: NewSyncState_def demo_sm_def RegisterSyncEvent_def Cancel_def Listen_def first_free_def
      map_emplace_def sync_desc_def SyncState_new_def Let_def)

theorem NewSyncState_correct_witness:
  "\<exists>sm' heap' mgr'. NewSyncState first_free 100 [4] demo_sm [SyncState_new 60 50 [3]] (Some []) = Inr (sm', heap', mgr')
     \<and> m_lastSyncState sm' = 1 \<and> map_of mgr' 0 = Some (sync_desc demo_sm [4] 1 :: unit EventDescription)"
proof -
  have inv: "sync_inv demo_sm [SyncState_new 60 50 [3]] ([] :: unit EventManager)"
    by (simp add: sync_inv_def demo_sm_def)
  have "map_of [(0, sync_desc demo_sm [4] 1)] 0 = Some (sync_desc demo_sm [4] 1 :: unit EventDescription)"
    using NewSyncState_correct [OF _ inv demo_NewSyncState] first_free_fresh by (simp add: demo_sm_def)
  then show ?thesis unfolding demo_NewSyncState by (simp add: demo_sm_def)
qed

text \<open>C16. A sync listener that has been notified has cancelled itself, but its identifier stays in the
  manager. Identifiers are addresses: when the listener a client registers next gets the freed
  address, the next \<open>NewSyncState\<close> cancels the client's listener.\<close>

theorem NewSyncState_stale:
  assumes "Listen alloc d (Cancel (m_syncEventCallbackId sm) mgr) = (m_syncEventCallbackId sm, mgr1)"
    and "m_notifyCallback d = UserCallback u" and "NewSyncState alloc nowInSec randomBytes sm heap (Some mgr1) = Inr (sm', heap', mgr')"
  shows "map_of mgr1 (m_syncEventCallbackId sm) = Some d \<and> map_of mgr' (m_syncEventCallbackId sm) \<noteq> Some d"
proof -
  let ?i = "m_syncEventCallbackId sm"
  have "map_of mgr1 ?i = Some d" using assms(1) by (auto simp: Listen_def Let_def map_of_Cancel)
  moreover have "map_of mgr' ?i \<noteq> Some d"
    using assms(2,3)
    by (auto simp: NewSyncState_def RegisterSyncEvent_def sum_simps Let_def Listen_def map_of_Cancel EventDescription_new_def split: if_splits)
  ultimately show ?thesis by blast
qed

theorem NewSyncState_stale_witness:
  "\<exists>mgr' sm' heap'. NewSyncState first_free 100 [4] demo_sm [SyncState_new 60 50 [3]]
       (Some [(0, EventDescription_new [1] [] (UserCallback ()))]) = Inr (sm', heap', mgr')
     \<and> map_of mgr' 0 \<noteq> Some (EventDescription_new [1] [] (UserCallback ()))"
proof -
  let ?d = "EventDescription_new [1] [] (UserCallback ())"
  have l: "Listen first_free ?d (Cancel (m_syncEventCallbackId demo_sm) [(0, sync_desc demo_sm [3] 0)])
      = (m_syncEventCallbackId demo_sm, [(0, ?d)])"
    by (simp add: Listen_def first_free_def Cancel_def map_erase_def map_emplace_def demo_sm_def Let_def)
  have n: "NewSyncState first_free 100 [4] demo_sm [SyncState_new 60 50 [3]] (Some [(0, ?d)])
     = Inr (demo_sm\<lparr>m_lastSyncState := 1\<rparr>, [SyncState_new 60 50 [3], SyncState_new 60 100 [4]],
            [(0, sync_desc demo_sm [4] 1)])"
    by (simp add: NewSyncState_def demo_sm_def RegisterSyncEvent_def Cancel_def Listen_def first_free_def
        map_emplace_def map_erase_def sync_desc_def SyncState_new_def Let_def)
  have "map_of [(0, sync_desc demo_sm [4] 1)] (m_syncEventCallbackId demo_sm) \<noteq> Some ?d"
    using NewSyncState_stale [OF l _ n] by simp
  then show ?thesis using n by (auto simp: demo_sm_def)
qed

end
