(* ===== verification/EthDaa.thy ===== *)
theory EthDaa
  imports EthHeader
begin

text \<open>
  \<open>EclipseMonitor/Eth/DAA.hpp\<close>, \<open>Validator.hpp\<close>: the Ethereum difficulty adjustment
  algorithms (a calculator per fork), their selection by block number, and the common header
  validation. All arithmetic is on \<open>uint64_t\<close> and may wrap; \<open>daa_spec\<close> is the formula of the
  comments in the code over the integers, and the calculator is proved equal to it where the
  formula fits in 64 bits.
\<close>

definition CalcBomb :: "BlockNumber \<Rightarrow> BlockNumber \<Rightarrow> Difficulty \<Rightarrow> Difficulty \<Rightarrow> Difficulty" where
  "CalcBomb periodCount blkNBig2 diffBig1 diffBig2 =
     (if periodCount \<le> blkNBig2 then diffBig1
      else let exp = periodCount - blkNBig2
           in ((\<lambda>y. y * diffBig2) ^^ unat exp) diffBig1)"

record EthashDAACalculator =
  m_considerUncle :: bool
  m_deltaDivisor :: Difficulty
  m_hasMaxCheck :: bool
  m_hasBombDelay :: bool
  m_bombDelay :: BlockNumber
  m_bombDelayFromParent :: BlockNumber

definition EthashDAACalculator_new ::
  "bool \<Rightarrow> Difficulty \<Rightarrow> bool \<Rightarrow> bool \<Rightarrow> BlockNumber \<Rightarrow> EthashDAACalculator" where
  "EthashDAACalculator_new considerUncle deltaDivisor hasMaxCheck hasBombDelay bombDelay =
     \<lparr>m_considerUncle = considerUncle, m_deltaDivisor = deltaDivisor, m_hasMaxCheck = hasMaxCheck,
      m_hasBombDelay = hasBombDelay, m_bombDelay = bombDelay, m_bombDelayFromParent = bombDelay - 1\<rparr>"

definition GetEip5133 where
  "GetEip5133 = EthashDAACalculator_new True 9 True True 11400000"
definition GetEip5133Estimated where
  "GetEip5133Estimated = EthashDAACalculator_new True 9 False True 11400000"
definition GetEip4345 where
  "GetEip4345 = EthashDAACalculator_new True 9 True True 10700000"
definition GetEip3554 where
  "GetEip3554 = EthashDAACalculator_new True 9 True True 9700000"
definition GetEip2384 where
  "GetEip2384 = EthashDAACalculator_new True 9 True True 9000000"
definition GetConstantinople where
  "GetConstantinople = EthashDAACalculator_new True 9 True True 5000000"
definition GetByzantium where
  "GetByzantium = EthashDAACalculator_new True 9 True True 3000000"
definition GetHomestead where
  "GetHomestead = EthashDAACalculator_new False 10 True False 0"

text \<open>\<open>EthashDAACalculator::operator()\<close> on the numbers of the two headers.\<close>

definition EthashDAACalculator_calc ::
  "EthashDAACalculator \<Rightarrow> BlockNumber \<Rightarrow> Timestamp \<Rightarrow> Difficulty \<Rightarrow> bool \<Rightarrow> Timestamp \<Rightarrow> Difficulty" where
  "EthashDAACalculator_calc self parentBlkNum parentTime parentDiff parentHasUncle currTime =
     (let minDiff = GetMinimumDifficulty;
          x = currTime - parentTime;
          x = x div m_deltaDivisor self;
          (isReducing, x) =
            (if m_considerUncle self \<and> parentHasUncle then
               (if x > 2 then (True, x - 2) else (False, 2 - x))
             else
               (if x > 1 then (True, x - 1) else (False, 1 - x)));
          x = (if m_hasMaxCheck self \<and> isReducing \<and> x > 99 then 99 else x);
          y = drop_bit GetDifficultyBoundDivisorBitShift parentDiff;
          x = y * x;
          x = (if \<not> m_hasMaxCheck self \<and> isReducing \<and> x > parentDiff then minDiff
               else if isReducing then parentDiff - x
               else parentDiff + x);
          x = (if x < minDiff then minDiff else x);
          fakeBlockNumber =
            (if m_hasBombDelay self then
               (if parentBlkNum \<ge> m_bombDelayFromParent self
                then parentBlkNum - m_bombDelayFromParent self else 0)
             else parentBlkNum + 1);
          periodCount = fakeBlockNumber div 100000
      in if periodCount > 1 then x + CalcBomb periodCount 2 1 2 else x)"

definition EthashDAACalculatorFrontier_calc ::
  "BlockNumber \<Rightarrow> Timestamp \<Rightarrow> Difficulty \<Rightarrow> Timestamp \<Rightarrow> Difficulty" where
  "EthashDAACalculatorFrontier_calc parentBlkNum parentTime parentDiff currTime =
     (let adjust = drop_bit GetDifficultyBoundDivisorBitShift parentDiff;
          delta = currTime - parentTime;
          diff = (if delta < GetDurationLimit then parentDiff + adjust else parentDiff - adjust);
          diff = (if diff < GetMinimumDifficulty then GetMinimumDifficulty else diff);
          fakeBlockNumber = parentBlkNum + 1;
          periodCount = fakeBlockNumber div 100000
      in if periodCount > 1 then diff + CalcBomb periodCount 2 1 2 else diff)"

datatype DAACalculator = Ethash EthashDAACalculator | Frontier

definition DAACalculator_run :: "DAACalculator \<Rightarrow> HeaderMgr \<Rightarrow> HeaderMgr \<Rightarrow> Difficulty" where
  "DAACalculator_run calc parent current =
     (case calc of
        Ethash c \<Rightarrow> EthashDAACalculator_calc c (m_blkNum parent) (m_time parent) (m_diff parent)
                      (m_hasUncle parent) (m_time current)
      | Frontier \<Rightarrow> EthashDAACalculatorFrontier_calc (m_blkNum parent) (m_time parent) (m_diff parent)
                      (m_time current))"

definition EthashDAA_GetCalculator :: "NetworkConfig \<Rightarrow> BlockNumber \<Rightarrow> Exception + DAACalculator" where
  "EthashDAA_GetCalculator cfg blkNum =
     (if IsBlockOfParis cfg blkNum then Inl (Exception ''Blocks since Paris fork no longer use DAA'')
      else if IsBlockOfGrayGlacier cfg blkNum then Inr (Ethash GetEip5133)
      else if IsBlockOfArrowGlacier cfg blkNum then Inr (Ethash GetEip4345)
      else if IsBlockOfLondon cfg blkNum then Inr (Ethash GetEip3554)
      else if IsBlockOfMuirGlacier cfg blkNum then Inr (Ethash GetEip2384)
      else if IsBlockOfConstantinople cfg blkNum then Inr (Ethash GetConstantinople)
      else if IsBlockOfByzantium cfg blkNum then Inr (Ethash GetByzantium)
      else if IsBlockOfHomestead cfg blkNum then Inr (Ethash GetHomestead)
      else Inr Frontier)"

definition EthashDAAEst_GetCalculator :: "NetworkConfig \<Rightarrow> BlockNumber \<Rightarrow> Exception + DAACalculator" where
  "EthashDAAEst_GetCalculator cfg blkNum =
     (if IsBlockOfParis cfg blkNum then Inl (Exception ''Blocks since Paris fork no longer use DAA'')
      else if IsBlockOfGrayGlacier cfg blkNum then Inr (Ethash GetEip5133Estimated)
      else Inl (Exception ''Estimating the difficulty value before EIP-5133 is not allowed.''))"

text \<open>The four classes that derive from \<open>DAABase\<close> with a network configuration, as one function.\<close>

datatype DAABase = EthashDAAImpl | EthashDAAEstImpl | TestnetDAACalculator | TestnetDAAEstCalculator

definition DAABase_run :: "DAABase \<Rightarrow> NetworkConfig \<Rightarrow> HeaderMgr \<Rightarrow> HeaderMgr \<Rightarrow> Exception + Difficulty" where
  "DAABase_run daa cfg parent current =
     (case daa of
        EthashDAAImpl \<Rightarrow>
          bindE (EthashDAA_GetCalculator cfg (m_blkNum current)) (\<lambda>c. Inr (DAACalculator_run c parent current))
      | EthashDAAEstImpl \<Rightarrow>
          bindE (EthashDAAEst_GetCalculator cfg (m_blkNum current)) (\<lambda>c. Inr (DAACalculator_run c parent current))
      | TestnetDAACalculator \<Rightarrow>
          (if IsBlockOfParis cfg (m_blkNum current)
           then Inl (Exception ''Blocks since Paris fork no longer use DAA'') else Inr (m_diff current))
      | TestnetDAAEstCalculator \<Rightarrow>
          (if IsBlockOfParis cfg (m_blkNum current)
           then Inl (Exception ''Blocks since Paris fork no longer use DAA'') else Inr 2))"

section \<open>Validation\<close>

definition CommonValidate ::
  "NetworkConfig \<Rightarrow> DAABase \<Rightarrow> HeaderMgr \<Rightarrow> bool \<Rightarrow> HeaderMgr \<Rightarrow> bool \<Rightarrow> Exception + bool" where
  "CommonValidate cfg daa parent isParentLive current isCurrLive =
     (if m_blkNum current \<noteq> m_blkNum parent + 1 then Inr False
      else
        let parentHash = ParentHash (m_rawHeader current) in
        if length parentHash \<noteq> length (m_hash parent) \<or> m_hash parent \<noteq> parentHash then Inr False
        else if IsBlockOfParis cfg (m_blkNum current) then
          (if m_diff current \<noteq> 0 then Inr False else Inr True)
        else
          bindE (DAABase_run daa cfg parent current) (\<lambda>expDiff.
          if m_diff current \<noteq> expDiff then Inr False else Inr True))"

section \<open>The formula over the integers\<close>

definition bomb_spec :: "nat \<Rightarrow> int" where
  "bomb_spec fakeBlockNumber =
     (let p = fakeBlockNumber div 100000 in if p > 1 then 2 ^ (p - 2) else 0)"

definition daa_spec :: "int \<Rightarrow> int \<Rightarrow> int \<Rightarrow> int \<Rightarrow> int" where
  "daa_spec u divisor parentDiff elapsed =
     max 131072 (parentDiff + parentDiff div 2048 * max (u - elapsed div divisor) (- 99))"

lemma funpow_double: "((\<lambda>y. y * 2) ^^ n) (x :: u64) = x * 2 ^ n"
  by (induction n arbitrary: x) (simp_all add: funpow_swap1 ac_simps)

lemma CalcBomb_pow:
  assumes "1 < periodCount"
  shows "CalcBomb periodCount 2 1 2 = 2 ^ (unat periodCount - 2)"
proof (cases "periodCount \<le> 2")
  case True
  with assms have "unat periodCount = 2"
    by (simp add: word_le_nat_alt word_less_nat_alt)
  with True show ?thesis by (simp add: CalcBomb_def)
next
  case False
  then have "unat (periodCount - 2) = unat periodCount - 2"
    by (subst unat_sub_no_wrap) (simp_all add: word_le_nat_alt)
  with False show ?thesis by (simp add: CalcBomb_def funpow_double)
qed

text \<open>The difficulty before the bomb is added, and the block number the bomb counts from.\<close>

definition daa_core :: "EthashDAACalculator \<Rightarrow> Timestamp \<Rightarrow> Difficulty \<Rightarrow> bool \<Rightarrow> Timestamp \<Rightarrow> Difficulty" where
  "daa_core self parentTime parentDiff parentHasUncle currTime =
     (let x = (currTime - parentTime) div m_deltaDivisor self;
          u = (if m_considerUncle self \<and> parentHasUncle then 2 else 1);
          isReducing = (x > u);
          x = (if isReducing then x - u else u - x);
          x = (if m_hasMaxCheck self \<and> isReducing \<and> x > 99 then 99 else x);
          x = drop_bit 11 parentDiff * x;
          x = (if \<not> m_hasMaxCheck self \<and> isReducing \<and> x > parentDiff then 131072
               else if isReducing then parentDiff - x
               else parentDiff + x)
      in if x < 131072 then 131072 else x)"

definition daa_fake :: "EthashDAACalculator \<Rightarrow> BlockNumber \<Rightarrow> BlockNumber" where
  "daa_fake self parentBlkNum =
     (if m_hasBombDelay self then
        (if parentBlkNum \<ge> m_bombDelayFromParent self then parentBlkNum - m_bombDelayFromParent self else 0)
      else parentBlkNum + 1)"

lemma EthashDAACalculator_core:
  "EthashDAACalculator_calc self bn pt pd un ct =
     (let p = daa_fake self bn div 100000
      in if p > 1 then daa_core self pt pd un ct + CalcBomb p 2 1 2 else daa_core self pt pd un ct)"
  unfolding EthashDAACalculator_calc_def daa_core_def daa_fake_def GetMinimumDifficulty_def
    GetDifficultyBoundDivisorBitShift_def Let_def
  by (auto split: if_splits)

lemma unat_shift11: "unat (drop_bit 11 (pd :: u64)) = unat pd div 2048"
proof -
  have "unat (drop_bit 11 pd) = unat pd div 2 ^ 11"
    unfolding unat_drop_bit_eq by (rule drop_bit_eq_div)
  then show ?thesis by (simp only:) simp
qed

lemma shift_mult_le: "k \<le> 2048 \<Longrightarrow> n div 2048 * k \<le> (n :: nat)"
  using mult_le_mono2 [of k 2048 "n div 2048"] div_times_less_eq_dividend [of n 2048] by linarith

lemma uint_less_min: "uint (if x < 131072 then 131072 else x :: u64) = max 131072 (uint x)"
  by (auto simp: word_less_def)

text \<open>The elapsed time in units of the divisor.\<close>

lemma elapsed_units:
  assumes "pt \<le> (ct :: u64)"
  shows "unat ((ct - pt) div d) = (unat ct - unat pt) div unat d"
  using assms by (simp add: unat_div unat_sub_no_wrap word_le_nat_alt)

lemma daa_core_reducing:
  assumes "k = (if m_hasMaxCheck c \<and> q - u > 99 then 99 else q - u :: nat)"
    and "unat ((ct - pt) div m_deltaDivisor c) = q"
    and "u = (if m_considerUncle c \<and> un then 2 else 1)"
    and "u < q" and "unat pd div 2048 * k < 2 ^ 64"
  shows "uint (daa_core c pt pd un ct) = max 131072 (int (unat pd) - int (unat pd div 2048) * int k)"
proof -
  define x where "x = (ct - pt) div m_deltaDivisor c"
  define w :: u64 where "w = (if m_considerUncle c \<and> un then 2 else 1)"
  have uw: "unat w = u" by (simp add: w_def assms(3))
  have gt: "x > w" using assms(2,4) uw by (simp add: word_less_nat_alt x_def)
  have d: "unat (x - w) = q - u"
    using assms(2,4) uw by (simp add: unat_sub_no_wrap x_def)
  define y where "y = (if m_hasMaxCheck c \<and> x - w > 99 then 99 else x - w)"
  have uy: "unat y = k" using d assms(1) by (simp add: y_def word_less_nat_alt)
  define z where "z = drop_bit 11 pd * y"
  have uz: "unat z = unat pd div 2048 * k"
    unfolding z_def using assms(5) by (subst unat_mult_no_wrap) (simp_all add: unat_shift11 uy)
  have core: "daa_core c pt pd un ct =
      (let r = if \<not> m_hasMaxCheck c \<and> z > pd then 131072 else pd - z in if r < 131072 then 131072 else r)"
    using gt by (auto simp: daa_core_def Let_def x_def [symmetric] w_def [symmetric] y_def z_def)
  show ?thesis
  proof (cases "z \<le> pd")
    case True
    then have "unat (pd - z) = unat pd - unat pd div 2048 * k"
      and le: "unat pd div 2048 * k \<le> unat pd"
      using uz by (simp_all add: unat_sub_no_wrap word_le_nat_alt)
    then have "int (unat (pd - z)) = int (unat pd) - int (unat pd div 2048 * k)"
      by (simp only: of_nat_diff)
    then have "uint (pd - z) = int (unat pd) - int (unat pd div 2048) * int k"
      by simp
    moreover have "\<not> pd < z" using True by simp
    ultimately show ?thesis unfolding core Let_def by (simp only: uint_less_min simp_thms if_False)
  next
    case False
    then have gt: "unat pd < unat pd div 2048 * k" using uz by (simp add: word_le_nat_alt)
    have nm: "\<not> m_hasMaxCheck c"
    proof
      assume "m_hasMaxCheck c"
      then have "k \<le> 99" using assms(1) by (auto split: if_splits)
      then have "unat pd div 2048 * k \<le> unat pd" by (intro shift_mult_le) simp
      then show False using gt by simp
    qed
    have "int (unat pd) - int (unat pd div 2048) * int k < 0"
    proof -
      have "int (unat pd) < int (unat pd div 2048 * k)" using gt by (simp only: of_nat_less_iff)
      then show ?thesis unfolding of_nat_mult by linarith
    qed
    with False nm show ?thesis unfolding core by (simp add: Let_def not_le)
  qed
qed

lemma daa_core_growing:
  assumes "unat ((ct - pt) div m_deltaDivisor c) = q"
    and "u = (if m_considerUncle c \<and> un then 2 else 1)"
    and "q \<le> u" and "unat pd < 2 ^ 63"
  shows "uint (daa_core c pt pd un ct) = max 131072 (int (unat pd) + int (unat pd div 2048) * int (u - q))"
proof -
  define x where "x = (ct - pt) div m_deltaDivisor c"
  define w :: u64 where "w = (if m_considerUncle c \<and> un then 2 else 1)"
  have uw: "unat w = u" by (simp add: w_def assms(2))
  have le: "\<not> x > w" using assms(1,3) uw by (simp add: word_less_nat_alt x_def)
  have d: "unat (w - x) = u - q"
    using assms(1,3) uw by (simp add: unat_sub_no_wrap x_def)
  have u2: "u - q \<le> 2" using assms(2) by auto
  have m2: "unat pd div 2048 * (u - q) < 2 ^ 64"
    using shift_mult_le [of "u - q" "unat pd"] u2 assms(4) by simp
  have m3: "unat pd + unat pd div 2048 * (u - q) < 2 ^ 64"
    using shift_mult_le [of "u - q" "unat pd"] u2 assms(4) by simp
  define z where "z = drop_bit 11 pd * (w - x)"
  have uz: "unat z = unat pd div 2048 * (u - q)"
    unfolding z_def using m2 by (subst unat_mult_no_wrap) (simp_all only: unat_shift11 d)
  have "unat (pd + z) = unat pd + unat pd div 2048 * (u - q)"
    using m3 by (subst unat_add_no_wrap) (simp_all only: uz)
  then have "int (unat (pd + z)) = int (unat pd) + int (unat pd div 2048 * (u - q))"
    by (simp only: of_nat_add)
  then have "uint (pd + z) = int (unat pd) + int (unat pd div 2048) * int (u - q)"
    by simp
  moreover have "daa_core c pt pd un ct = (if pd + z < 131072 then 131072 else pd + z)"
    using le by (simp add: daa_core_def Let_def x_def [symmetric] w_def [symmetric] z_def)
  ultimately show ?thesis by (simp add: uint_less_min)
qed

lemma daa_core_spec:
  assumes "m_hasMaxCheck c" and "pt \<le> ct" and "unat pd < 2 ^ 63"
  shows "uint (daa_core c pt pd un ct)
     = daa_spec (if m_considerUncle c \<and> un then 2 else 1) (uint (m_deltaDivisor c)) (uint pd) (uint ct - uint pt)"
proof -
  define u :: nat where "u = (if m_considerUncle c \<and> un then 2 else 1)"
  define q where "q = (unat ct - unat pt) div unat (m_deltaDivisor c)"
  have q: "unat ((ct - pt) div m_deltaDivisor c) = q"
    unfolding q_def by (rule elapsed_units [OF assms(2)])
  have le: "unat pt \<le> unat ct" using assms(2) by (simp add: word_le_nat_alt)
  have qi: "(uint ct - uint pt) div uint (m_deltaDivisor c) = int q"
    using le by (simp add: q_def zdiv_int of_nat_diff)
  have ui: "(if m_considerUncle c \<and> un then 2 else 1) = int u"
    by (simp add: u_def)
  show ?thesis
  proof (cases "u < q")
    case True
    define k where "k = (if m_hasMaxCheck c \<and> q - u > 99 then 99 else q - u)"
    have k: "int k = min 99 (int q - int u)" using True assms(1) by (simp add: k_def)
    have "k \<le> 2048" using assms(1) by (simp add: k_def)
    then have lt: "unat pd div 2048 * k < 2 ^ 64"
      using shift_mult_le [of k "unat pd"] assms(3) by simp
    have "max (int u - int q) (- 99) = - int k" using k by simp
    then show ?thesis
      using daa_core_reducing [OF k_def q u_def True lt]
      unfolding daa_spec_def qi ui by (simp add: zdiv_int)
  next
    case False
    then have "max (int u - int q) (- 99) = int (u - q)" by simp
    then show ?thesis
      using daa_core_growing [OF q u_def _ assms(3)] False
      unfolding daa_spec_def qi ui by (simp add: zdiv_int)
  qed
qed

text \<open>The estimating calculator has no cap on the reduction.\<close>

definition daa_est_spec :: "int \<Rightarrow> int \<Rightarrow> int \<Rightarrow> int \<Rightarrow> int" where
  "daa_est_spec u divisor parentDiff elapsed =
     max 131072 (parentDiff + parentDiff div 2048 * (u - elapsed div divisor))"

lemma daa_core_est_spec:
  assumes "\<not> m_hasMaxCheck c" and "pt \<le> ct" and "unat pd < 2 ^ 63"
    and "unat pd div 2048 * ((unat ct - unat pt) div unat (m_deltaDivisor c)) < 2 ^ 64"
  shows "uint (daa_core c pt pd un ct)
     = daa_est_spec (if m_considerUncle c \<and> un then 2 else 1) (uint (m_deltaDivisor c)) (uint pd) (uint ct - uint pt)"
proof -
  define u :: nat where "u = (if m_considerUncle c \<and> un then 2 else 1)"
  define q where "q = (unat ct - unat pt) div unat (m_deltaDivisor c)"
  have q: "unat ((ct - pt) div m_deltaDivisor c) = q"
    unfolding q_def by (rule elapsed_units [OF assms(2)])
  have le: "unat pt \<le> unat ct" using assms(2) by (simp add: word_le_nat_alt)
  have qi: "(uint ct - uint pt) div uint (m_deltaDivisor c) = int q"
    using le by (simp add: q_def zdiv_int of_nat_diff)
  have ui: "(if m_considerUncle c \<and> un then 2 else 1) = int u"
    by (simp add: u_def)
  show ?thesis
  proof (cases "u < q")
    case True
    define k where "k = (if m_hasMaxCheck c \<and> q - u > 99 then 99 else q - u)"
    have k: "int k = int q - int u" "k \<le> q" using True assms(1) by (simp_all add: k_def)
    have lt: "unat pd div 2048 * k < 2 ^ 64"
      using assms(4) unfolding q_def [symmetric] by (rule le_less_trans [OF mult_le_mono2 [OF k(2)]])
    have "int u - int q = - int k" using k by simp
    then show ?thesis
      using daa_core_reducing [OF k_def q u_def True lt]
      unfolding daa_est_spec_def qi ui by (simp add: zdiv_int)
  next
    case False
    then have "int u - int q = int (u - q)" by simp
    then show ?thesis
      using daa_core_growing [OF q u_def _ assms(3)] False
      unfolding daa_est_spec_def qi ui by (simp add: zdiv_int)
  qed
qed

text \<open>The block number of the bomb, as a natural number.\<close>

definition daa_fake_spec :: "EthashDAACalculator \<Rightarrow> BlockNumber \<Rightarrow> nat" where
  "daa_fake_spec c bn = (if m_hasBombDelay c then unat bn - unat (m_bombDelayFromParent c) else unat bn + 1)"

lemma daa_fake_unat:
  assumes "unat bn + 1 < 2 ^ 64"
  shows "unat (daa_fake c bn) = daa_fake_spec c bn"
proof -
  have "unat (bn + 1) = unat bn + 1" using assms by (subst unat_add_no_wrap) simp_all
  moreover have "m_bombDelayFromParent c \<le> bn \<Longrightarrow>
      unat (bn - m_bombDelayFromParent c) = unat bn - unat (m_bombDelayFromParent c)"
    by (simp add: unat_sub_no_wrap word_le_nat_alt)
  ultimately show ?thesis by (simp add: daa_fake_def daa_fake_spec_def word_le_nat_alt)
qed

lemma uint_pow2: "n < 64 \<Longrightarrow> uint (2 ^ n :: u64) = 2 ^ n"
proof -
  assume n: "n < 64"
  have "uint (2 ^ n :: u64) = uint (word_of_int (2 ^ n) :: u64)" by simp
  also have "\<dots> = 2 ^ n mod 2 ^ 64" by (simp only: uint_word_of_int) simp
  also have "\<dots> = 2 ^ n"
    using power_strict_increasing [OF n, of "2 :: int"] by (intro mod_pos_pos_trivial) simp_all
  finally show ?thesis .
qed

lemma bomb_uint:
  assumes "unat f = n" and "n div 100000 < 66"
  shows "uint (if f div 100000 > 1 then CalcBomb (f div 100000) 2 1 2 else 0) = bomb_spec n"
proof -
  have p: "unat (f div 100000) = n div 100000" using assms(1) by (simp add: unat_div)
  show ?thesis
  proof (cases "f div 100000 > 1")
    case True
    then have gt: "n div 100000 > 1" using p by (simp add: word_less_nat_alt)
    have "n div 100000 - 2 < 64" using assms(2) by linarith
    then have "uint (2 ^ (n div 100000 - 2) :: u64) = 2 ^ (n div 100000 - 2)"
      by (rule uint_pow2)
    with True gt p show ?thesis by (simp add: CalcBomb_pow bomb_spec_def)
  next
    case False
    then have "\<not> n div 100000 > 1" using p by (simp add: word_less_nat_alt)
    with False show ?thesis by (simp add: bomb_spec_def)
  qed
qed

lemma calc_sum:
  assumes "uint (daa_core c pt pd un ct) = d" and "unat bn + 1 < 2 ^ 64"
    and "daa_fake_spec c bn div 100000 < 66" and "d + bomb_spec (daa_fake_spec c bn) < 2 ^ 64"
  shows "uint (EthashDAACalculator_calc c bn pt pd un ct) = d + bomb_spec (daa_fake_spec c bn)"
proof -
  let ?f = "daa_fake c bn"
  let ?b = "if ?f div 100000 > 1 then CalcBomb (?f div 100000) 2 1 2 else 0"
  have b: "uint ?b = bomb_spec (daa_fake_spec c bn)"
    using daa_fake_unat [OF assms(2), of c] assms(3) by (rule bomb_uint)
  have "EthashDAACalculator_calc c bn pt pd un ct = daa_core c pt pd un ct + ?b"
    by (simp add: EthashDAACalculator_core Let_def)
  moreover have "uint (daa_core c pt pd un ct + ?b) = uint (daa_core c pt pd un ct) + uint ?b"
    using assms(1,4) b by (intro uint_plus_simple_iff [THEN iffD1]) (simp add: no_olen_add)
  ultimately show ?thesis using b assms(1) by simp
qed

lemma bomb_nonneg: "0 \<le> bomb_spec n"
  by (simp add: bomb_spec_def Let_def)

text \<open>The calculators of the forks.\<close>

lemma EthashDAACalculator_new_sel [simp]:
  "m_considerUncle (EthashDAACalculator_new u d m b n) = u"
  "m_deltaDivisor (EthashDAACalculator_new u d m b n) = d"
  "m_hasMaxCheck (EthashDAACalculator_new u d m b n) = m"
  "m_hasBombDelay (EthashDAACalculator_new u d m b n) = b"
  "m_bombDelayFromParent (EthashDAACalculator_new u d m b n) = n - 1"
  by (simp_all add: EthashDAACalculator_new_def)

lemmas calculator_defs = GetEip5133_def GetEip5133Estimated_def GetEip4345_def GetEip3554_def GetEip2384_def
  GetConstantinople_def GetByzantium_def GetHomestead_def

section \<open>Properties of validation\<close>

lemma CommonValidate_accept:
  "CommonValidate cfg daa parent l current l' = Inr True \<longleftrightarrow>
     m_blkNum current = m_blkNum parent + 1
   \<and> ParentHash (m_rawHeader current) = m_hash parent
   \<and> (if IsBlockOfParis cfg (m_blkNum current) then m_diff current = 0
      else DAABase_run daa cfg parent current = Inr (m_diff current))"
  by (auto simp: CommonValidate_def Let_def bindE_def split: sum.splits)

lemma DAABase_run_no_throw:
  "\<not> IsBlockOfParis cfg (m_blkNum current) \<Longrightarrow> daa \<noteq> EthashDAAEstImpl \<Longrightarrow>
   \<exists>d. DAABase_run daa cfg parent current = Inr d"
  by (cases daa) (auto simp: DAABase_run_def EthashDAA_GetCalculator_def)

lemma CommonValidate_no_throw:
  "daa \<noteq> EthashDAAEstImpl \<Longrightarrow> \<exists>b. CommonValidate cfg daa parent l current l' = Inr b"
  using DAABase_run_no_throw [of cfg current daa parent]
  by (auto simp: CommonValidate_def Let_def bindE_def split: sum.splits)

section \<open>Properties\<close>


text \<open>Validation never throws with the calculators the networks select (the estimator,
  which can throw, is not one of them).\<close>

theorem CommonValidate_total:
  assumes "daa \<noteq> EthashDAAEstImpl"
  shows "\<exists>b. CommonValidate cfg daa parent l current l' = Inr b"
  by (rule CommonValidate_no_throw [OF assms])

theorem CommonValidate_total_witness:
  "\<exists>b. CommonValidate GoerliConfig TestnetDAACalculator HeaderMgr_default True HeaderMgr_default True = Inr b"
  by (rule CommonValidate_total) simp

text \<open>The difficulty of the proof-of-work main net since Homestead, over the integers: EIP-2 and
  EIP-100 for the adjustment, and the bomb with the delays of EIP-649, 1234, 2384, 3554, 4345 and
  5133.\<close>

definition mainnet_bomb_delay :: "nat \<Rightarrow> nat" where
  "mainnet_bomb_delay n =
     (if n < 4370000 then 0 else if n < 7280000 then 3000000 else if n < 9200000 then 5000000
      else if n < 12965000 then 9000000 else if n < 13773000 then 9700000
      else if n < 15050000 then 10700000 else 11400000)"

definition mainnet_difficulty :: "nat \<Rightarrow> bool \<Rightarrow> int \<Rightarrow> int \<Rightarrow> int" where
  "mainnet_difficulty n uncles parentDiff elapsed =
     (let byzantium = n \<ge> 4370000 in
      daa_spec (if byzantium \<and> uncles then 2 else 1) (if byzantium then 9 else 10) parentDiff elapsed
      + bomb_spec (n - mainnet_bomb_delay n))"

definition mainnet_calculator :: "nat \<Rightarrow> EthashDAACalculator" where
  "mainnet_calculator n =
     (if n < 4370000 then GetHomestead else if n < 7280000 then GetByzantium
      else if n < 9200000 then GetConstantinople else if n < 12965000 then GetEip2384
      else if n < 13773000 then GetEip3554 else if n < 15050000 then GetEip4345 else GetEip5133)"

lemma mainnet_GetCalculator:
  assumes "1150000 \<le> unat n" and "unat n < 15537394"
  shows "EthashDAA_GetCalculator MainnetConfig n = Inr (Ethash (mainnet_calculator (unat n)))"
  using assms
  by (simp add: EthashDAA_GetCalculator_def IsBlockOf_defs IsBlockOf_def MainnetConfig_def
      mainnet_calculator_def word_le_nat_alt not_le)

lemma mainnet_calculator_fake:
  assumes "unat bn + 1 = n"
  shows "daa_fake_spec (mainnet_calculator n) bn = n - mainnet_bomb_delay n"
  using assms by (auto simp: daa_fake_spec_def mainnet_calculator_def mainnet_bomb_delay_def calculator_defs)

lemma mainnet_period:
  assumes "n < 15537394"
  shows "(n - mainnet_bomb_delay n) div 100000 \<le> 45"
proof -
  have "n - mainnet_bomb_delay n < 4600000" using assms unfolding mainnet_bomb_delay_def by (simp split: if_splits) linarith
  then show ?thesis by simp
qed

lemma bomb_spec_le:
  assumes "n div 100000 \<le> 45"
  shows "bomb_spec n \<le> 2 ^ 43"
  using assms power_increasing [of "n div 100000 - 2" 43 "2 :: int"] by (simp add: bomb_spec_def Let_def)

lemma daa_spec_le:
  assumes "u \<le> 2" and "0 \<le> pd" and "0 \<le> e" and "0 < v"
  shows "daa_spec u v pd e \<le> max 131072 (pd + pd div 2048 * 2)"
proof -
  have "max (u - e div v) (- 99) \<le> 2" using assms pos_imp_zdiv_nonneg_iff [of v e] by simp
  moreover have "0 \<le> pd div 2048" using assms(2) by simp
  ultimately have "pd div 2048 * max (u - e div v) (- 99) \<le> pd div 2048 * 2" by (rule mult_left_mono)
  then show ?thesis by (simp add: daa_spec_def)
qed

text \<open>C22. The difficulty the calculator of the main net computes for a block from Homestead to the
  merge is the yellow-paper formula over the integers: no intermediate result of the 64-bit code
  wraps (parent difficulty below \<open>2 ^ 63\<close>, time not running backwards).\<close>

theorem mainnet_difficulty_correct:
  assumes num: "m_blkNum cur = m_blkNum par + 1"
    and lo: "1150000 \<le> unat (m_blkNum cur)" and hi: "unat (m_blkNum cur) < 15537394"
    and time: "m_time par \<le> m_time cur" and diff: "unat (m_diff par) < 2 ^ 63"
  shows "\<exists>d. DAABase_run EthashDAAImpl MainnetConfig par cur = Inr d
     \<and> uint d = mainnet_difficulty (unat (m_blkNum cur)) (m_hasUncle par) (uint (m_diff par))
                  (uint (m_time cur) - uint (m_time par))"
proof -
  let ?n = "unat (m_blkNum cur)"
  let ?c = "mainnet_calculator ?n"
  let ?e = "uint (m_time cur) - uint (m_time par)"
  let ?D = "daa_spec (if m_considerUncle ?c \<and> m_hasUncle par then 2 else 1) (uint (m_deltaDivisor ?c)) (uint (m_diff par)) ?e"
  have np: "unat (m_blkNum par) + 1 = ?n"
  proof -
    have "?n = (unat (m_blkNum par) + 1) mod 2 ^ 64" by (simp add: num unat_word_ariths)
    moreover have "unat (m_blkNum par) + 1 \<noteq> 2 ^ 64" using calculation lo by auto
    moreover have "unat (m_blkNum par) < 2 ^ 64" using unsigned_less [of "m_blkNum par"] by simp
    ultimately show ?thesis by simp
  qed
  have fake: "daa_fake_spec ?c (m_blkNum par) = ?n - mainnet_bomb_delay ?n"
    by (rule mainnet_calculator_fake [OF np])
  have "m_hasMaxCheck ?c" by (simp add: mainnet_calculator_def calculator_defs)
  from daa_core_spec [OF this time diff]
  have core: "uint (daa_core ?c (m_time par) (m_diff par) (m_hasUncle par) (m_time cur)) = ?D" .
  have e: "0 \<le> ?e" using time by (simp add: word_le_def)
  have pd: "uint (m_diff par) < 2 ^ 63" 
  proof -
    have "int (unat (m_diff par)) < int (2 ^ 63)" using diff by (simp only: of_nat_less_iff)
    then show ?thesis by simp
  qed
  have "?D \<le> max 131072 (uint (m_diff par) + uint (m_diff par) div 2048 * 2)"
    using e by (intro daa_spec_le) (simp_all add: mainnet_calculator_def calculator_defs)
  moreover have "max 131072 (uint (m_diff par) + uint (m_diff par) div 2048 * 2) < 2 ^ 63 + 2 ^ 53 + 1"
    using pd by simp
  moreover have "bomb_spec (?n - mainnet_bomb_delay ?n) \<le> 2 ^ 43"
    by (rule bomb_spec_le [OF mainnet_period [OF hi]])
  ultimately have small: "?D + bomb_spec (daa_fake_spec ?c (m_blkNum par)) < 2 ^ 64"
    unfolding fake by simp
  have "uint (EthashDAACalculator_calc ?c (m_blkNum par) (m_time par) (m_diff par) (m_hasUncle par) (m_time cur))
      = ?D + bomb_spec (daa_fake_spec ?c (m_blkNum par))"
    using np hi mainnet_period [OF hi] by (intro calc_sum [OF core _ _ small]) (simp_all add: fake)
  moreover have "?D + bomb_spec (?n - mainnet_bomb_delay ?n)
      = mainnet_difficulty ?n (m_hasUncle par) (uint (m_diff par)) ?e"
    by (simp add: mainnet_difficulty_def mainnet_calculator_def calculator_defs)
  ultimately show ?thesis
    by (simp add: DAABase_run_def mainnet_GetCalculator [OF lo hi] DAACalculator_run_def fake)
qed

text \<open>A block of the London era, 13 seconds after a parent with uncles.\<close>

theorem mainnet_difficulty_correct_witness:
  "\<exists>d. DAABase_run EthashDAAImpl MainnetConfig
        (HeaderMgr_default\<lparr>m_blkNum := 12999999, m_time := 1000, m_diff := 2048000000, m_hasUncle := True\<rparr>)
        (HeaderMgr_default\<lparr>m_blkNum := 13000000, m_time := 1013\<rparr>) = Inr d
     \<and> uint d = mainnet_difficulty 13000000 True 2048000000 13"
  using mainnet_difficulty_correct [of "HeaderMgr_default\<lparr>m_blkNum := 13000000, m_time := 1013\<rparr>"
      "HeaderMgr_default\<lparr>m_blkNum := 12999999, m_time := 1000, m_diff := 2048000000, m_hasUncle := True\<rparr>"]
  by simp

end
