(* ===== verification/EthHeaderNode.thy ===== *)
theory EthHeaderNode
  imports EthHeader "HOL-Library.Multiset"
begin

text \<open>
  \<open>EclipseMonitor/Eth/HeaderNode.hpp\<close>: the tree of headers above the last checkpoint. A node
  owns its children through \<open>unique_ptr\<close>, so the nodes form a tree; the raw pointers other
  objects keep to a node are its address, a natural number, and a pointer is valid while a
  node with this address is in the tree. \<open>m_parent\<close> is the owner. \<open>AddChild\<close> and the chain of
  \<open>AddDescCount\<close> calls it makes up to the root are one recursion from the root. A header is
  taken out of a node (\<open>ReleaseHeader\<close>) only when the node is destroyed in the same
  statement sequence, so a node in the tree always has its header.
\<close>

datatype HeaderNode =
  HeaderNode (node_addr: nat) (m_header: HeaderMgr) (m_syncState: nat)
    (m_children: "(nat \<times> HeaderNode) list")

definition HeaderNode_new :: "nat \<Rightarrow> HeaderMgr \<Rightarrow> nat \<Rightarrow> HeaderNode" where
  "HeaderNode_new addr header syncState = HeaderNode addr header syncState []"

text \<open>\<open>p->AddChild(c)\<close> in the tree: \<open>c\<close> is appended with no descendants to the children of the
  node at \<open>p\<close>, and every child entry on the way from the root counts one more descendant.
  \<open>None\<close>: no node of the tree is at \<open>p\<close>.\<close>

fun AddChild :: "nat \<Rightarrow> HeaderNode \<Rightarrow> HeaderNode \<Rightarrow> HeaderNode option"
  and AddChild_list :: "nat \<Rightarrow> HeaderNode \<Rightarrow> (nat \<times> HeaderNode) list \<Rightarrow> (nat \<times> HeaderNode) list option"
where
  "AddChild p c (HeaderNode a h s cs) =
     (if a = p then Some (HeaderNode a h s (cs @ [(0, c)]))
      else case AddChild_list p c cs of
             None \<Rightarrow> None
           | Some cs' \<Rightarrow> Some (HeaderNode a h s cs'))"
| "AddChild_list p c [] = None"
| "AddChild_list p c (e # es) =
     (case AddChild p c (snd e) of
        Some x \<Rightarrow> Some ((fst e + 1, x) # es)
      | None \<Rightarrow> (case AddChild_list p c es of None \<Rightarrow> None | Some es' \<Rightarrow> Some (e # es')))"

text \<open>The first child with at least \<open>n\<close> descendants, and the others.\<close>

fun release_child :: "nat \<Rightarrow> (nat \<times> HeaderNode) list \<Rightarrow> (HeaderNode \<times> (nat \<times> HeaderNode) list) option" where
  "release_child n [] = None"
| "release_child n (e # es) =
     (if fst e \<ge> n then Some (snd e, es)
      else case release_child n es of None \<Rightarrow> None | Some (c, es') \<Rightarrow> Some (c, e # es'))"

definition ReleaseChildHasNDesc :: "nat \<Rightarrow> HeaderNode \<Rightarrow> HeaderNode option \<times> HeaderNode" where
  "ReleaseChildHasNDesc n node =
     (case release_child n (m_children node) of
        None \<Rightarrow> (None, node)
      | Some (c, cs) \<Rightarrow> (Some c, HeaderNode (node_addr node) (m_header node) (m_syncState node) cs))"

definition GetNumOfChildren :: "HeaderNode \<Rightarrow> nat" where
  "GetNumOfChildren node = length (m_children node)"

text \<open>Following a raw pointer: the node of the tree at an address.\<close>

fun find_node :: "nat \<Rightarrow> HeaderNode \<Rightarrow> HeaderNode option"
  and find_node_list :: "nat \<Rightarrow> (nat \<times> HeaderNode) list \<Rightarrow> HeaderNode option"
where
  "find_node p (HeaderNode a h s cs) = (if a = p then Some (HeaderNode a h s cs) else find_node_list p cs)"
| "find_node_list p [] = None"
| "find_node_list p (e # es) =
     (case find_node p (snd e) of Some x \<Rightarrow> Some x | None \<Rightarrow> find_node_list p es)"

fun addrs :: "HeaderNode \<Rightarrow> nat list" where
  "addrs (HeaderNode a h s cs) = a # concat (map (\<lambda>e. addrs (snd e)) cs)"

section \<open>Descendant counts\<close>

fun num_desc :: "HeaderNode \<Rightarrow> nat" where
  "num_desc (HeaderNode a h s cs) = sum_list (map (\<lambda>e. 1 + num_desc (snd e)) cs)"

text \<open>Every stored count is the number of descendants of the child it is stored with.\<close>

fun counts_ok :: "HeaderNode \<Rightarrow> bool" where
  "counts_ok (HeaderNode a h s cs) \<longleftrightarrow> (\<forall>e\<in>set cs. fst e = num_desc (snd e) \<and> counts_ok (snd e))"

lemma length_addrs: "length (addrs x) = Suc (num_desc x)"
proof (induction x)
  case (HeaderNode a h s cs)
  then have "map (\<lambda>e. length (addrs (snd e))) cs = map (\<lambda>e. Suc (num_desc (snd e))) cs"
    by (intro map_cong refl) (metis snds.intros prod.collapse)
  then show ?case by (simp add: length_concat comp_def del: map_eq_conv)
qed

lemma find_node_addr:
  "find_node p x = Some y \<Longrightarrow> node_addr y = p"
  "find_node_list p es = Some y \<Longrightarrow> node_addr y = p"
  by (induction p x and p es arbitrary: y and y rule: find_node_find_node_list.induct)
    (auto split: if_splits option.splits)

lemma find_node_iff:
  "(find_node p x \<noteq> None) = (p \<in> set (addrs x))"
  "(find_node_list p es \<noteq> None) = (\<exists>e\<in>set es. p \<in> set (addrs (snd e)))"
  by (induction p x and p es rule: find_node_find_node_list.induct) (force split: option.splits)+

lemma AddChild_iff:
  "(AddChild p c x \<noteq> None) = (p \<in> set (addrs x))"
  "(AddChild_list p c es \<noteq> None) = (\<exists>e\<in>set es. p \<in> set (addrs (snd e)))"
  by (induction p c x and p c es rule: AddChild_AddChild_list.induct) (force split: option.splits)+

lemma AddChild_addrs:
  "AddChild p c x = Some y \<Longrightarrow> mset (addrs y) = mset (addrs x) + mset (addrs c)"
  "AddChild_list p c es = Some es' \<Longrightarrow>
     mset (concat (map (\<lambda>e. addrs (snd e)) es')) = mset (concat (map (\<lambda>e. addrs (snd e)) es)) + mset (addrs c)"
  by (induction p c x and p c es arbitrary: y and es' rule: AddChild_AddChild_list.induct)
    (auto split: if_splits option.splits)

lemma AddChild_root: "AddChild p c x = Some y \<Longrightarrow> node_addr y = node_addr x \<and> m_header y = m_header x"
  by (cases x) (auto split: if_splits option.splits)

lemma AddChild_desc:
  "AddChild p c x = Some y \<Longrightarrow> num_desc c = 0 \<Longrightarrow> num_desc y = Suc (num_desc x)"
  "AddChild_list p c es = Some es' \<Longrightarrow> num_desc c = 0 \<Longrightarrow>
     sum_list (map (\<lambda>e. 1 + num_desc (snd e)) es') = Suc (sum_list (map (\<lambda>e. 1 + num_desc (snd e)) es))"
  by (induction p c x and p c es arbitrary: y and es' rule: AddChild_AddChild_list.induct)
    (auto split: if_splits option.splits)

text \<open>Adding a leaf keeps every count right.\<close>

lemma AddChild_counts:
  "AddChild p c x = Some y \<Longrightarrow> counts_ok x \<Longrightarrow> counts_ok c \<Longrightarrow> num_desc c = 0 \<Longrightarrow> counts_ok y"
  "AddChild_list p c es = Some es' \<Longrightarrow> \<forall>e\<in>set es. fst e = num_desc (snd e) \<and> counts_ok (snd e) \<Longrightarrow>
     counts_ok c \<Longrightarrow> num_desc c = 0 \<Longrightarrow> \<forall>e\<in>set es'. fst e = num_desc (snd e) \<and> counts_ok (snd e)"
proof (induction p c x and p c es arbitrary: y and es' rule: AddChild_AddChild_list.induct)
  case (3 p c e es)
  show ?case
  proof (cases "AddChild p c (snd e)")
    case None
    with 3 show ?thesis by (auto split: option.splits)
  next
    case (Some x)
    with 3 AddChild_desc(1) [OF Some] show ?thesis by auto
  qed
qed (auto split: if_splits option.splits)

lemma release_child_spec:
  "release_child n es = Some (c, es') \<Longrightarrow>
   \<exists>i k. i < length es \<and> es ! i = (k, c) \<and> n \<le> k \<and> (\<forall>j<i. fst (es ! j) < n) \<and> es' = take i es @ drop (Suc i) es"
proof (induction es arbitrary: es')
  case (Cons e es)
  show ?case
  proof (cases "fst e \<ge> n")
    case True
    with Cons.prems show ?thesis by (intro exI [of _ 0] exI [of _ "fst e"]) (auto simp: prod_eq_iff)
  next
    case False
    with Cons obtain es'' where r: "release_child n es = Some (c, es'')" "es' = e # es''"
      by (auto split: option.splits)
    from Cons.IH [OF r(1)] obtain i k where "i < length es" "es ! i = (k, c)" "n \<le> k"
      "\<forall>j<i. fst (es ! j) < n" "es'' = take i es @ drop (Suc i) es" by blast
    with r(2) False show ?thesis
      by (intro exI [of _ "Suc i"] exI [of _ k]) (auto simp: nth_Cons' less_Suc_eq_0_disj)
  qed
qed simp

lemma release_child_None: "release_child n es = None \<longleftrightarrow> (\<forall>e\<in>set es. fst e < n)"
  by (induction es) (auto split: option.splits)

lemma release_child_set:
  "release_child n es = Some (c, es') \<Longrightarrow> \<exists>k. (k, c) \<in> set es \<and> n \<le> k \<and> set es' \<subseteq> set es"
  by (drule release_child_spec) (metis Un_least nth_mem set_append set_drop_subset set_take_subset)

lemma ReleaseChild_counts:
  assumes "counts_ok x" and "ReleaseChildHasNDesc n x = (r, y)"
  shows "counts_ok y" and "r = Some c \<Longrightarrow> counts_ok c \<and> n \<le> num_desc c"
proof -
  show "counts_ok y"
    using assms
    by (cases x) (force simp: ReleaseChildHasNDesc_def split: option.splits dest!: release_child_set)
  assume "r = Some c"
  with assms obtain k where "(k, c) \<in> set (m_children x)" "n \<le> k"
    by (auto simp: ReleaseChildHasNDesc_def split: option.splits dest!: release_child_set)
  with assms(1) show "counts_ok c \<and> n \<le> num_desc c" by (cases x) force
qed

section \<open>Properties\<close>

text \<open>\<open>AddChild\<close> on a node of the tree appends the new leaf, keeps every other node, keeps every
  stored descendant count exact and adds one to the descendants of the root.\<close>

theorem AddChild_correct:
  assumes "counts_ok x" and "p \<in> set (addrs x)"
  shows "\<exists>y. AddChild p (HeaderNode_new a h s) x = Some y \<and> counts_ok y
     \<and> mset (addrs y) = add_mset a (mset (addrs x)) \<and> num_desc y = Suc (num_desc x)
     \<and> node_addr y = node_addr x \<and> m_header y = m_header x"
proof -
  obtain y where y: "AddChild p (HeaderNode_new a h s) x = Some y"
    using AddChild_iff(1) assms(2) by blast
  have "counts_ok y" and "num_desc y = Suc (num_desc x)"
    using AddChild_counts(1) [OF y assms(1)] AddChild_desc(1) [OF y] by (simp_all add: HeaderNode_new_def)
  with y AddChild_addrs(1) [OF y] AddChild_root [OF y] show ?thesis
    by (simp add: HeaderNode_new_def)
qed

theorem AddChild_correct_witness:
  "\<exists>y. AddChild 2 (HeaderNode_new 3 HeaderMgr_default 0)
        (HeaderNode 1 HeaderMgr_default 0 [(0, HeaderNode_new 2 HeaderMgr_default 0)]) = Some y
     \<and> counts_ok y \<and> num_desc y = 2"
  using AddChild_correct [of "HeaderNode 1 HeaderMgr_default 0 [(0, HeaderNode_new 2 HeaderMgr_default 0)]" 2
      3 HeaderMgr_default 0]
  by (fastforce simp: HeaderNode_new_def)

text \<open>\<open>ReleaseChildHasNDesc\<close> takes out the first child that really has the requested number of
  descendants and leaves the other children in order; it returns nothing exactly when no child has.\<close>

theorem ReleaseChild_correct:
  assumes "counts_ok x" and "ReleaseChildHasNDesc n x = (r, y)"
  shows "case r of
       None \<Rightarrow> y = x \<and> (\<forall>e\<in>set (m_children x). num_desc (snd e) < n)
     | Some c \<Rightarrow> counts_ok c \<and> counts_ok y \<and> n \<le> num_desc c \<and>
         (\<exists>pre post. m_children x = pre @ (num_desc c, c) # post \<and> m_children y = pre @ post
            \<and> (\<forall>e\<in>set pre. num_desc (snd e) < n))"
proof -
  have ok: "\<forall>e\<in>set (m_children x). fst e = num_desc (snd e)" using assms(1) by (cases x) auto
  show ?thesis
  proof (cases r)
    case None
    with assms ok show ?thesis
      by (auto simp: ReleaseChildHasNDesc_def release_child_None split: option.splits)
  next
    case (Some c)
    then have rc: "release_child n (m_children x) = Some (c, m_children y)"
      using assms(2) by (auto simp: ReleaseChildHasNDesc_def split: option.splits)
    from release_child_spec [OF this] obtain i k where i: "i < length (m_children x)"
      "m_children x ! i = (k, c)" "\<forall>j<i. fst (m_children x ! j) < n"
      "m_children y = take i (m_children x) @ drop (Suc i) (m_children x)" by blast
    have k: "k = num_desc c" using ok nth_mem [OF i(1)] i(2) by force
    have "m_children x = take i (m_children x) @ (num_desc c, c) # drop (Suc i) (m_children x)"
      using id_take_nth_drop [OF i(1)] i(2) k by simp
    moreover have "\<forall>e\<in>set (take i (m_children x)). num_desc (snd e) < n"
    proof
      fix e assume "e \<in> set (take i (m_children x))"
      then obtain j where "j < i" "e = m_children x ! j" using i(1) by (auto simp: in_set_conv_nth)
      then show "num_desc (snd e) < n" using i(1,3) ok nth_mem [of j "m_children x"] by fastforce
    qed
    ultimately show ?thesis
      using ReleaseChild_counts(1) [OF assms] ReleaseChild_counts(2) [OF assms, of c] Some i(4) by auto
  qed
qed

theorem ReleaseChild_correct_witness:
  "case ReleaseChildHasNDesc 1 (HeaderNode 1 HeaderMgr_default 0
       [(0, HeaderNode_new 2 HeaderMgr_default 0), (1, HeaderNode 3 HeaderMgr_default 0 [(0, HeaderNode_new 4 HeaderMgr_default 0)])])
   of (Some c, y) \<Rightarrow> counts_ok c \<and> counts_ok y \<and> 1 \<le> num_desc c | _ \<Rightarrow> False"
proof -
  let ?x = "HeaderNode 1 HeaderMgr_default 0
       [(0, HeaderNode_new 2 HeaderMgr_default 0), (1, HeaderNode 3 HeaderMgr_default 0 [(0, HeaderNode_new 4 HeaderMgr_default 0)])]"
  obtain r y where r: "ReleaseChildHasNDesc 1 ?x = (r, y)" by fastforce
  moreover have "counts_ok ?x" by (simp add: HeaderNode_new_def)
  ultimately have "case r of None \<Rightarrow> y = ?x \<and> (\<forall>e\<in>set (m_children ?x). num_desc (snd e) < 1)
     | Some c \<Rightarrow> counts_ok c \<and> counts_ok y \<and> 1 \<le> num_desc c \<and>
         (\<exists>pre post. m_children ?x = pre @ (num_desc c, c) # post \<and> m_children y = pre @ post
            \<and> (\<forall>e\<in>set pre. num_desc (snd e) < 1))"
    using ReleaseChild_correct by blast
  then show ?thesis
    unfolding r by (cases r) (simp_all add: HeaderNode_new_def)
qed

end
