(* ===== verification/EthCheckpoint.thy ===== *)
theory EthCheckpoint
  imports EthDaa EthHeaderNode
begin

text \<open>
  \<open>EclipseMonitor/Eth/CheckpointMgr.hpp\<close>: the sliding window of confirmed headers, and
  \<open>DiffChecker.hpp\<close>, which takes the lowest acceptable difficulty from its median.
  The completion callback is the last thing an addition does, so an addition returns whether
  it is to be run. \<open>checkpoint_add\<close> is the contract: a window of confirmed headers and a
  candidate list that replaces it when it is full. Both phases of the manager, with their
  different storage, are proved to implement it.
\<close>

record MonitorConfig =
  SVN :: u32
  chainName :: string
  checkpointSize :: u64
  minDiffPercent :: u8
  maxWaitTime :: u64
  syncMaxWaitTime :: u64

section \<open>CheckpointMgr\<close>

record CheckpointMgr =
  m_chkptSize :: nat
  m_currWindow :: "HeaderMgr list"
  m_candidate :: "HeaderMgr list"
  m_lastNode :: "HeaderNode option"
  m_isLastNodeCandidate :: bool

definition CheckpointMgr_new :: "MonitorConfig \<Rightarrow> CheckpointMgr" where
  "CheckpointMgr_new mConf = \<lparr>m_chkptSize = unat (checkpointSize mConf),
     m_currWindow = [], m_candidate = [], m_lastNode = None, m_isLastNodeCandidate = False\<rparr>"

definition GetNumOfCandidates :: "CheckpointMgr \<Rightarrow> nat" where
  "GetNumOfCandidates s =
     length (m_candidate s) + (if m_lastNode s \<noteq> None \<and> m_isLastNodeCandidate s then 1 else 0)"

definition AddNode :: "HeaderNode \<Rightarrow> CheckpointMgr \<Rightarrow> bool \<times> CheckpointMgr" where
  "AddNode node s =
     (if GetNumOfCandidates s + 1 \<ge> m_chkptSize s then
        let s = (case m_lastNode s of None \<Rightarrow> s
                 | Some n \<Rightarrow> s\<lparr>m_candidate := m_candidate s @ [m_header n]\<rparr>);
            s = s\<lparr>m_currWindow := []\<rparr>;
            s = s\<lparr>m_currWindow := m_candidate s, m_candidate := m_currWindow s\<rparr>;
            s = s\<lparr>m_lastNode := Some node\<rparr>;
            s = s\<lparr>m_isLastNodeCandidate := False\<rparr>
        in (True, s)
      else
        let s = (case m_lastNode s of None \<Rightarrow> s
                 | Some n \<Rightarrow>
                     if m_isLastNodeCandidate s
                     then s\<lparr>m_candidate := m_candidate s @ [m_header n]\<rparr>
                     else s\<lparr>m_currWindow := m_currWindow s @ [m_header n]\<rparr>);
            s = s\<lparr>m_lastNode := Some node\<rparr>;
            s = s\<lparr>m_isLastNodeCandidate := True\<rparr>
        in (False, s))"

definition AddHeader :: "HeaderMgr \<Rightarrow> CheckpointMgr \<Rightarrow> Exception + (bool \<times> CheckpointMgr)" where
  "AddHeader header s =
     (if m_lastNode s \<noteq> None then
        Inl (Exception ''Checkpoint manager can only accept nodes during runtime phase'')
      else
        let s = s\<lparr>m_candidate := m_candidate s @ [header]\<rparr> in
        if GetNumOfCandidates s \<ge> m_chkptSize s then
          let s = s\<lparr>m_currWindow := []\<rparr>;
              s = s\<lparr>m_currWindow := m_candidate s, m_candidate := m_currWindow s\<rparr>
          in Inr (True, s)
        else Inr (False, s))"

text \<open>The headers \<open>IterateCurrWindow\<close> visits, in its order.\<close>

definition IterateCurrWindow :: "CheckpointMgr \<Rightarrow> HeaderMgr list" where
  "IterateCurrWindow s =
     m_currWindow s @ (case m_lastNode s of
        None \<Rightarrow> [] | Some n \<Rightarrow> if \<not> m_isLastNodeCandidate s then [m_header n] else [])"

text \<open>\<open>nth_element\<close> puts the element of the sorted order at the given position there; for an
  empty window the code dereferences the end iterator.\<close>

definition GetDiffMedian :: "CheckpointMgr \<Rightarrow> Exception + Difficulty" where
  "GetDiffMedian s =
     (let diffs = map m_diff (IterateCurrWindow s) in
      if diffs = [] then Inl (UndefinedBehaviour ''dereference of end()'')
      else Inr (sort diffs ! (length diffs div 2)))"

definition EndBootstrapPhase :: "nat \<Rightarrow> nat \<Rightarrow> CheckpointMgr \<Rightarrow> Exception + CheckpointMgr" where
  "EndBootstrapPhase addr syncState s =
     (if m_lastNode s \<noteq> None then Inl (Exception ''Checkpoint manager is already in runtime phase'')
      else if length (m_candidate s) \<noteq> 0 then Inl (Exception ''There are still headers in candidate window'')
      else if m_currWindow s = [] then Inl (UndefinedBehaviour ''back() of an empty vector'')
      else
        let s = s\<lparr>m_lastNode := Some (HeaderNode_new addr (last (m_currWindow s)) syncState)\<rparr>;
            s = s\<lparr>m_isLastNodeCandidate := False\<rparr>;
            s = s\<lparr>m_currWindow := butlast (m_currWindow s)\<rparr>
        in Inr s)"

definition GetLastNodePtr :: "CheckpointMgr \<Rightarrow> Exception + HeaderNode" where
  "GetLastNodePtr s =
     (case m_lastNode s of
        None \<Rightarrow> Inl (Exception ''No header has been added to this checkpoint'')
      | Some n \<Rightarrow> Inr n)"

definition GetLastHeader :: "CheckpointMgr \<Rightarrow> Exception + HeaderMgr" where
  "GetLastHeader s =
     (case m_lastNode s of
        Some n \<Rightarrow> Inr (m_header n)
      | None \<Rightarrow>
          if m_candidate s \<noteq> [] then Inr (last (m_candidate s))
          else if m_currWindow s \<noteq> [] then Inr (last (m_currWindow s))
          else Inl (Exception ''No header has been added to this checkpoint''))"

definition IsEmpty :: "CheckpointMgr \<Rightarrow> bool" where
  "IsEmpty s \<longleftrightarrow> m_lastNode s = None \<and> m_candidate s = [] \<and> m_currWindow s = []"

definition GetCheckpointBlkNumRange :: "CheckpointMgr \<Rightarrow> Exception + (BlockNumber \<times> BlockNumber)" where
  "GetCheckpointBlkNumRange s =
     (if m_currWindow s = [] then Inl (Exception ''There is no header in the checkpoint'')
      else let begin = m_blkNum (hd (m_currWindow s))
           in Inr (begin, begin + of_nat (m_chkptSize s) - 1))"

section \<open>DiffChecker\<close>

record PoWDiffChecker =
  pow_minDiffPercent :: u8
  pow_minDiff :: Difficulty
  pow_maxWaitTime :: u64
  pow_diffEstimator :: DAABase

text \<open>\<open>m_minDiff\<close> is not initialised by the constructor: its first value is the parameter
  \<open>garbage\<close>.\<close>

definition PoWDiffChecker_new :: "MonitorConfig \<Rightarrow> DAABase \<Rightarrow> Difficulty \<Rightarrow> PoWDiffChecker" where
  "PoWDiffChecker_new mConf est garbage = \<lparr>pow_minDiffPercent = minDiffPercent mConf,
     pow_minDiff = garbage, pow_maxWaitTime = maxWaitTime mConf, pow_diffEstimator = est\<rparr>"

definition PoW_OnChkptUpd :: "CheckpointMgr \<Rightarrow> PoWDiffChecker \<Rightarrow> Exception + PoWDiffChecker" where
  "PoW_OnChkptUpd chkpt dc =
     bindE (GetDiffMedian chkpt) (\<lambda>median.
     Inr (dc\<lparr>pow_minDiff := drop_bit 7 median * ucast (pow_minDiffPercent dc)\<rparr>))"

definition PoW_CheckDifficulty :: "PoWDiffChecker \<Rightarrow> HeaderMgr \<Rightarrow> HeaderMgr \<Rightarrow> bool" where
  "PoW_CheckDifficulty dc parentHdr currentHdr \<longleftrightarrow>
     m_trustedTime currentHdr > m_trustedTime parentHdr \<and>
     m_trustedTime currentHdr - m_trustedTime parentHdr \<le> pow_maxWaitTime dc \<and>
     m_diff currentHdr \<ge> pow_minDiff dc"

definition PoW_CheckEstDifficulty ::
  "NetworkConfig \<Rightarrow> PoWDiffChecker \<Rightarrow> HeaderMgr \<Rightarrow> u64 \<Rightarrow> Exception + bool" where
  "PoW_CheckEstDifficulty cfg dc parentHdr currentTime =
     (let estNextHdr = SetTime currentTime (SetNumber (m_blkNum parentHdr + 1) HeaderMgr_default) in
      bindE (DAABase_run (pow_diffEstimator dc) cfg parentHdr estNextHdr) (\<lambda>estDiff.
      let deltaTime = currentTime - m_trustedTime parentHdr in
      Inr (deltaTime \<le> pow_maxWaitTime dc \<and> estDiff \<ge> pow_minDiff dc)))"

text \<open>\<open>GenericDiffCheckerImpl\<close>: proof of work before the Paris fork, nothing to check after it.\<close>

definition DiffChecker_OnChkptUpd ::
  "NetworkConfig \<Rightarrow> CheckpointMgr \<Rightarrow> PoWDiffChecker \<Rightarrow> Exception + PoWDiffChecker" where
  "DiffChecker_OnChkptUpd cfg chkpt dc =
     bindE (GetCheckpointBlkNumRange chkpt) (\<lambda>blkNumRange.
     if IsBlockOfParis cfg (snd blkNumRange) then Inr dc else PoW_OnChkptUpd chkpt dc)"

definition DiffChecker_CheckDifficulty ::
  "NetworkConfig \<Rightarrow> PoWDiffChecker \<Rightarrow> HeaderMgr \<Rightarrow> HeaderMgr \<Rightarrow> bool" where
  "DiffChecker_CheckDifficulty cfg dc parentHdr currentHdr =
     (if IsBlockOfParis cfg (m_blkNum currentHdr) then True
      else PoW_CheckDifficulty dc parentHdr currentHdr)"

definition DiffChecker_CheckEstDifficulty ::
  "NetworkConfig \<Rightarrow> PoWDiffChecker \<Rightarrow> HeaderMgr \<Rightarrow> u64 \<Rightarrow> Exception + bool" where
  "DiffChecker_CheckEstDifficulty cfg dc parentHdr currentTime =
     (if IsBlockOfParis cfg (m_blkNum parentHdr + 1) then Inr True
      else PoW_CheckEstDifficulty cfg dc parentHdr currentTime)"

section \<open>The contract of the checkpoint\<close>

text \<open>The window of confirmed headers and the candidates: a header is added to the candidates,
  and a full candidate list becomes the window.\<close>

type_synonym checkpoint = "HeaderMgr list \<times> HeaderMgr list"

definition checkpoint_add :: "nat \<Rightarrow> HeaderMgr \<Rightarrow> checkpoint \<Rightarrow> bool \<times> checkpoint" where
  "checkpoint_add n h = (\<lambda>(window, candidates).
     let candidates = candidates @ [h] in
     if length candidates \<ge> n then (True, (candidates, [])) else (False, (window, candidates)))"

definition checkpoint_abs :: "CheckpointMgr \<Rightarrow> checkpoint" where
  "checkpoint_abs s =
     (IterateCurrWindow s,
      m_candidate s @ (case m_lastNode s of
        None \<Rightarrow> [] | Some n \<Rightarrow> if m_isLastNodeCandidate s then [m_header n] else []))"

text \<open>The shape the manager keeps: what is not a candidate node has an empty candidate list.\<close>

definition checkpoint_inv :: "CheckpointMgr \<Rightarrow> bool" where
  "checkpoint_inv s \<longleftrightarrow>
     (m_lastNode s \<noteq> None \<and> \<not> m_isLastNodeCandidate s \<longrightarrow> m_candidate s = []) \<and>
     (snd (checkpoint_abs s) = [] \<or> length (snd (checkpoint_abs s)) < m_chkptSize s) \<and>
     (fst (checkpoint_abs s) = [] \<or> length (fst (checkpoint_abs s)) = m_chkptSize s)"

lemma checkpoint_inv_new: "checkpoint_inv (CheckpointMgr_new mConf)"
  by (simp add: checkpoint_inv_def CheckpointMgr_new_def checkpoint_abs_def IterateCurrWindow_def)

lemma GetNumOfCandidates_abs: "GetNumOfCandidates s = length (snd (checkpoint_abs s))"
  by (auto simp: GetNumOfCandidates_def checkpoint_abs_def split: option.splits)

lemma AddNode_refines:
  assumes inv: "checkpoint_inv s" and n: "2 \<le> m_chkptSize s" and A: "AddNode node s = (c, s')"
  shows "checkpoint_add (m_chkptSize s) (m_header node) (checkpoint_abs s) = (c, checkpoint_abs s')"
    and "checkpoint_inv s'" and "m_chkptSize s' = m_chkptSize s"
    and "m_lastNode s' = Some node" and "m_isLastNodeCandidate s' \<longleftrightarrow> \<not> c"
proof (atomize (full), cases "m_lastNode s")
  case None
  with A inv n show "(checkpoint_add (m_chkptSize s) (m_header node) (checkpoint_abs s) = (c, checkpoint_abs s')
      \<and> checkpoint_inv s') \<and> m_chkptSize s' = m_chkptSize s \<and> m_lastNode s' = Some node \<and> m_isLastNodeCandidate s' = (\<not> c)"
    by (auto simp: AddNode_def checkpoint_add_def checkpoint_abs_def IterateCurrWindow_def checkpoint_inv_def
        GetNumOfCandidates_def Let_def split: if_splits)
next
  case (Some l)
  with A inv n show "(checkpoint_add (m_chkptSize s) (m_header node) (checkpoint_abs s) = (c, checkpoint_abs s')
      \<and> checkpoint_inv s') \<and> m_chkptSize s' = m_chkptSize s \<and> m_lastNode s' = Some node \<and> m_isLastNodeCandidate s' = (\<not> c)"
    by (auto simp: AddNode_def checkpoint_add_def checkpoint_abs_def IterateCurrWindow_def checkpoint_inv_def
        GetNumOfCandidates_def Let_def split: if_splits)
qed

lemma AddHeader_refines:
  assumes inv: "checkpoint_inv s" and n: "1 \<le> m_chkptSize s" and A: "AddHeader h s = Inr (c, s')"
  shows "checkpoint_add (m_chkptSize s) h (checkpoint_abs s) = (c, checkpoint_abs s')"
    and "checkpoint_inv s'" and "m_chkptSize s' = m_chkptSize s" and "m_lastNode s' = None"
  using A inv n
  by (auto simp: AddHeader_def checkpoint_add_def checkpoint_abs_def IterateCurrWindow_def checkpoint_inv_def
      GetNumOfCandidates_def Let_def split: if_splits)

lemma length_pred: "xs \<noteq> [] \<Longrightarrow> length xs = n \<Longrightarrow> Suc (n - Suc 0) = n"
  by (cases xs) auto

lemma EndBootstrapPhase_refines:
  assumes inv: "checkpoint_inv s" and A: "EndBootstrapPhase a y s = Inr s'"
  shows "checkpoint_abs s' = checkpoint_abs s" and "checkpoint_inv s'" and "m_chkptSize s' = m_chkptSize s"
    and "\<exists>h. m_lastNode s' = Some (HeaderNode_new a h y) \<and> GetLastHeader s = Inr h"
  using A inv length_pred [of "m_currWindow s" "m_chkptSize s"]
  by (auto simp: EndBootstrapPhase_def checkpoint_abs_def IterateCurrWindow_def checkpoint_inv_def
      HeaderNode_new_def GetLastHeader_def Let_def split: if_splits)

section \<open>The median and the difficulty bound\<close>

lemma checkpoint_add_window:
  assumes "checkpoint_add n h (w, cs) = (c, (w', cs'))" and "length cs < n" and "w = [] \<or> length w = n"
  shows "(w' = [] \<or> length w' = n) \<and> length cs' < n \<and> (c \<longrightarrow> length w' = n \<and> cs' = [])"
  using assms by (auto simp: checkpoint_add_def Let_def split: if_splits)

text \<open>The value is an order statistic: it is a difficulty of the window, at most half of the
  window is below it and at least half of it, counting it, is not.\<close>

lemma sorted_count_below:
  "sorted (xs :: 'a::linorder list) \<Longrightarrow> i < length xs \<Longrightarrow> length (filter (\<lambda>x. x < xs ! i) xs) \<le> i"
proof -
  assume s: "sorted xs" and i: "i < length xs"
  have "filter (\<lambda>x. x < xs ! i) (drop i xs) = []"
    using s i by (auto simp: filter_empty_conv in_set_conv_nth sorted_iff_nth_mono not_less)
  then have "length (filter (\<lambda>x. x < xs ! i) xs) = length (filter (\<lambda>x. x < xs ! i) (take i xs))"
    by (metis append_Nil2 append_take_drop_id filter_append)
  also have "\<dots> \<le> i" by (rule order_trans [OF length_filter_le]) simp
  finally show ?thesis .
qed

lemma sorted_count_above:
  "sorted (xs :: 'a::linorder list) \<Longrightarrow> i < length xs \<Longrightarrow> length (filter (\<lambda>x. x > xs ! i) xs) \<le> length xs - 1 - i"
proof -
  assume s: "sorted xs" and i: "i < length xs"
  have "filter (\<lambda>x. x > xs ! i) (take (Suc i) xs) = []"
    using s i by (auto simp: filter_empty_conv in_set_conv_nth sorted_iff_nth_mono not_less less_Suc_eq_le)
  then have "length (filter (\<lambda>x. x > xs ! i) xs) = length (filter (\<lambda>x. x > xs ! i) (drop (Suc i) xs))"
    by (metis append_Nil append_take_drop_id filter_append)
  also have "\<dots> \<le> length (drop (Suc i) xs)" by (rule length_filter_le)
  finally show ?thesis by simp
qed

lemma GetDiffMedian_order:
  assumes "GetDiffMedian s = Inr d"
  defines "ds \<equiv> map m_diff (IterateCurrWindow s)"
  shows "d \<in> set ds" and "2 * length (filter (\<lambda>x. x < d) ds) \<le> length ds"
    and "2 * length (filter (\<lambda>x. x > d) ds) < length ds"
proof -
  have ne: "ds \<noteq> []" and d: "d = sort ds ! (length ds div 2)"
    using assms by (auto simp: GetDiffMedian_def Let_def split: if_splits)
  let ?i = "length ds div 2"
  have i: "?i < length (sort ds)" using ne by (simp add: div_less_iff_less_mult)
  have l: "0 < length ds" using ne by simp
  have f: "length (filter P (sort ds)) = length (filter P ds)" for P
    by (metis mset_filter mset_sort size_mset)
  show "d \<in> set ds" unfolding d using nth_mem [OF i] by simp
  show "2 * length (filter (\<lambda>x. x < d) ds) \<le> length ds"
    using sorted_count_below [OF sorted_sort i] unfolding f d by linarith
  show "2 * length (filter (\<lambda>x. x > d) ds) < length ds"
    using sorted_count_above [OF sorted_sort i] l unfolding f d length_sort by linarith
qed

lemma min_diff_bound:
  assumes "unat (p :: u8) \<le> 128"
  shows "unat (drop_bit 7 median * ucast p :: u64) = unat (median :: u64) div 128 * unat p"
    and "drop_bit 7 median * ucast p \<le> (median :: u64)"
proof -
  have m: "unat (drop_bit 7 median) = unat median div 128"
  proof -
    have "unat (drop_bit 7 median) = unat median div 2 ^ 7"
      unfolding unat_drop_bit_eq by (rule drop_bit_eq_div)
    then show ?thesis by simp
  qed
  have "unat p < 2 ^ 64" using assms by simp
  then have p: "unat (ucast p :: u64) = unat p"
    by (simp add: unsigned_ucast_eq take_bit_nat_eq_self)
  have le: "unat median div 128 * unat p \<le> unat median"
    using mult_le_mono2 [OF assms, of "unat median div 128"] div_times_less_eq_dividend [of "unat median" 128]
    by linarith
  show e: "unat (drop_bit 7 median * ucast p :: u64) = unat median div 128 * unat p"
  proof -
    have "unat median < 2 ^ 64" using unsigned_less [of median] by simp
    with le have "unat median div 128 * unat p < 2 ^ 64" by (rule le_less_trans)
    then show ?thesis by (subst unat_mult_no_wrap) (simp_all only: m p)
  qed
  show "drop_bit 7 median * ucast p \<le> median"
    unfolding word_le_nat_alt e by (rule le)
qed

section \<open>Properties\<close>

text \<open>C23. Adding a node implements the checkpoint contract: the candidates and the window the
  manager represents change as the contract says, the completion callback is called exactly when a
  window is full, and the representation invariant is kept (checkpoint size at least 2).\<close>

theorem AddNode_implements_checkpoint:
  assumes "checkpoint_inv s" and "2 \<le> m_chkptSize s" and "AddNode node s = (c, s')"
  shows "checkpoint_add (m_chkptSize s) (m_header node) (checkpoint_abs s) = (c, checkpoint_abs s')
     \<and> checkpoint_inv s' \<and> m_chkptSize s' = m_chkptSize s \<and> m_lastNode s' = Some node"
  using AddNode_refines [OF assms] by blast

theorem AddNode_implements_checkpoint_witness:
  "\<exists>c s'. AddNode (HeaderNode_new 2 HeaderMgr_default 0)
        \<lparr>m_chkptSize = 2, m_currWindow = [HeaderMgr_default],
         m_candidate = [], m_lastNode = Some (HeaderNode_new 1 HeaderMgr_default 0), m_isLastNodeCandidate = False\<rparr> = (c, s')
     \<and> checkpoint_inv s' \<and> \<not> c"
proof -
  let ?s = "\<lparr>m_chkptSize = 2, m_currWindow = [HeaderMgr_default],
         m_candidate = [], m_lastNode = Some (HeaderNode_new 1 HeaderMgr_default 0), m_isLastNodeCandidate = False\<rparr>"
  obtain c s' where A: "AddNode (HeaderNode_new 2 HeaderMgr_default 0) ?s = (c, s')" by fastforce
  have "checkpoint_inv ?s"
    by (simp add: checkpoint_inv_def checkpoint_abs_def IterateCurrWindow_def)
  from AddNode_implements_checkpoint [OF this _ A] have "checkpoint_inv s'" by simp
  moreover have "\<not> c" using A by (simp add: AddNode_def GetNumOfCandidates_def)
  ultimately show ?thesis using A by blast
qed

text \<open>A bootstrap run: headers added one after the other.\<close>

fun AddHeaders :: "HeaderMgr list \<Rightarrow> CheckpointMgr \<Rightarrow> Exception + CheckpointMgr" where
  "AddHeaders [] s = Inr s"
| "AddHeaders (h # hs) s = bindE (AddHeader h s) (\<lambda>(c, s). AddHeaders hs s)"

lemma AddHeaders_snoc: "AddHeaders (hs @ [h]) s = bindE (AddHeaders hs s) (\<lambda>s. bindE (AddHeader h s) (\<lambda>(c, s). Inr s))"
  by (induction hs arbitrary: s) (auto simp: bindE_def split: sum.splits)

lemma AddHeader_ok:
  "m_lastNode s = None \<Longrightarrow> \<exists>c s'. AddHeader h s = Inr (c, s')"
  by (auto simp: AddHeader_def Let_def)

text \<open>During bootstrap the current window is always the last full group of \<open>n\<close> headers, in
  order, and the candidates are the headers after it: no header is lost, kept twice or reordered.\<close>

theorem bootstrap_window:
  assumes "1 \<le> unat (checkpointSize conf)"
  defines "n \<equiv> unat (checkpointSize conf)"
  shows "\<exists>s. AddHeaders hs (CheckpointMgr_new conf) = Inr s
     \<and> checkpoint_abs s =
        (if length hs < n then [] else take n (drop ((length hs div n - 1) * n) hs),
         drop (length hs div n * n) hs)
     \<and> checkpoint_inv s \<and> m_lastNode s = None \<and> m_chkptSize s = n"
proof (induction hs rule: rev_induct)
  case Nil
  then show ?case
    using checkpoint_inv_new [of conf]
    by (simp add: CheckpointMgr_new_def checkpoint_abs_def IterateCurrWindow_def n_def)
next
  case (snoc h hs)
  then obtain s where s: "AddHeaders hs (CheckpointMgr_new conf) = Inr s" "checkpoint_inv s" "m_lastNode s = None"
      "m_chkptSize s = n" and
    a: "checkpoint_abs s = (if length hs < n then [] else take n (drop ((length hs div n - 1) * n) hs),
         drop (length hs div n * n) hs)" by blast
  have n: "0 < n" using assms by simp
  obtain c s' where A: "AddHeader h s = Inr (c, s')" using AddHeader_ok [OF s(3)] by blast
  note R = AddHeader_refines [OF s(2) _ A] s(4) n
  let ?q = "length hs div n"
  have hs: "length hs = ?q * n + length hs mod n" by simp
  have m: "length hs mod n < n" using n by simp
  have add: "checkpoint_add n h (checkpoint_abs s) = (c, checkpoint_abs s')" using R by simp
  have abs: "checkpoint_abs s' =
      (if length (hs @ [h]) < n then [] else take n (drop ((length (hs @ [h]) div n - 1) * n) (hs @ [h])),
       drop (length (hs @ [h]) div n * n) (hs @ [h]))"
  proof (cases "Suc (length hs mod n) = n")
    case True
    have d: "Suc (length hs) div n = Suc ?q" using True by (simp add: div_Suc mod_Suc)
    have "length hs + 1 = ?q * n + n" using True hs by linarith
    then have l: "length hs + 1 = Suc ?q * n" by simp
    have "length (drop (?q * n) hs) = length hs mod n" by (simp add: minus_div_mult_eq_mod)
    then have "checkpoint_abs s' = (drop (?q * n) hs @ [h], [])"
      using add True unfolding a by (simp add: checkpoint_add_def Let_def)
    moreover have "take n (drop (?q * n) (hs @ [h])) = drop (?q * n) hs @ [h]"
      using l by (simp add: take_all_iff)
    moreover have "\<not> length (hs @ [h]) < n" using l by simp
    ultimately show ?thesis using d l by simp
  next
    case False
    then have lt: "Suc (length hs mod n) < n" using m by simp
    then have d: "Suc (length hs) div n = ?q" by (simp add: div_Suc mod_Suc)
    have "length (drop (?q * n) hs) = length hs mod n" by (simp add: minus_div_mult_eq_mod)
    then have s': "checkpoint_abs s' = (fst (checkpoint_abs s), drop (?q * n) hs @ [h])"
      using add lt unfolding a by (simp add: checkpoint_add_def Let_def)
    have q: "length hs < n \<longleftrightarrow> ?q = 0" "Suc (length hs) < n \<longleftrightarrow> ?q = 0"
      using n d by (simp_all add: div_eq_0_iff flip: d) (metis d div_eq_0_iff not_gr_zero)+
    have "take n (drop ((?q - 1) * n) (hs @ [h])) = take n (drop ((?q - 1) * n) hs)" if "?q \<noteq> 0"
    proof -
      have "(?q - 1) * n + n \<le> length hs" using that hs by (cases ?q) simp_all
      then show ?thesis by simp
    qed
    then show ?thesis unfolding s' a using q d hs by simp
  qed
  with R s A show ?case by (auto simp: AddHeaders_snoc)
qed

theorem bootstrap_window_witness:
  "\<exists>s. AddHeaders [HeaderMgr_default, HeaderMgr_default, SetNumber 2 HeaderMgr_default]
        (CheckpointMgr_new \<lparr>SVN = 1, chainName = ''c'', checkpointSize = 2, minDiffPercent = 64,
          maxWaitTime = 60, syncMaxWaitTime = 60\<rparr>) = Inr s
     \<and> checkpoint_abs s = ([HeaderMgr_default, HeaderMgr_default], [SetNumber 2 HeaderMgr_default])"
  using bootstrap_window [of "\<lparr>SVN = 1, chainName = ''c'', checkpointSize = 2, minDiffPercent = 64,
          maxWaitTime = 60, syncMaxWaitTime = 60\<rparr>" "[HeaderMgr_default, HeaderMgr_default, SetNumber 2 HeaderMgr_default]"]
  by (simp del: AddHeaders.simps) blast

text \<open>The difficulty bound the checker derives from a checkpoint: the median it uses is a
  difficulty of the window with at most half of the window below it and less than half above it,
  and the bound is \<open>median div 128 * minDiffPercent\<close> without wrap-around, never above the median.\<close>

theorem PoW_bound:
  assumes "PoW_OnChkptUpd chkpt dc = Inr dc'" and "unat (pow_minDiffPercent dc) \<le> 128"
  defines "ds \<equiv> map m_diff (IterateCurrWindow chkpt)"
  shows "\<exists>d\<in>set ds. 2 * length (filter (\<lambda>x. x < d) ds) \<le> length ds
      \<and> 2 * length (filter (\<lambda>x. x > d) ds) < length ds
      \<and> unat (pow_minDiff dc') = unat d div 128 * unat (pow_minDiffPercent dc) \<and> pow_minDiff dc' \<le> d"
proof -
  obtain d where d: "GetDiffMedian chkpt = Inr d"
    and dc': "dc' = dc\<lparr>pow_minDiff := drop_bit 7 d * ucast (pow_minDiffPercent dc)\<rparr>"
    using assms(1) by (auto simp: PoW_OnChkptUpd_def sum_simps)
  show ?thesis
    using GetDiffMedian_order [OF d] min_diff_bound [OF assms(2), of d]
    unfolding ds_def dc' by (intro bexI [of _ d]) simp_all
qed

theorem PoW_bound_witness:
  "\<exists>dc'. PoW_OnChkptUpd \<lparr>m_chkptSize = 2, m_currWindow = [HeaderMgr_default\<lparr>m_diff := 1280\<rparr>, HeaderMgr_default\<lparr>m_diff := 2560\<rparr>],
         m_candidate = [], m_lastNode = None, m_isLastNodeCandidate = False\<rparr>
       \<lparr>pow_minDiffPercent = 64, pow_minDiff = 0, pow_maxWaitTime = 60, pow_diffEstimator = EthashDAAEstImpl\<rparr> = Inr dc'
     \<and> pow_minDiff dc' \<in> {640, 1280}"
proof -
  let ?s = "\<lparr>m_chkptSize = 2, m_currWindow = [HeaderMgr_default\<lparr>m_diff := 1280\<rparr>, HeaderMgr_default\<lparr>m_diff := 2560\<rparr>],
         m_candidate = [], m_lastNode = None, m_isLastNodeCandidate = False\<rparr>"
  let ?dc = "\<lparr>pow_minDiffPercent = 64, pow_minDiff = 0, pow_maxWaitTime = 60, pow_diffEstimator = EthashDAAEstImpl\<rparr>"
  obtain dc' where u: "PoW_OnChkptUpd ?s ?dc = Inr dc'"
    by (auto simp: PoW_OnChkptUpd_def GetDiffMedian_def IterateCurrWindow_def)
  from PoW_bound [OF this] have "unat (pow_minDiff dc') = 640 \<or> unat (pow_minDiff dc') = 1280"
    by (auto simp: IterateCurrWindow_def)
  then have "pow_minDiff dc' = 640 \<or> pow_minDiff dc' = 1280"
    by (auto simp: word_unat_eq_iff)
  with u show ?thesis by blast
qed

end
