(* ===== verification/EthMonitor.thy ===== *)
theory EthMonitor
  imports EthEvents EthCheckpoint
begin

text \<open>
  \<open>EclipseMonitor/EclipseMonitorBase.hpp\<close> and \<open>Eth/EclipseMonitor.hpp\<close>: the monitor, which takes
  headers one at a time through the bootstrap, sync and runtime phases. Its tree of unconfirmed
  headers hangs off the last node of the checkpoint manager. The look-up maps hold raw pointers,
  which are node addresses; a pointer whose node is not in the tree any more dangles, and following
  it is \<open>UndefinedBehaviour\<close>. Addresses of nodes are not given out twice.

  What the code reads from the platform during a call is the argument \<open>Platform\<close>. The validator
  and the two header callbacks, which the constructor stores, are the record \<open>MonitorEnv\<close>; the callbacks
  may change the monitor, as the client's callback does with the bootstrap plan. An exception ends
  the call, and what it leaves of the object is not modelled.
\<close>

section \<open>State\<close>

datatype Phases = BootstrapI | BootstrapII | Sync | Runtime

record MonitorSecState =
  sec_SVN :: u32
  genesisHash :: bytes
  checkpointIter :: u64
  checkpointHash :: bytes
  checkpointNum :: bytes

record ('c, 's) EclipseMonitor =
  m_mConfig :: MonitorConfig
  m_sessionID :: bytes
  m_mSecState :: MonitorSecState
  m_phase :: Phases
  m_checkpoint :: CheckpointMgr
  m_diffChecker :: PoWDiffChecker
  events :: "('c, 's) event_state"
  m_syncMsgMgr :: SyncMsgMgr
  m_offlineNodes :: "(bytes \<times> nat) list"
  m_activeNodes :: "(bytes \<times> nat) list"
  m_startBlockNum :: BlockNumber
  m_bootstrapIEndBlkNum :: BlockNumber
  m_planedSyncBlkNum :: BlockNumber
  next_addr :: nat

record 'm MonitorEnv =
  env_net :: NetworkConfig
  env_daa :: DAABase
  env_alloc :: "nat list \<Rightarrow> nat"
  m_onHeaderValidated :: "HeaderMgr \<Rightarrow> 'm \<Rightarrow> Exception + 'm"
  m_onHeaderConfirmed :: "HeaderMgr \<Rightarrow> 'm \<Rightarrow> Exception + 'm"

record Platform =
  header_now :: TrustedTimestamp
  sync_now :: TrustedTimestamp
  sync_random :: bytes
  maint_now :: TrustedTimestamp

definition EclipseMonitor_new :: "('c, 's) EclipseMonitor MonitorEnv \<Rightarrow> MonitorConfig \<Rightarrow> bytes \<Rightarrow> DAABase
    \<Rightarrow> Difficulty \<Rightarrow> Platform \<Rightarrow> bytes \<Rightarrow> bytes \<Rightarrow> 's \<Rightarrow> Exception + ('c, 's) EclipseMonitor" where
  "EclipseMonitor_new env conf sessionID est garbage plat syncContractAddr syncEventSign cl =
     bindE (SyncMsgMgr_new (env_alloc env) sessionID (syncMaxWaitTime conf) (sync_now plat) (sync_random plat)
              syncContractAddr syncEventSign [] (Some [])) (\<lambda>(sm, heap, mgr).
     Inr \<lparr>m_mConfig = conf, m_sessionID = sessionID,
          m_mSecState = \<lparr>sec_SVN = 0, genesisHash = [], checkpointIter = 0, checkpointHash = [], checkpointNum = []\<rparr>,
          m_phase = BootstrapI, m_checkpoint = CheckpointMgr_new conf,
          m_diffChecker = PoWDiffChecker_new conf est garbage,
          events = \<lparr>listeners = mgr, sync_states = heap, client = cl\<rparr>, m_syncMsgMgr = sm,
          m_offlineNodes = [], m_activeNodes = [],
          m_startBlockNum = 0, m_bootstrapIEndBlkNum = - 1, m_planedSyncBlkNum = - 1, next_addr = 0\<rparr>)"

text \<open>The configuration for Ethereum.\<close>

definition GetEclipseMonitorSVN :: u32 where
  "GetEclipseMonitorSVN = push_bit 16 0x01 OR 0x0000"

definition BuildEthereumMonitorConfig :: MonitorConfig where
  "BuildEthereumMonitorConfig = \<lparr>SVN = GetEclipseMonitorSVN, chainName = ''Ethereum'', checkpointSize = 430,
     minDiffPercent = 103, maxWaitTime = 400, syncMaxWaitTime = 13\<rparr>"

section \<open>The bootstrap plan and the phases\<close>

definition CalcBootstrapIEndBlkNum :: "u64 \<Rightarrow> u64 \<Rightarrow> u64 \<Rightarrow> Exception + u64" where
  "CalcBootstrapIEndBlkNum latestBlk startBlk chkptSize =
     (if chkptSize = 0 then Inl (UndefinedBehaviour ''division by zero'')
      else
        let numOfBlocks = latestBlk - startBlk + 1;
            numOfInterval = numOfBlocks div chkptSize;
            numOfInterval = (if numOfInterval > 2 then numOfInterval - 2 else 0);
            endBlkNum = startBlk + numOfInterval * chkptSize
        in Inr (endBlkNum - 1))"

definition RefreshBootstrapPlan :: "BlockNumber \<Rightarrow> BlockNumber option \<Rightarrow> ('c, 's) EclipseMonitor
    \<Rightarrow> Exception + ('c, 's) EclipseMonitor" where
  "RefreshBootstrapPlan latestBlkNum startBlkNum m =
     (let m = (case startBlkNum of Some b \<Rightarrow> m\<lparr>m_startBlockNum := b\<rparr> | None \<Rightarrow> m);
          chkptSize = checkpointSize (m_mConfig m)
      in case m_phase m of
           BootstrapI \<Rightarrow>
             bindE (CalcBootstrapIEndBlkNum latestBlkNum (m_startBlockNum m) chkptSize) (\<lambda>b.
             Inr (m\<lparr>m_bootstrapIEndBlkNum := b, m_planedSyncBlkNum := latestBlkNum\<rparr>))
         | BootstrapII \<Rightarrow> Inr (m\<lparr>m_planedSyncBlkNum := latestBlkNum\<rparr>)
         | _ \<Rightarrow> Inr m)"

definition EndBootstrapI :: "('c, 's) EclipseMonitor \<Rightarrow> Exception + ('c, 's) EclipseMonitor" where
  "EndBootstrapI m =
     (let syncState = m_lastSyncState (m_syncMsgMgr m) in
      bindE (EndBootstrapPhase (next_addr m) syncState (m_checkpoint m)) (\<lambda>chk.
      let m = m\<lparr>m_checkpoint := chk, next_addr := next_addr m + 1\<rparr> in
      bindE (GetLastNodePtr (m_checkpoint m)) (\<lambda>lastNode.
      let m = m\<lparr>m_offlineNodes := map_assign (m_hash (m_header lastNode)) (node_addr lastNode) (m_offlineNodes m)\<rparr>
      in Inr (m\<lparr>m_phase := BootstrapII\<rparr>))))"

text \<open>\<open>EndBootstrapII\<close> and \<open>EndSync\<close> of the base class; nothing calls the second.\<close>

definition EndBootstrapII :: "('c, 's) EclipseMonitor \<Rightarrow> ('c, 's) EclipseMonitor" where
  "EndBootstrapII m = m\<lparr>m_phase := Sync\<rparr>"

definition EndSync :: "('c, 's) EclipseMonitor \<Rightarrow> ('c, 's) EclipseMonitor" where
  "EndSync m = m\<lparr>m_phase := Runtime\<rparr>"

definition RefreshSyncMsg :: "('c, 's) EclipseMonitor MonitorEnv \<Rightarrow> Platform \<Rightarrow> ('c, 's) EclipseMonitor
    \<Rightarrow> Exception + ('c, 's) EclipseMonitor" where
  "RefreshSyncMsg env plat m =
     (let m = EndBootstrapII m in
      bindE (NewSyncState (env_alloc env) (sync_now plat) (sync_random plat) (m_syncMsgMgr m)
               (sync_states (events m)) (Some (listeners (events m)))) (\<lambda>(sm, heap, mgr).
      Inr (m\<lparr>m_syncMsgMgr := sm, events := (events m)\<lparr>listeners := mgr, sync_states := heap\<rparr>\<rparr>)))"

definition PhaseChangeCheck :: "('c, 's) EclipseMonitor MonitorEnv \<Rightarrow> Platform \<Rightarrow> BlockNumber
    \<Rightarrow> ('c, 's) EclipseMonitor \<Rightarrow> Exception + ('c, 's) EclipseMonitor" where
  "PhaseChangeCheck env plat currBlkNum m =
     (case m_phase m of
        BootstrapI \<Rightarrow> if currBlkNum = m_bootstrapIEndBlkNum m then EndBootstrapI m else Inr m
      | BootstrapII \<Rightarrow> if currBlkNum = m_planedSyncBlkNum m then RefreshSyncMsg env plat m else Inr m
      | _ \<Rightarrow> Inr m)"

section \<open>Headers during the first bootstrap phase\<close>

fun confirm_headers :: "('c, 's) EclipseMonitor MonitorEnv \<Rightarrow> HeaderMgr list \<Rightarrow> ('c, 's) EclipseMonitor
    \<Rightarrow> Exception + ('c, 's) EclipseMonitor" where
  "confirm_headers env [] m = Inr m"
| "confirm_headers env (h # hs) m = bindE (m_onHeaderConfirmed env h m) (confirm_headers env hs)"

definition OnCheckpointComplete :: "('c, 's) EclipseMonitor MonitorEnv \<Rightarrow> ('c, 's) EclipseMonitor
    \<Rightarrow> Exception + ('c, 's) EclipseMonitor" where
  "OnCheckpointComplete env m =
     bindE (GetLastHeader (m_checkpoint m)) (\<lambda>lastHeader.
     let sec = m_mSecState m;
         sec = sec\<lparr>checkpointHash := m_hash lastHeader\<rparr>;
         sec = sec\<lparr>checkpointNum := hdr_Number (m_rawHeader lastHeader)\<rparr>;
         sec = sec\<lparr>checkpointIter := checkpointIter sec + 1\<rparr>;
         m = m\<lparr>m_mSecState := sec\<rparr>
     in bindE (DiffChecker_OnChkptUpd (env_net env) (m_checkpoint m) (m_diffChecker m)) (\<lambda>dc.
        let m = m\<lparr>m_diffChecker := dc\<rparr>
        in confirm_headers env (IterateCurrWindow (m_checkpoint m)) m))"

definition check_genesis :: "('c, 's) EclipseMonitor MonitorEnv \<Rightarrow> HeaderMgr \<Rightarrow> ('c, 's) EclipseMonitor
    \<Rightarrow> Exception + ('c, 's) EclipseMonitor" where
  "check_genesis env header m =
     (if IsEmpty (m_checkpoint m) then Inr (m\<lparr>m_mSecState := (m_mSecState m)\<lparr>genesisHash := m_hash header\<rparr>\<rparr>)
      else
        bindE (GetLastHeader (m_checkpoint m)) (\<lambda>lastHeader.
        bindE (CommonValidate (env_net env) (env_daa env) lastHeader False header False) (\<lambda>ok.
        if \<not> ok then Inl (Exception ''The given block failed common validation'') else Inr m)))"

definition UpdateOnBootstrapI :: "('c, 's) EclipseMonitor MonitorEnv \<Rightarrow> bytes \<Rightarrow> ('c, 's) EclipseMonitor
    \<Rightarrow> Exception + (BlockNumber \<times> ('c, 's) EclipseMonitor)" where
  "UpdateOnBootstrapI env hdrBinary m =
     bindE (HeaderMgr_new hdrBinary 0) (\<lambda>header.
     bindE (check_genesis env header m) (\<lambda>m.
     bindE (m_onHeaderValidated env header m) (\<lambda>m.
     bindE (AddHeader header (m_checkpoint m)) (\<lambda>(complete, chk).
     let m = m\<lparr>m_checkpoint := chk\<rparr> in
     bindE (if complete then OnCheckpointComplete env m else Inr m) (\<lambda>m.
     Inr (m_blkNum header, m))))))"

section \<open>Headers during the other phases\<close>

abbreviation dangling :: "Exception + 'a" where
  "dangling \<equiv> Inl (UndefinedBehaviour ''use of a freed node'')"

definition UpdateOnRuntimeAddChild :: "('c, 's) EclipseMonitor MonitorEnv \<Rightarrow> nat \<Rightarrow> bool \<Rightarrow> HeaderMgr
    \<Rightarrow> ('c, 's) EclipseMonitor \<Rightarrow> Exception + ('c, 's) EclipseMonitor" where
  "UpdateOnRuntimeAddChild env parentNode isParentNodeLive header m =
     (let syncState = m_lastSyncState (m_syncMsgMgr m);
          isNewNodeLive = m_isSynced (sync_states (events m) ! syncState)
      in case Option.bind (m_lastNode (m_checkpoint m)) (find_node parentNode) of
           None \<Rightarrow> dangling
         | Some parent \<Rightarrow>
             bindE (CommonValidate (env_net env) (env_daa env) (m_header parent) isParentNodeLive header isNewNodeLive)
               (\<lambda>validateRes.
             let diffRes = (if validateRes
                   then DiffChecker_CheckDifficulty (env_net env) (m_diffChecker m) (m_header parent) header
                   else False)
             in if validateRes \<and> diffRes then
                  bindE (m_onHeaderValidated env header m) (\<lambda>m.
                  let node = next_addr m;
                      hashObj = m_hash header
                  in case Option.bind (m_lastNode (m_checkpoint m))
                            (AddChild parentNode (HeaderNode_new node header syncState)) of
                       None \<Rightarrow> dangling
                     | Some root \<Rightarrow>
                         let m = m\<lparr>m_checkpoint := (m_checkpoint m)\<lparr>m_lastNode := Some root\<rparr>, next_addr := node + 1\<rparr>
                         in if isNewNodeLive
                            then Inr (m\<lparr>m_activeNodes := map_emplace hashObj node (m_activeNodes m)\<rparr>)
                            else Inr (m\<lparr>m_offlineNodes := map_emplace hashObj node (m_offlineNodes m)\<rparr>))
                else Inr m))"

definition UpdateOnRuntime :: "('c, 's) EclipseMonitor MonitorEnv \<Rightarrow> Platform \<Rightarrow> bytes \<Rightarrow> ('c, 's) EclipseMonitor
    \<Rightarrow> Exception + (BlockNumber \<times> ('c, 's) EclipseMonitor)" where
  "UpdateOnRuntime env plat hdrBinary m =
     bindE (HeaderMgr_new hdrBinary (header_now plat)) (\<lambda>header.
     let blkNum = m_blkNum header;
         parentHash = ParentHash (m_rawHeader header)
     in case (if length (m_offlineNodes m) > 0 then map_of (m_offlineNodes m) parentHash else None) of
          Some p \<Rightarrow> bindE (UpdateOnRuntimeAddChild env p False header m) (\<lambda>m. Inr (blkNum, m))
        | None \<Rightarrow>
            (case map_of (m_activeNodes m) parentHash of
               Some p \<Rightarrow> bindE (UpdateOnRuntimeAddChild env p True header m) (\<lambda>m. Inr (blkNum, m))
             | None \<Rightarrow> Inr (blkNum, m)))"

text \<open>The loop over the active nodes erases the current element from the map it iterates over, and
  then advances the iterator the erasure has invalidated.\<close>

fun expire_loop :: "('c, 's) EclipseMonitor MonitorEnv \<Rightarrow> TrustedTimestamp \<Rightarrow> (bytes \<times> nat) list
    \<Rightarrow> ('c, 's) EclipseMonitor \<Rightarrow> Exception + ('c, 's) EclipseMonitor" where
  "expire_loop env now [] m = Inr m"
| "expire_loop env now ((h, p) # ns) m =
     (case Option.bind (m_lastNode (m_checkpoint m)) (find_node p) of
        None \<Rightarrow> dangling
      | Some node \<Rightarrow>
          bindE (DiffChecker_CheckEstDifficulty (env_net env) (m_diffChecker m) (m_header node) now) (\<lambda>ok.
          if \<not> ok then Inl (UndefinedBehaviour ''increment of an erased iterator'')
          else expire_loop env now ns m))"

definition confirm_child :: "('c, 's) EclipseMonitor MonitorEnv \<Rightarrow> HeaderNode \<Rightarrow> HeaderNode
    \<Rightarrow> ('c, 's) EclipseMonitor \<Rightarrow> Exception + ('c, 's) EclipseMonitor" where
  "confirm_child env lastNode confirmedChild m =
     (let lastHash = m_hash (m_header lastNode);
          childHash = m_hash (m_header confirmedChild);
          m = (if length (m_offlineNodes m) > 0
               then m\<lparr>m_offlineNodes := map_erase childHash (map_erase lastHash (m_offlineNodes m))\<rparr> else m);
          m = m\<lparr>m_activeNodes := map_erase childHash (map_erase lastHash (m_activeNodes m))\<rparr>;
          (complete, chk) = AddNode confirmedChild (m_checkpoint m);
          m = m\<lparr>m_checkpoint := chk\<rparr>
      in if complete then OnCheckpointComplete env m else Inr m)"

definition RuntimeMaintenance :: "('c, 's) EclipseMonitor MonitorEnv \<Rightarrow> Platform \<Rightarrow> ('c, 's) EclipseMonitor
    \<Rightarrow> Exception + ('c, 's) EclipseMonitor" where
  "RuntimeMaintenance env plat m =
     bindE (GetLastNodePtr (m_checkpoint m)) (\<lambda>lastNode.
     let (confirmedChild, lastNode) = ReleaseChildHasNDesc (unat (checkpointSize (m_mConfig m))) lastNode;
         m = m\<lparr>m_checkpoint := (m_checkpoint m)\<lparr>m_lastNode := Some lastNode\<rparr>\<rparr>
     in bindE (case confirmedChild of None \<Rightarrow> Inr m | Some child \<Rightarrow> confirm_child env lastNode child m) (\<lambda>m.
        expire_loop env (maint_now plat) (m_activeNodes m) m))"

definition Update :: "('c, 's) EclipseMonitor MonitorEnv \<Rightarrow> Platform \<Rightarrow> bytes \<Rightarrow> ('c, 's) EclipseMonitor
    \<Rightarrow> Exception + ('c, 's) EclipseMonitor" where
  "Update env plat hdrBinary m =
     bindE (if m_phase m = BootstrapI then UpdateOnBootstrapI env hdrBinary m
            else UpdateOnRuntime env plat hdrBinary m) (\<lambda>(blkNum, m).
     bindE (PhaseChangeCheck env plat blkNum m) (\<lambda>m.
     if m_phase m \<noteq> BootstrapI then RuntimeMaintenance env plat m else Inr m))"


section \<open>Links between headers\<close>

text \<open>A header continues another one when it names its number and its hash.\<close>

definition header_link :: "HeaderMgr \<Rightarrow> HeaderMgr \<Rightarrow> bool" where
  "header_link p c \<longleftrightarrow> m_blkNum c = m_blkNum p + 1 \<and> ParentHash (m_rawHeader c) = m_hash p"

lemma CommonValidate_link: "CommonValidate cfg daa p l c l' = Inr True \<Longrightarrow> header_link p c"
  by (simp add: CommonValidate_accept header_link_def)

text \<open>Every node of a tree continues its parent.\<close>

fun tree_linked :: "HeaderNode \<Rightarrow> bool" where
  "tree_linked (HeaderNode a h s cs) \<longleftrightarrow> (\<forall>e\<in>set cs. header_link h (m_header (snd e)) \<and> tree_linked (snd e))"

lemma tree_linked_child:
  "tree_linked x \<Longrightarrow> (k, c) \<in> set (m_children x) \<Longrightarrow> header_link (m_header x) (m_header c) \<and> tree_linked c"
  by (cases x) fastforce

lemma AddChild_linked:
  "AddChild p c x = Some y \<Longrightarrow> tree_linked x \<Longrightarrow> tree_linked c \<Longrightarrow>
     (\<And>q. find_node p x = Some q \<Longrightarrow> header_link (m_header q) (m_header c)) \<Longrightarrow> tree_linked y"
  "AddChild_list p c es = Some es' \<Longrightarrow> \<forall>e\<in>set es. header_link h (m_header (snd e)) \<and> tree_linked (snd e) \<Longrightarrow>
     tree_linked c \<Longrightarrow> (\<And>q. find_node_list p es = Some q \<Longrightarrow> header_link (m_header q) (m_header c)) \<Longrightarrow>
     \<forall>e\<in>set es'. header_link h (m_header (snd e)) \<and> tree_linked (snd e)"
proof (induction p c x and p c es arbitrary: y and es' h rule: AddChild_AddChild_list.induct)
  case (1 p c a h s cs)
  show ?case
  proof (cases "a = p")
    case True
    with 1 show ?thesis by auto
  next
    case False
    then obtain es' where es: "AddChild_list p c cs = Some es'" "y = HeaderNode a h s es'"
      using "1.prems"(1) by (auto split: option.splits)
    have "\<forall>e\<in>set es'. header_link h (m_header (snd e)) \<and> tree_linked (snd e)"
      by (rule "1.IH" [OF False es(1)]) (use "1.prems" False in simp_all)
    then show ?thesis using es(2) by simp
  qed
next
  case (3 p c e es)
  show ?case
  proof (cases "AddChild p c (snd e)")
    case None
    then have f: "find_node p (snd e) = None" using AddChild_iff(1) find_node_iff(1) by metis
    obtain es2 where es2: "AddChild_list p c es = Some es2" "es' = e # es2"
      using "3.prems"(1) None by (auto split: option.splits)
    have "\<forall>e\<in>set es2. header_link h (m_header (snd e)) \<and> tree_linked (snd e)"
      by (rule "3.IH"(2) [OF None es2(1)]) (use "3.prems" f in simp_all)
    then show ?thesis using es2(2) "3.prems"(2) by simp
  next
    case (Some x)
    then have "tree_linked x" using 3 by (auto split: option.splits)
    then show ?thesis using 3(3,4) Some AddChild_root [OF Some] by auto
  qed
qed simp

lemma ReleaseChild_linked:
  assumes "ReleaseChildHasNDesc n x = (r, y)" and "tree_linked x"
  shows "tree_linked y \<and> m_header y = m_header x \<and> node_addr y = node_addr x
    \<and> (\<forall>c. r = Some c \<longrightarrow> header_link (m_header x) (m_header c) \<and> tree_linked c)"
proof (cases "release_child n (m_children x)")
  case None
  then show ?thesis using assms by (auto simp: ReleaseChildHasNDesc_def)
next
  case (Some p)
  obtain c es where p: "p = (c, es)" by force
  obtain k where "(k, c) \<in> set (m_children x)" "set es \<subseteq> set (m_children x)"
    using release_child_set Some p by blast
  moreover have "y = HeaderNode (node_addr x) (m_header x) (m_syncState x) es" "r = Some c"
    using assms(1) Some p by (auto simp: ReleaseChildHasNDesc_def)
  moreover have "\<forall>e\<in>set (m_children x). header_link (m_header x) (m_header (snd e)) \<and> tree_linked (snd e)"
    using assms(2) by (cases x) simp
  ultimately show ?thesis using tree_linked_child [OF assms(2), of k c] by auto
qed

section \<open>The confirmed chain\<close>

text \<open>\<open>log\<close> lists the headers confirmed so far, the window is its end, and with the candidates it is
  one chain.\<close>

definition chain_ok :: "HeaderMgr list \<Rightarrow> checkpoint \<Rightarrow> bool" where
  "chain_ok log c \<longleftrightarrow> suffix (fst c) log \<and> (fst c = [] \<longrightarrow> log = []) \<and> successively header_link (log @ snd c)"

lemma chain_add:
  assumes "chain_ok log c" and "checkpoint_add n h c = (b, c')"
    and "log @ snd c \<noteq> [] \<Longrightarrow> header_link (last (log @ snd c)) h"
  shows "chain_ok (log @ (if b then fst c' else [])) c'" and "last ((log @ (if b then fst c' else [])) @ snd c') = h"
    and "(log @ (if b then fst c' else [])) @ snd c' \<noteq> []"
proof -
  obtain w cs where c: "c = (w, cs)" by force
  have s: "successively header_link (log @ cs)" using assms(1) by (simp add: chain_ok_def c)
  have "log @ cs = [] \<or> header_link (last (log @ cs)) h" using assms(3) c by auto
  with s have "successively header_link ((log @ cs) @ [h])"
    by (subst successively_append_iff) (simp only: successively.simps list.sel, blast)
  then have "successively header_link (log @ cs @ [h])" by simp
  moreover have "(b, c') = (True, (cs @ [h], [])) \<or> (b, c') = (False, (w, cs @ [h]))"
    using assms(2) by (auto simp: checkpoint_add_def c Let_def split: if_splits)
  ultimately show "chain_ok (log @ (if b then fst c' else [])) c'"
    and "last ((log @ (if b then fst c' else [])) @ snd c') = h"
    and "(log @ (if b then fst c' else [])) @ snd c' \<noteq> []"
    using assms(1) by (auto simp: chain_ok_def c suffix_def)
qed

lemma GetLastHeader_chain:
  assumes "GetLastHeader s = Inr h" and "m_lastNode s = None" and "chain_ok log (checkpoint_abs s)"
  shows "log @ snd (checkpoint_abs s) \<noteq> [] \<and> h = last (log @ snd (checkpoint_abs s))"
  using assms
  by (auto simp: GetLastHeader_def checkpoint_abs_def IterateCurrWindow_def chain_ok_def suffix_def last_append
      split: if_splits)

lemma IsEmpty_chain: "IsEmpty s \<Longrightarrow> chain_ok log (checkpoint_abs s) \<Longrightarrow> log @ snd (checkpoint_abs s) = []"
  by (auto simp: IsEmpty_def chain_ok_def checkpoint_abs_def IterateCurrWindow_def)

text \<open>The security state that the monitor reports: the number of checkpoints, the hash and the number of the last
  confirmed header, and the hash of the first header.\<close>

definition sec_ok :: "nat \<Rightarrow> MonitorSecState \<Rightarrow> HeaderMgr list \<Rightarrow> HeaderMgr list \<Rightarrow> bool" where
  "sec_ok n sec log cs \<longleftrightarrow>
     n dvd length log \<and> checkpointIter sec = of_nat (length log div n) \<and>
     (log \<noteq> [] \<longrightarrow> checkpointHash sec = m_hash (last log) \<and> checkpointNum sec = hdr_Number (m_rawHeader (last log))) \<and>
     (log @ cs \<noteq> [] \<longrightarrow> genesisHash sec = m_hash (hd (log @ cs)))"

lemma sec_ok_step:
  assumes "sec_ok n sec log cs" and "checkpoint_add n h (w, cs) = (b, c')" and "0 < n" and "length cs < n"
    and "checkpointIter sec' = checkpointIter sec + (if b then 1 else 0)"
    and "genesisHash sec' = (if log @ cs = [] then m_hash h else genesisHash sec)"
    and "b \<Longrightarrow> checkpointHash sec' = m_hash h \<and> checkpointNum sec' = hdr_Number (m_rawHeader h)"
    and "\<not> b \<Longrightarrow> checkpointHash sec' = checkpointHash sec \<and> checkpointNum sec' = checkpointNum sec"
  shows "sec_ok n sec' (log @ (if b then fst c' else [])) (snd c')"
proof (cases b)
  case True
  then have c: "c' = (cs @ [h], [])" and l: "length (cs @ [h]) = n"
    using assms(2,4) by (auto simp: checkpoint_add_def Let_def split: if_splits)
  have "length (log @ cs @ [h]) = length log + n" using l by simp
  then have "n dvd length (log @ cs @ [h])" and "length (log @ cs @ [h]) div n = Suc (length log div n)"
    using assms(1,3) by (simp_all add: sec_ok_def)
  then show ?thesis using assms(1,5,6,7) True c by (auto simp: sec_ok_def hd_append simp del: length_append)
next
  case False
  then have "c' = (w, cs @ [h])" using assms(2) by (auto simp: checkpoint_add_def Let_def split: if_splits)
  then show ?thesis using assms(1,5,6,8) False by (auto simp: sec_ok_def hd_append)
qed

definition monitor_inv :: "('c, 's) EclipseMonitor \<Rightarrow> HeaderMgr list \<Rightarrow> bool" where
  "monitor_inv m log \<longleftrightarrow>
     2 \<le> m_chkptSize (m_checkpoint m) \<and> checkpoint_inv (m_checkpoint m) \<and> chain_ok log (checkpoint_abs (m_checkpoint m)) \<and>
     m_chkptSize (m_checkpoint m) = unat (checkpointSize (m_mConfig m)) \<and>
     sec_ok (m_chkptSize (m_checkpoint m)) (m_mSecState m) log (snd (checkpoint_abs (m_checkpoint m))) \<and>
     (m_phase m = BootstrapI \<longrightarrow> m_lastNode (m_checkpoint m) = None) \<and>
     (\<forall>root. m_lastNode (m_checkpoint m) = Some root \<longrightarrow> tree_linked root \<and>
        log @ snd (checkpoint_abs (m_checkpoint m)) \<noteq> [] \<and> last (log @ snd (checkpoint_abs (m_checkpoint m))) = m_header root)"

text \<open>The headers one call confirms: the new window, when the call completed a checkpoint.\<close>

definition newly_confirmed :: "('c, 's) EclipseMonitor \<Rightarrow> ('c, 's) EclipseMonitor \<Rightarrow> HeaderMgr list" where
  "newly_confirmed m m' =
     (if checkpointIter (m_mSecState m') \<noteq> checkpointIter (m_mSecState m) then IterateCurrWindow (m_checkpoint m') else [])"

lemma monitor_inv_sec:
  "monitor_inv m log \<Longrightarrow>
     sec_ok (unat (checkpointSize (m_mConfig m))) (m_mSecState m) log (snd (checkpoint_abs (m_checkpoint m)))"
  by (auto simp: monitor_inv_def)

lemma monitor_inv_checkpoint:
  "m_checkpoint m' = m_checkpoint m \<Longrightarrow> m_mConfig m' = m_mConfig m \<Longrightarrow> m_mSecState m' = m_mSecState m \<Longrightarrow>
     m_phase m' = m_phase m \<or> m_phase m' \<noteq> BootstrapI \<Longrightarrow>
     monitor_inv m log \<Longrightarrow> monitor_inv m' log"
  by (auto simp: monitor_inv_def)

section \<open>What the monitor expects of the callbacks\<close>

text \<open>A callback may change the listeners, the sync states, the client and the bootstrap plan. The rest
  of the monitor is its frame.\<close>

definition frame :: "('c, 's) EclipseMonitor \<Rightarrow> _" where
  "frame m = (m_mConfig m, m_mSecState m, m_phase m, m_checkpoint m, m_diffChecker m,
     m_offlineNodes m, m_activeNodes m, next_addr m, m_syncMsgMgr m)"

lemma frameD:
  assumes "frame m' = frame m"
  shows "m_mConfig m' = m_mConfig m" "m_mSecState m' = m_mSecState m" "m_phase m' = m_phase m"
    "m_checkpoint m' = m_checkpoint m" "m_diffChecker m' = m_diffChecker m"
    "m_offlineNodes m' = m_offlineNodes m" "m_activeNodes m' = m_activeNodes m"
    "next_addr m' = next_addr m" "m_syncMsgMgr m' = m_syncMsgMgr m"
  using assms by (simp_all add: frame_def)

locale monitor_client =
  fixes env :: "('c, 's) EclipseMonitor MonitorEnv"
  assumes validated_frame: "m_onHeaderValidated env h m = Inr m' \<Longrightarrow> frame m' = frame m"
    and confirmed_frame: "m_onHeaderConfirmed env h m = Inr m' \<Longrightarrow> frame m' = frame m"
begin

lemma confirm_headers_frame: "confirm_headers env hs m = Inr m' \<Longrightarrow> frame m' = frame m"
  by (induction hs arbitrary: m) (auto simp: sum_simps dest: confirmed_frame)

lemma OnCheckpointComplete_frame:
  assumes "OnCheckpointComplete env m = Inr m'"
  shows "m_checkpoint m' = m_checkpoint m" and "m_phase m' = m_phase m" and "m_mConfig m' = m_mConfig m"
    and "checkpointIter (m_mSecState m') = checkpointIter (m_mSecState m) + 1"
    and "m_activeNodes m' = m_activeNodes m" and "m_offlineNodes m' = m_offlineNodes m"
    and "next_addr m' = next_addr m" and "genesisHash (m_mSecState m') = genesisHash (m_mSecState m)"
    and "\<exists>h. GetLastHeader (m_checkpoint m) = Inr h \<and> checkpointHash (m_mSecState m') = m_hash h
      \<and> checkpointNum (m_mSecState m') = hdr_Number (m_rawHeader h)"
proof -
  obtain lh dc where lh: "GetLastHeader (m_checkpoint m) = Inr lh" and c: "confirm_headers env (IterateCurrWindow (m_checkpoint m)) (m\<lparr>m_mSecState :=
      (m_mSecState m)\<lparr>checkpointHash := m_hash lh, checkpointNum := hdr_Number (m_rawHeader lh),
        checkpointIter := checkpointIter (m_mSecState m) + 1\<rparr>, m_diffChecker := dc\<rparr>) = Inr m'"
    using assms by (auto simp: OnCheckpointComplete_def Let_def sum_simps)
  note f = frameD [OF confirm_headers_frame [OF c]]
  show "m_checkpoint m' = m_checkpoint m" "m_phase m' = m_phase m" "m_mConfig m' = m_mConfig m"
    "checkpointIter (m_mSecState m') = checkpointIter (m_mSecState m) + 1"
    "m_activeNodes m' = m_activeNodes m" "m_offlineNodes m' = m_offlineNodes m" "next_addr m' = next_addr m"
    "genesisHash (m_mSecState m') = genesisHash (m_mSecState m)"
    using f by simp_all
  show "\<exists>h. GetLastHeader (m_checkpoint m) = Inr h \<and> checkpointHash (m_mSecState m') = m_hash h
      \<and> checkpointNum (m_mSecState m') = hdr_Number (m_rawHeader h)"
    using f lh by simp
qed

lemma check_genesis_frame:
  assumes "check_genesis env h m = Inr m'"
  shows "m_checkpoint m' = m_checkpoint m" and "checkpointIter (m_mSecState m') = checkpointIter (m_mSecState m)"
    and "m_phase m' = m_phase m" and "m_mConfig m' = m_mConfig m"
    and "IsEmpty (m_checkpoint m) \<or> (\<exists>l. GetLastHeader (m_checkpoint m) = Inr l \<and> header_link l h)"
    and "checkpointHash (m_mSecState m') = checkpointHash (m_mSecState m)"
    and "checkpointNum (m_mSecState m') = checkpointNum (m_mSecState m)"
    and "genesisHash (m_mSecState m') = (if IsEmpty (m_checkpoint m) then m_hash h else genesisHash (m_mSecState m))"
  using assms by (auto simp: check_genesis_def sum_simps split: if_splits dest: CommonValidate_link)

lemma UpdateOnBootstrapI_inv:
  assumes inv: "monitor_inv m log" and U: "UpdateOnBootstrapI env b m = Inr (n, m')"
  shows "monitor_inv m' (log @ newly_confirmed m m')" and "m_phase m' = m_phase m" and "m_mConfig m' = m_mConfig m"
proof -
  let ?s = "m_checkpoint m"
  obtain h m1 m2 c chk where m1: "check_genesis env h m = Inr m1" and m2: "m_onHeaderValidated env h m1 = Inr m2"
    and chk: "AddHeader h (m_checkpoint m2) = Inr (c, chk)"
    and m3: "(if c then OnCheckpointComplete env (m2\<lparr>m_checkpoint := chk\<rparr>) else Inr (m2\<lparr>m_checkpoint := chk\<rparr>)) = Inr m'"
    using U by (auto simp: UpdateOnBootstrapI_def sum_simps Let_def)
  note g = check_genesis_frame [OF m1] and f = frameD [OF validated_frame [OF m2]]
  have s: "AddHeader h ?s = Inr (c, chk)" using chk f g by simp
  have none: "m_lastNode ?s = None" using s by (simp add: AddHeader_def split: if_splits)
  have i: "2 \<le> m_chkptSize ?s" "checkpoint_inv ?s" "chain_ok log (checkpoint_abs ?s)"
    using inv by (simp_all add: monitor_inv_def)
  note r = AddHeader_refines [OF i(2) _ s]
  have add: "checkpoint_add (m_chkptSize ?s) h (checkpoint_abs ?s) = (c, checkpoint_abs chk)"
    and chk_ok: "checkpoint_inv chk" "m_chkptSize chk = m_chkptSize ?s" "m_lastNode chk = None"
    using r i(1) by simp_all
  have "log @ snd (checkpoint_abs ?s) \<noteq> [] \<Longrightarrow> header_link (last (log @ snd (checkpoint_abs ?s))) h"
    using g(5) IsEmpty_chain [OF _ i(3)] GetLastHeader_chain [OF _ none i(3)] by auto
  note ch = chain_add [OF i(3) add this]
  note chain = ch(1)
  note o = OnCheckpointComplete_frame [of "m2\<lparr>m_checkpoint := chk\<rparr>" m']
  have m': "m_checkpoint m' = chk" "m_phase m' = m_phase m" "m_mConfig m' = m_mConfig m"
    "checkpointIter (m_mSecState m') = checkpointIter (m_mSecState m) + (if c then 1 else 0)"
    using m3 f g o(1-4) by (auto split: if_splits)
  have "IsEmpty ?s \<longleftrightarrow> log @ snd (checkpoint_abs ?s) = []"
    using IsEmpty_chain [OF _ i(3)] none i(3) by (auto simp: IsEmpty_def chain_ok_def checkpoint_abs_def IterateCurrWindow_def)
  then have gen: "genesisHash (m_mSecState m')
      = (if log @ snd (checkpoint_abs ?s) = [] then m_hash h else genesisHash (m_mSecState m))"
    using m3 f(2) g(8) o(8) by (auto split: if_splits)
  have fin: "checkpointHash (m_mSecState m') = m_hash h \<and> checkpointNum (m_mSecState m') = hdr_Number (m_rawHeader h)" if full: c
  proof -
    obtain h' where "GetLastHeader chk = Inr h'" "checkpointHash (m_mSecState m') = m_hash h'"
      "checkpointNum (m_mSecState m') = hdr_Number (m_rawHeader h')" using full m3 o(9) by auto
    with GetLastHeader_chain [OF _ chk_ok(3) chain] ch(2) show ?thesis by auto
  qed
  have more: "checkpointHash (m_mSecState m') = checkpointHash (m_mSecState m)
      \<and> checkpointNum (m_mSecState m') = checkpointNum (m_mSecState m)" if "\<not> c"
    using that m3 f(2) g(6,7) by auto
  have cs: "length (snd (checkpoint_abs ?s)) < m_chkptSize ?s" using i(1,2) by (auto simp: checkpoint_inv_def)
  have "sec_ok (m_chkptSize ?s) (m_mSecState m) log (snd (checkpoint_abs ?s))" using inv by (auto simp: monitor_inv_def)
  then have sec: "sec_ok (m_chkptSize ?s) (m_mSecState m') (log @ (if c then fst (checkpoint_abs chk) else [])) (snd (checkpoint_abs chk))"
    by (rule sec_ok_step [where h = h and w = "fst (checkpoint_abs ?s)"])
      (use add cs i(1) m'(4) gen fin more in simp_all)
  have "newly_confirmed m m' = (if c then fst (checkpoint_abs chk) else [])"
    using m'(1,4) by (simp add: newly_confirmed_def checkpoint_abs_def)
  then show "monitor_inv m' (log @ newly_confirmed m m')"
    using chain sec chk_ok i(1) m'(1,3) inv by (simp add: monitor_inv_def)
  show "m_phase m' = m_phase m" "m_mConfig m' = m_mConfig m" using m' by simp_all
qed

lemma EndBootstrapI_inv:
  assumes inv: "monitor_inv m log" and E: "EndBootstrapI m = Inr m'"
  shows "monitor_inv m' log" and "m_phase m' = BootstrapII" and "m_mSecState m' = m_mSecState m"
    and "m_mConfig m' = m_mConfig m" and "IterateCurrWindow (m_checkpoint m') = IterateCurrWindow (m_checkpoint m)"
    and "\<exists>root. m_lastNode (m_checkpoint m') = Some root \<and> m_children root = []"
proof -
  let ?s = "m_checkpoint m"
  let ?y = "m_lastSyncState (m_syncMsgMgr m)"
  obtain chk where chk: "EndBootstrapPhase (next_addr m) ?y ?s = Inr chk" and m': "m_checkpoint m' = chk"
    "m_phase m' = BootstrapII" "m_mSecState m' = m_mSecState m" "m_mConfig m' = m_mConfig m"
    using E by (auto simp: EndBootstrapI_def Let_def sum_simps)
  have i: "2 \<le> m_chkptSize ?s" "checkpoint_inv ?s" "chain_ok log (checkpoint_abs ?s)"
    using inv by (simp_all add: monitor_inv_def)
  note r = EndBootstrapPhase_refines [OF i(2) chk]
  have none: "m_lastNode ?s = None" using chk by (simp add: EndBootstrapPhase_def split: if_splits)
  obtain h where h: "m_lastNode chk = Some (HeaderNode_new (next_addr m) h ?y)" "GetLastHeader ?s = Inr h"
    using r(4) by blast
  then show "monitor_inv m' log"
    using GetLastHeader_chain [OF h(2) none i(3)] r i m' inv monitor_inv_sec [OF inv]
    by (simp add: monitor_inv_def HeaderNode_new_def)
  show "IterateCurrWindow (m_checkpoint m') = IterateCurrWindow ?s"
    using r(1) m'(1) by (simp add: checkpoint_abs_def)
  show "\<exists>root. m_lastNode (m_checkpoint m') = Some root \<and> m_children root = []"
    using h(1) m'(1) by (simp add: HeaderNode_new_def)
  show "m_phase m' = BootstrapII" "m_mSecState m' = m_mSecState m" "m_mConfig m' = m_mConfig m" using m' by simp_all
qed

lemma checkpoint_replace_root:
  assumes "m_lastNode s = Some root" and "m_header root' = m_header root"
  shows "checkpoint_abs (s\<lparr>m_lastNode := Some root'\<rparr>) = checkpoint_abs s"
    and "checkpoint_inv (s\<lparr>m_lastNode := Some root'\<rparr>) = checkpoint_inv s"
    and "IterateCurrWindow (s\<lparr>m_lastNode := Some root'\<rparr>) = IterateCurrWindow s"
  using assms by (auto simp: checkpoint_abs_def checkpoint_inv_def IterateCurrWindow_def)

lemma AddChild_step_inv:
  assumes inv: "monitor_inv m log" and U: "UpdateOnRuntimeAddChild env p live h m = Inr m'"
  shows "monitor_inv m' log \<and> m_phase m' = m_phase m \<and> m_mSecState m' = m_mSecState m \<and> m_mConfig m' = m_mConfig m"
proof -
  let ?s = "m_checkpoint m"
  obtain root parent where root: "m_lastNode ?s = Some root" "find_node p root = Some parent"
    using U by (auto simp: UpdateOnRuntimeAddChild_def Let_def bind_eq_Some_conv split: option.splits)
  obtain v where v: "CommonValidate (env_net env) (env_daa env) (m_header parent) live h
      (m_isSynced (sync_states (events m) ! m_lastSyncState (m_syncMsgMgr m))) = Inr v"
    using U root by (auto simp: UpdateOnRuntimeAddChild_def Let_def sum_simps split: option.splits)
  show "monitor_inv m' log \<and> m_phase m' = m_phase m \<and> m_mSecState m' = m_mSecState m \<and> m_mConfig m' = m_mConfig m"
  proof (cases "v \<and> DiffChecker_CheckDifficulty (env_net env) (m_diffChecker m) (m_header parent) h")
    case False
    then have "m' = m" using U root v by (auto simp: UpdateOnRuntimeAddChild_def Let_def split: if_splits)
    with inv show ?thesis by simp
  next
    case True
    then have link: "header_link (m_header parent) h" using v CommonValidate_link by auto
    obtain m1 where m1: "m_onHeaderValidated env h m = Inr m1"
      using U root v True by (auto simp: UpdateOnRuntimeAddChild_def Let_def sum_simps)
    note f = frameD [OF validated_frame [OF m1]]
    let ?node = "HeaderNode_new (next_addr m) h (m_lastSyncState (m_syncMsgMgr m))"
    obtain root' where root': "AddChild p ?node root = Some root'"
      and m': "m_checkpoint m' = ?s\<lparr>m_lastNode := Some root'\<rparr>" "m_phase m' = m_phase m1"
        "m_mSecState m' = m_mSecState m1" "m_mConfig m' = m_mConfig m1"
      using U root v True m1 f
      by (auto simp: UpdateOnRuntimeAddChild_def Let_def split: if_splits option.splits)
    have same: "m_header root' = m_header root" using AddChild_root [OF root'] by simp
    have "tree_linked root'"
      by (rule AddChild_linked(1) [OF root'])
         (use inv root link in \<open>auto simp: monitor_inv_def HeaderNode_new_def\<close>)
    then show ?thesis
      using inv monitor_inv_sec [OF inv] root m' f same checkpoint_replace_root [OF root(1) same] by (simp add: monitor_inv_def)
  qed
qed

lemma UpdateOnRuntime_inv:
  assumes inv: "monitor_inv m log" and U: "UpdateOnRuntime env plat b m = Inr (n, m')"
  shows "monitor_inv m' log \<and> m_phase m' = m_phase m \<and> m_mSecState m' = m_mSecState m \<and> m_mConfig m' = m_mConfig m"
proof -
  have "m' = m \<or> (\<exists>p live h. UpdateOnRuntimeAddChild env p live h m = Inr m')"
    using U by (auto simp: UpdateOnRuntime_def Let_def sum_simps split: option.splits if_splits)
  then show ?thesis using inv AddChild_step_inv by blast
qed

lemma expire_loop_same: "expire_loop env now ns m = Inr m' \<Longrightarrow> m' = m"
  by (induction env now ns m rule: expire_loop.induct) (auto simp: sum_simps split: option.splits if_splits)

lemma confirm_child_inv:
  assumes inv: "monitor_inv m log" and root: "m_lastNode (m_checkpoint m) = Some root"
    and child: "header_link (m_header root) (m_header child)" "tree_linked child"
    and C: "confirm_child env l child m = Inr m'"
  shows "monitor_inv m' (log @ newly_confirmed m m') \<and> m_phase m' = m_phase m \<and> m_mConfig m' = m_mConfig m"
proof -
  let ?s = "m_checkpoint m"
  obtain c chk where A: "AddNode child ?s = (c, chk)" by force
  obtain off act where m': "(if c then OnCheckpointComplete env (m\<lparr>m_offlineNodes := off, m_activeNodes := act, m_checkpoint := chk\<rparr>)
      else Inr (m\<lparr>m_offlineNodes := off, m_activeNodes := act, m_checkpoint := chk\<rparr>)) = Inr m'"
  proof (cases "m_offlineNodes m")
    case Nil
    then have e: "m\<lparr>m_offlineNodes := [], m_activeNodes := a, m_checkpoint := chk\<rparr>
        = m\<lparr>m_activeNodes := a, m_checkpoint := chk\<rparr>" for a by (cases m) simp
    show ?thesis using C A Nil
      by (intro that [where off = "[]"
          and act = "map_erase (m_hash (m_header child)) (map_erase (m_hash (m_header l)) (m_activeNodes m))"])
        (cases c; simp add: confirm_child_def Let_def e)
  next
    case (Cons x xs)
    then show ?thesis using C A that by (cases c) (simp_all add: confirm_child_def Let_def)
  qed
  have i: "2 \<le> m_chkptSize ?s" "checkpoint_inv ?s" "chain_ok log (checkpoint_abs ?s)"
    using inv by (simp_all add: monitor_inv_def)
  note r = AddNode_refines [OF i(2,1) A]
  have "header_link (last (log @ snd (checkpoint_abs ?s))) (m_header child)"
    using inv root child by (simp add: monitor_inv_def)
  note chain = chain_add [OF i(3) r(1) this]
  note o = OnCheckpointComplete_frame [of "m\<lparr>m_offlineNodes := off, m_activeNodes := act, m_checkpoint := chk\<rparr>" m']
  have e: "m_checkpoint m' = chk" "m_phase m' = m_phase m" "m_mConfig m' = m_mConfig m"
    "checkpointIter (m_mSecState m') = checkpointIter (m_mSecState m) + (if c then 1 else 0)"
    "genesisHash (m_mSecState m') = genesisHash (m_mSecState m)"
    using m' o(1-4,8) by (auto split: if_splits)
  have "GetLastHeader chk = Inr (m_header child)" using r(4) by (simp add: GetLastHeader_def)
  then have fin: "checkpointHash (m_mSecState m') = m_hash (m_header child)
      \<and> checkpointNum (m_mSecState m') = hdr_Number (m_rawHeader (m_header child))" if c
    using that m' o(9) by simp
  have more: "checkpointHash (m_mSecState m') = checkpointHash (m_mSecState m)
      \<and> checkpointNum (m_mSecState m') = checkpointNum (m_mSecState m)" if "\<not> c"
    using that m' by auto
  have cs: "length (snd (checkpoint_abs ?s)) < m_chkptSize ?s" using i(1,2) by (auto simp: checkpoint_inv_def)
  have ne: "log @ snd (checkpoint_abs ?s) \<noteq> []"
    and "sec_ok (m_chkptSize ?s) (m_mSecState m) log (snd (checkpoint_abs ?s))"
    using inv root by (auto simp: monitor_inv_def)
  from this(2) have sec: "sec_ok (m_chkptSize ?s) (m_mSecState m') (log @ (if c then fst (checkpoint_abs chk) else [])) (snd (checkpoint_abs chk))"
    by (rule sec_ok_step [where h = "m_header child" and w = "fst (checkpoint_abs ?s)"])
      (use r(1) cs i(1) e(4,5) fin more ne in auto)
  have "newly_confirmed m m' = (if c then fst (checkpoint_abs chk) else [])"
    using e(1,4) by (simp add: newly_confirmed_def checkpoint_abs_def)
  then show ?thesis
    using chain sec r i(1) child(2) e inv root unfolding monitor_inv_def by simp
qed

lemma RuntimeMaintenance_inv:
  assumes inv: "monitor_inv m log" and R: "RuntimeMaintenance env plat m = Inr m'"
  shows "monitor_inv m' (log @ newly_confirmed m m') \<and> m_phase m' = m_phase m \<and> m_mConfig m' = m_mConfig m"
    and "m_lastNode (m_checkpoint m) = Some root \<Longrightarrow> m_children root = [] \<Longrightarrow>
      m_mSecState m' = m_mSecState m \<and> IterateCurrWindow (m_checkpoint m') = IterateCurrWindow (m_checkpoint m)"
proof -
  let ?n = "unat (checkpointSize (m_mConfig m))"
  obtain rt where rt: "m_lastNode (m_checkpoint m) = Some rt"
    using R by (auto simp: RuntimeMaintenance_def GetLastNodePtr_def sum_simps split: option.splits)
  obtain c rest where rel: "ReleaseChildHasNDesc ?n rt = (c, rest)" by force
  define m1 where "m1 = m\<lparr>m_checkpoint := (m_checkpoint m)\<lparr>m_lastNode := Some rest\<rparr>\<rparr>"
  obtain m2 where m2: "(case c of None \<Rightarrow> Inr m1 | Some child \<Rightarrow> confirm_child env rest child m1) = Inr m2"
    and e2: "expire_loop env (maint_now plat) (m_activeNodes m2) m2 = Inr m'"
    using R rt rel unfolding RuntimeMaintenance_def GetLastNodePtr_def m1_def Let_def
    by (auto simp: bindE_eq_Inr)
  then have m': "(case c of None \<Rightarrow> Inr m1 | Some child \<Rightarrow> confirm_child env rest child m1) = Inr m'"
    using expire_loop_same by blast
  have "tree_linked rt" using inv rt by (simp add: monitor_inv_def)
  note l = ReleaseChild_linked [OF rel this]
  then have same: "m_header rest = m_header rt" by simp
  note ab = checkpoint_replace_root [OF rt same]
  have inv1: "monitor_inv m1 log" using inv monitor_inv_sec [OF inv] rt ab l by (simp add: monitor_inv_def m1_def)
  show "monitor_inv m' (log @ newly_confirmed m m') \<and> m_phase m' = m_phase m \<and> m_mConfig m' = m_mConfig m"
  proof (cases c)
    case None
    then have "m' = m1" using m' by simp
    then show ?thesis using inv1 by (simp add: newly_confirmed_def) (simp add: m1_def)
  next
    case (Some child)
    then have "monitor_inv m' (log @ newly_confirmed m1 m') \<and> m_phase m' = m_phase m1 \<and> m_mConfig m' = m_mConfig m1"
      using m' l by (intro confirm_child_inv [OF inv1, of rest child rest]) (simp_all add: m1_def)
    then show ?thesis by (simp add: newly_confirmed_def m1_def)
  qed
  assume "m_lastNode (m_checkpoint m) = Some root" "m_children root = []"
  then have "c = None" using rel rt by (auto simp: ReleaseChildHasNDesc_def)
  then have "m' = m1" using m' by simp
  then show "m_mSecState m' = m_mSecState m \<and> IterateCurrWindow (m_checkpoint m') = IterateCurrWindow (m_checkpoint m)"
    using ab by (simp add: m1_def)
qed

lemma RefreshSyncMsg_frame:
  assumes "RefreshSyncMsg env plat m = Inr m'"
  shows "m_checkpoint m' = m_checkpoint m" "m_mSecState m' = m_mSecState m" "m_mConfig m' = m_mConfig m" "m_phase m' = Sync"
  using assms by (auto simp: RefreshSyncMsg_def EndBootstrapII_def Let_def sum_simps)

lemma PhaseChangeCheck_inv:
  assumes inv: "monitor_inv m log" and P: "PhaseChangeCheck env plat n m = Inr m'"
  shows "monitor_inv m' log" and "m_mSecState m' = m_mSecState m" and "m_mConfig m' = m_mConfig m"
    and "IterateCurrWindow (m_checkpoint m') = IterateCurrWindow (m_checkpoint m)"
    and "m_phase m = BootstrapI \<Longrightarrow> m_phase m' = BootstrapI \<and> m' = m \<or> m_phase m' = BootstrapII \<and>
      (\<exists>root. m_lastNode (m_checkpoint m') = Some root \<and> m_children root = [])"
    and "m_phase m = BootstrapII \<Longrightarrow> m_phase m' = BootstrapII \<or> m_phase m' = Sync"
    and "m_phase m = Sync \<or> m_phase m = Runtime \<Longrightarrow> m_phase m' = m_phase m"
proof -
  consider (same) "m' = m" | (one) "m_phase m = BootstrapI" "EndBootstrapI m = Inr m'"
    | (two) "m_phase m = BootstrapII" "RefreshSyncMsg env plat m = Inr m'"
  proof -
    have "m' = m \<or> m_phase m = BootstrapI \<and> EndBootstrapI m = Inr m'
        \<or> m_phase m = BootstrapII \<and> RefreshSyncMsg env plat m = Inr m'"
      using P by (cases "m_phase m"; cases "n = m_bootstrapIEndBlkNum m"; cases "n = m_planedSyncBlkNum m")
        (simp_all add: PhaseChangeCheck_def)
    with that show thesis by blast
  qed
  then have "monitor_inv m' log \<and> m_mSecState m' = m_mSecState m \<and> m_mConfig m' = m_mConfig m
    \<and> IterateCurrWindow (m_checkpoint m') = IterateCurrWindow (m_checkpoint m)
    \<and> (m_phase m = BootstrapI \<longrightarrow> m_phase m' = BootstrapI \<and> m' = m \<or> m_phase m' = BootstrapII \<and>
      (\<exists>root. m_lastNode (m_checkpoint m') = Some root \<and> m_children root = []))
    \<and> (m_phase m = BootstrapII \<longrightarrow> m_phase m' = BootstrapII \<or> m_phase m' = Sync)
    \<and> (m_phase m = Sync \<or> m_phase m = Runtime \<longrightarrow> m_phase m' = m_phase m)"
  proof cases
    case same
    with inv show ?thesis by (cases "m_phase m") simp_all
  next
    case one
    with EndBootstrapI_inv [OF inv, of m'] show ?thesis by simp
  next
    case two
    note f = RefreshSyncMsg_frame [OF two(2)]
    have "monitor_inv m' log" by (rule monitor_inv_checkpoint [OF f(1,3,2) _ inv]) (simp add: f(4))
    with f two(1) show ?thesis by simp
  qed
  then show "monitor_inv m' log" and "m_mSecState m' = m_mSecState m" and "m_mConfig m' = m_mConfig m"
    and "IterateCurrWindow (m_checkpoint m') = IterateCurrWindow (m_checkpoint m)"
    and "m_phase m = BootstrapI \<Longrightarrow> m_phase m' = BootstrapI \<and> m' = m \<or> m_phase m' = BootstrapII \<and>
      (\<exists>root. m_lastNode (m_checkpoint m') = Some root \<and> m_children root = [])"
    and "m_phase m = BootstrapII \<Longrightarrow> m_phase m' = BootstrapII \<or> m_phase m' = Sync"
    and "m_phase m = Sync \<or> m_phase m = Runtime \<Longrightarrow> m_phase m' = m_phase m"
    by blast+
qed

text \<open>One call of \<open>Update\<close>: at most one of its parts confirms headers.\<close>

lemma Update_inv:
  assumes inv: "monitor_inv m log" and U: "Update env plat b m = Inr m'"
  shows "monitor_inv m' (log @ newly_confirmed m m') \<and> m_mConfig m' = m_mConfig m
      \<and> (m_phase m = BootstrapI \<longrightarrow> m_phase m' \<in> {BootstrapI, BootstrapII})
      \<and> (m_phase m = BootstrapII \<longrightarrow> m_phase m' \<in> {BootstrapII, Sync})
      \<and> (m_phase m = Sync \<or> m_phase m = Runtime \<longrightarrow> m_phase m' = m_phase m)"
proof -
  obtain n m1 m2 where m1: "(if m_phase m = BootstrapI then UpdateOnBootstrapI env b m
        else UpdateOnRuntime env plat b m) = Inr (n, m1)"
    and m2: "PhaseChangeCheck env plat n m1 = Inr m2"
    and m': "(if m_phase m2 \<noteq> BootstrapI then RuntimeMaintenance env plat m2 else Inr m2) = Inr m'"
    using U by (auto simp: Update_def sum_simps)
  show ?thesis
  proof (cases "m_phase m = BootstrapI")
    case True
    then have u: "UpdateOnBootstrapI env b m = Inr (n, m1)" using m1 by simp
    note a = UpdateOnBootstrapI_inv [OF inv u]
    note b = PhaseChangeCheck_inv [OF a(1) m2]
    have p1: "m_phase m1 = BootstrapI" using a(2) True by simp
    show ?thesis
    proof (cases "m_phase m2 = BootstrapI")
      case T2: True
      then have "m' = m2" "m2 = m1" using m' b(5) [OF p1] by auto
      then show ?thesis using a True p1 by simp
    next
      case F2: False
      then obtain root where r: "m_lastNode (m_checkpoint m2) = Some root" "m_children root = []"
        and p2: "m_phase m2 = BootstrapII" using b(5) [OF p1] by auto
      have R: "RuntimeMaintenance env plat m2 = Inr m'" using m' F2 by simp
      note c = RuntimeMaintenance_inv [OF b(1) R]
      have "m_mSecState m' = m_mSecState m1" "IterateCurrWindow (m_checkpoint m') = IterateCurrWindow (m_checkpoint m1)"
        using c(2) [OF r] b(2,4) by simp_all
      then have "newly_confirmed m m' = newly_confirmed m m1" "newly_confirmed m2 m' = []"
        using b(2) by (simp_all add: newly_confirmed_def)
      then show ?thesis using c(1) a b(3) p2 True by simp
    qed
  next
    case False
    then have u: "UpdateOnRuntime env plat b m = Inr (n, m1)" using m1 by simp
    note a = UpdateOnRuntime_inv [OF inv u]
    note b = PhaseChangeCheck_inv [OF conjunct1 [OF a] m2]
    have "m_phase m2 \<noteq> BootstrapI" using a b(6,7) False by (cases "m_phase m1") auto
    then have R: "RuntimeMaintenance env plat m2 = Inr m'" using m' by simp
    note c = RuntimeMaintenance_inv(1) [OF b(1) R]
    have "newly_confirmed m2 m' = newly_confirmed m m'" using a b(2) by (simp add: newly_confirmed_def)
    then show ?thesis
      using c a b(3,6,7) False by auto
  qed
qed

end

lemma RefreshBootstrapPlan_frame: "RefreshBootstrapPlan latest start m = Inr m' \<Longrightarrow> frame m' = frame m"
  by (cases start) (auto simp: RefreshBootstrapPlan_def Let_def frame_def sum_simps split: Phases.splits)

section \<open>Runs\<close>

text \<open>The calls of a client, and the states and confirmed headers of its runs.\<close>

datatype MonitorCall =
    CallUpdate Platform bytes
  | CallRefreshBootstrapPlan BlockNumber "BlockNumber option"
  | CallRefreshSyncMsg Platform

fun monitor_call :: "('c, 's) EclipseMonitor MonitorEnv \<Rightarrow> MonitorCall \<Rightarrow> ('c, 's) EclipseMonitor
    \<Rightarrow> Exception + ('c, 's) EclipseMonitor" where
  "monitor_call env (CallUpdate plat b) m = Update env plat b m"
| "monitor_call env (CallRefreshBootstrapPlan latest start) m = RefreshBootstrapPlan latest start m"
| "monitor_call env (CallRefreshSyncMsg plat) m = RefreshSyncMsg env plat m"

inductive monitor_run :: "('c, 's) EclipseMonitor MonitorEnv \<Rightarrow> MonitorConfig \<Rightarrow> ('c, 's) EclipseMonitor
    \<Rightarrow> HeaderMgr list \<Rightarrow> bool" for env conf where
  start: "EclipseMonitor_new env conf sid est g plat addr sign cl = Inr m \<Longrightarrow> monitor_run env conf m []"
| step: "monitor_run env conf m log \<Longrightarrow> monitor_call env c m = Inr m' \<Longrightarrow>
     monitor_run env conf m' (log @ newly_confirmed m m')"

context monitor_client begin

lemma monitor_call_inv:
  assumes inv: "monitor_inv m log" and C: "monitor_call env c m = Inr m'"
  shows "monitor_inv m' (log @ newly_confirmed m m') \<and> m_mConfig m' = m_mConfig m
    \<and> (m_phase m = BootstrapI \<longrightarrow> m_phase m' \<in> {BootstrapI, BootstrapII, Sync})
    \<and> (m_phase m = BootstrapII \<longrightarrow> m_phase m' \<in> {BootstrapII, Sync}) \<and> (m_phase m = Sync \<longrightarrow> m_phase m' = Sync)"
proof (cases c)
  case (CallUpdate plat b)
  with Update_inv [OF inv, of plat b m'] C
  show ?thesis
    by auto
next
  case (CallRefreshBootstrapPlan latest start)
  with frameD [OF RefreshBootstrapPlan_frame [of latest start m m']] C inv monitor_inv_checkpoint [of m' m log]
  show ?thesis
    by (simp add: newly_confirmed_def)
next
  case (CallRefreshSyncMsg plat)
  with RefreshSyncMsg_frame [of plat m m'] C inv monitor_inv_checkpoint [of m' m log]
  show ?thesis
    by (simp add: newly_confirmed_def)
qed

lemma monitor_run_inv:
  assumes "monitor_run env conf m log" and "2 \<le> checkpointSize conf"
  shows "monitor_inv m log \<and> m_mConfig m = conf \<and> m_phase m \<noteq> Runtime"
  using assms
proof (induction rule: monitor_run.induct)
  case (start sid est g plat addr sign cl m)
  then have "m_checkpoint m = CheckpointMgr_new conf" "m_mConfig m = conf" "m_phase m = BootstrapI"
    "checkpointIter (m_mSecState m) = 0"
    by (auto simp: EclipseMonitor_new_def sum_simps)
  moreover have "2 \<le> unat (checkpointSize conf)"
    using start(2) by (simp add: word_le_nat_alt)
  ultimately show ?case
    by (simp add: monitor_inv_def CheckpointMgr_new_def checkpoint_inv_def chain_ok_def checkpoint_abs_def IterateCurrWindow_def
        sec_ok_def)
next
  case (step m log c m')
  then have "monitor_inv m log" "m_mConfig m = conf" "m_phase m \<noteq> Runtime" by simp_all
  with monitor_call_inv [OF _ step(2)] show ?case by (cases "m_phase m") auto
qed

end


section \<open>Order of the phases\<close>

fun phase_rank :: "Phases \<Rightarrow> nat" where
  "phase_rank BootstrapI = 0"
| "phase_rank BootstrapII = 1"
| "phase_rank Sync = 2"
| "phase_rank Runtime = 3"

lemma phase_rank_inj: "phase_rank p = phase_rank q \<longleftrightarrow> p = q"
  by (cases p; cases q) simp_all

instantiation Phases :: linorder
begin

definition less_eq_Phases :: "Phases \<Rightarrow> Phases \<Rightarrow> bool" where
  "p \<le> q \<longleftrightarrow> phase_rank p \<le> phase_rank q"

definition less_Phases :: "Phases \<Rightarrow> Phases \<Rightarrow> bool" where
  "p < q \<longleftrightarrow> phase_rank p < phase_rank q"

instance
  by standard (auto simp: less_eq_Phases_def less_Phases_def phase_rank_inj)

end

section \<open>The bootstrap plan\<close>

lemma CalcBootstrapIEndBlkNum_nat:
  assumes c: "0 < chkptSize" and le: "startBlk \<le> latestBlk" and max: "unat latestBlk + 1 < 2 ^ 64"
  defines "k \<equiv> (unat latestBlk - unat startBlk + 1) div unat chkptSize - 2"
  shows "CalcBootstrapIEndBlkNum latestBlk startBlk chkptSize = Inr (startBlk + of_nat (k * unat chkptSize) - 1)"
    and "k * unat chkptSize \<le> unat latestBlk + 1"
    and "0 < k \<Longrightarrow> unat startBlk + k * unat chkptSize + 2 * unat chkptSize \<le> unat latestBlk + 1"
proof -
  let ?n = "unat latestBlk - unat startBlk + 1"
  have c0: "chkptSize \<noteq> 0" and c1: "0 < unat chkptSize" using c by (auto simp: unat_gt_0 word_gt_0)
  have u: "unat startBlk \<le> unat latestBlk" using le by (simp add: word_le_nat_alt)
  have "unat (latestBlk - startBlk) = unat latestBlk - unat startBlk"
    by (rule unat_sub_no_wrap [OF u])
  then have n: "unat (latestBlk - startBlk + 1) = ?n"
    using max by (subst unat_add_no_wrap) auto
  then have q: "unat ((latestBlk - startBlk + 1) div chkptSize) = ?n div unat chkptSize"
    by (simp add: unat_div)
  let ?q = "(latestBlk - startBlk + 1) div chkptSize"
  have two: "?q > 2 \<longleftrightarrow> ?n div unat chkptSize > 2" using q by (simp add: word_less_nat_alt)
  have "(if ?q > 2 then ?q - 2 else 0) = of_nat k"
  proof (cases "?q > 2")
    case True
    then have "unat 2 \<le> unat ?q" by (simp add: word_less_nat_alt)
    then have "unat (?q - 2) = unat ?q - unat (2 :: u64)" by (rule unat_sub_no_wrap)
    then have k: "unat (?q - 2) = k" using q by (simp add: k_def)
    have "?q - 2 = of_nat (unat (?q - 2))" by simp
    then show ?thesis using True unfolding k by simp
  next
    case False
    then show ?thesis using two by (simp add: k_def)
  qed
  then show "CalcBootstrapIEndBlkNum latestBlk startBlk chkptSize = Inr (startBlk + of_nat (k * unat chkptSize) - 1)"
    using c0 by (simp add: CalcBootstrapIEndBlkNum_def Let_def)
  have d: "(?n div unat chkptSize) * unat chkptSize \<le> ?n" by simp
  have "k * unat chkptSize \<le> (?n div unat chkptSize) * unat chkptSize"
    unfolding k_def by (intro mult_le_mono1) simp
  then show "k * unat chkptSize \<le> unat latestBlk + 1" using d u by linarith
  assume "0 < k"
  then have "k + 2 = ?n div unat chkptSize" by (simp add: k_def)
  then have "k * unat chkptSize + 2 * unat chkptSize = (?n div unat chkptSize) * unat chkptSize"
    unfolding add_mult_distrib [symmetric] by (rule arg_cong)
  with d have "k * unat chkptSize + 2 * unat chkptSize \<le> ?n" by (simp only:)
  then show "unat startBlk + k * unat chkptSize + 2 * unat chkptSize \<le> unat latestBlk + 1" using u by linarith
qed

lemma CalcBootstrapIEndBlkNum_bounds:
  assumes "0 < chkptSize" and "startBlk \<le> latestBlk" and "unat latestBlk + 1 < 2 ^ 64"
  shows "\<exists>k e. CalcBootstrapIEndBlkNum latestBlk startBlk chkptSize = Inr e
    \<and> (if unat latestBlk - unat startBlk + 1 < 3 * unat chkptSize then k = 0 \<and> e = startBlk - 1
       else 0 < k \<and> unat e + 1 = unat startBlk + k * unat chkptSize
          \<and> unat e + 2 * unat chkptSize \<le> unat latestBlk \<and> unat latestBlk < unat e + 3 * unat chkptSize)"
proof -
  let ?c = "unat chkptSize" and ?n = "unat latestBlk - unat startBlk + 1"
  define k where "k = ?n div ?c - 2"
  let ?e = "startBlk + of_nat (k * ?c) - 1"
  note p = CalcBootstrapIEndBlkNum_nat [OF assms, folded k_def]
  have c: "0 < ?c" using assms(1) by (simp add: word_gt_0 unat_gt_0)
  show ?thesis
  proof (cases "?n < 3 * ?c")
    case True
    then have "?n div ?c < 3" by (simp add: div_less_iff_less_mult c)
    then have "k = 0" by (simp add: k_def)
    then show ?thesis using p(1) True by (intro exI [of _ k] exI [of _ ?e]) simp
  next
    case False
    then have d: "3 \<le> ?n div ?c" using c by (simp add: less_eq_div_iff_mult_less_eq)
    then have k: "0 < k" "?n div ?c = k + 2" by (simp_all add: k_def)
    have lt: "k * ?c < 2 ^ 64" using p(2) assms(3) by simp
    then have kc: "unat (of_nat (k * ?c) :: u64) = k * ?c" by (rule size_back)
    have "unat (startBlk + of_nat (k * ?c)) = unat startBlk + k * ?c"
      using p(3) [OF k(1)] assms(3) kc by (subst unat_add_no_wrap) auto
    moreover have "1 \<le> unat startBlk + k * ?c" using k(1) c by (metis One_nat_def Suc_leI add_gr_0 nat_0_less_mult_iff)
    ultimately have e: "unat ?e + 1 = unat startBlk + k * ?c" by (subst unat_sub_no_wrap) auto
    have "?n < (k + 3) * ?c" using k(2) dividend_less_div_times [OF c, of ?n] by (simp add: algebra_simps)
    then have "unat latestBlk < unat ?e + 3 * ?c"
      using e assms(2) by (simp add: word_le_nat_alt algebra_simps)
    then show ?thesis
      using p(1) False k(1) e p(3) [OF k(1)] by (intro exI [of _ k] exI [of _ ?e]) simp
  qed
qed

lemma linked_numbers:
  "successively header_link (h # hs) \<Longrightarrow> m_blkNum (last (h # hs)) = m_blkNum h + of_nat (length hs)"
  by (induction hs arbitrary: h) (auto simp: header_link_def)

context monitor_client begin

lemma monitor_run_windows:
  assumes "monitor_run env conf m log" and "2 \<le> checkpointSize conf"
  shows "unat (checkpointSize conf) dvd length log"
  using monitor_run_inv [OF assms] by (auto simp: monitor_inv_def sec_ok_def)

end


definition callbacks_framed :: "('c, 's) EclipseMonitor MonitorEnv \<Rightarrow> bool" where
  "callbacks_framed env \<longleftrightarrow>
     (\<forall>h m m'. m_onHeaderValidated env h m = Inr m' \<longrightarrow> frame m' = frame m) \<and>
     (\<forall>h m m'. m_onHeaderConfirmed env h m = Inr m' \<longrightarrow> frame m' = frame m)"

lemma monitor_client_iff: "monitor_client env \<longleftrightarrow> callbacks_framed env"
  by (auto simp: monitor_client_def callbacks_framed_def)

text \<open>A monitor whose callbacks do nothing, for the concrete instances.\<close>

definition quiet_env :: "(unit, unit) EclipseMonitor MonitorEnv" where
  "quiet_env = \<lparr>env_net = MainnetConfig, env_daa = TestnetDAACalculator, env_alloc = first_free,
     m_onHeaderValidated = (\<lambda>h m. Inr m), m_onHeaderConfirmed = (\<lambda>h m. Inr m)\<rparr>"

definition quiet_platform :: Platform where
  "quiet_platform = \<lparr>header_now = 1000, sync_now = 1000, sync_random = replicate 32 5, maint_now = 1001\<rparr>"

lemma RefreshSyncMsg_total: "\<exists>m'. RefreshSyncMsg env plat m = Inr m'"
proof -
  let ?m = "EndBootstrapII m"
  have "\<exists>r. NewSyncState (env_alloc env) (sync_now plat) (sync_random plat) (m_syncMsgMgr ?m)
      (sync_states (events ?m)) (Some (listeners (events ?m))) = Inr r"
    by (simp add: NewSyncState_def RegisterSyncEvent_def Let_def split: prod.split)
  then obtain r where "NewSyncState (env_alloc env) (sync_now plat) (sync_random plat) (m_syncMsgMgr ?m)
      (sync_states (events ?m)) (Some (listeners (events ?m))) = Inr r" ..
  then show ?thesis by (cases r) (simp add: RefreshSyncMsg_def Let_def)
qed

lemma quiet_framed: "callbacks_framed quiet_env"
  by (simp add: callbacks_framed_def quiet_env_def)

lemma quiet_start:
  "\<exists>m. EclipseMonitor_new quiet_env BuildEthereumMonitorConfig (replicate 16 7) TestnetDAACalculator 0 quiet_platform [1] [2] () = Inr m
     \<and> m_phase m = BootstrapI \<and> m_mConfig m = BuildEthereumMonitorConfig"
  by (simp add: EclipseMonitor_new_def SyncMsgMgr_new_def GetSessIdFromVec_def RegisterSyncEvent_def Listen_def
      bindE_def Let_def split: sum.splits)

text \<open>A monitor whose root has two children, the second in the map of live nodes.\<close>

definition fork_header :: "u8 \<Rightarrow> HeaderMgr" where
  "fork_header x = HeaderMgr_default\<lparr>m_hash := [x]\<rparr>"

definition fork_child :: HeaderNode where
  "fork_child = HeaderNode 1 (fork_header 1) 0 [(1, HeaderNode 2 (fork_header 2) 0 [(0, HeaderNode 3 (fork_header 3) 0 [])])]"

definition fork_root :: HeaderNode where
  "fork_root = HeaderNode 0 (fork_header 0) 0 [(2, fork_child), (0, HeaderNode 4 (fork_header 4) 0 [])]"

definition fork_monitor :: "(unit, unit) EclipseMonitor" where
  "fork_monitor = \<lparr>m_mConfig = BuildEthereumMonitorConfig\<lparr>checkpointSize := 2\<rparr>, m_sessionID = [],
     m_mSecState = \<lparr>sec_SVN = 0, genesisHash = [], checkpointIter = 1, checkpointHash = [0], checkpointNum = []\<rparr>,
     m_phase = Sync,
     m_checkpoint = \<lparr>m_chkptSize = 2, m_currWindow = [fork_header 9], m_candidate = [],
       m_lastNode = Some fork_root,
       m_isLastNodeCandidate = False\<rparr>,
     m_diffChecker = PoWDiffChecker_new BuildEthereumMonitorConfig TestnetDAACalculator 0,
     events = \<lparr>listeners = [], sync_states = [SyncState_new 13 0 []], client = ()\<rparr>,
     m_syncMsgMgr = demo_sm, m_offlineNodes = [], m_activeNodes = [([4], 4), ([1], 1), ([2], 2), ([3], 3)],
     m_startBlockNum = 0, m_bootstrapIEndBlkNum = 0, m_planedSyncBlkNum = 0, next_addr = 5\<rparr>"

lemma expire_loop_Inr:
  "expire_loop env now ns m = Inr m' \<Longrightarrow> (h, p) \<in> set ns \<Longrightarrow>
     Option.bind (m_lastNode (m_checkpoint m)) (find_node p) \<noteq> None"
  by (induction env now ns m rule: expire_loop.induct) (auto simp: sum_simps split: option.splits if_splits)

lemma AddNode_root: "AddNode n s = (c, s') \<Longrightarrow> m_lastNode s' = Some n"
  by (auto simp: AddNode_def Let_def split: if_splits)

context monitor_client begin

lemma confirm_child_result:
  assumes C: "confirm_child env l child m = Inr m'"
  shows "m_lastNode (m_checkpoint m') = Some child"
    and "m_activeNodes m' = map_erase (m_hash (m_header child)) (map_erase (m_hash (m_header l)) (m_activeNodes m))"
proof -
  obtain c chk where A: "AddNode child (m_checkpoint m) = (c, chk)" by force
  let ?m1 = "(if length (m_offlineNodes m) > 0
      then m\<lparr>m_offlineNodes := map_erase (m_hash (m_header child)) (map_erase (m_hash (m_header l)) (m_offlineNodes m))\<rparr> else m)
    \<lparr>m_activeNodes := map_erase (m_hash (m_header child)) (map_erase (m_hash (m_header l)) (m_activeNodes m)), m_checkpoint := chk\<rparr>"
  have "(if c then OnCheckpointComplete env ?m1 else Inr ?m1) = Inr m'"
    using C A by (simp add: confirm_child_def Let_def split: if_splits)
  then have "m_checkpoint m' = m_checkpoint ?m1 \<and> m_activeNodes m' = m_activeNodes ?m1"
    using OnCheckpointComplete_frame [of ?m1 m'] by (cases c) simp_all
  then show "m_lastNode (m_checkpoint m') = Some child"
    and "m_activeNodes m' = map_erase (m_hash (m_header child)) (map_erase (m_hash (m_header l)) (m_activeNodes m))"
    using AddNode_root [OF A] by simp_all
qed

end

lemma map_erase_other: "(h, p) \<in> set m \<Longrightarrow> h \<noteq> k \<Longrightarrow> (h, p) \<in> set (map_erase k m)"
  by (simp add: set_erase)

text \<open>What the monitor confirms is one chain. In every run of the monitor, the headers handed to the
  confirmation callback so far, followed by the candidates of the next checkpoint, form a chain in
  which each header names the number and the hash of the one before it, without gap or repetition;
  the checkpoint window is the end of what was confirmed; the security state reports the first header,
  the last confirmed header and the number of checkpoints; and every header of the tree of
  unconfirmed headers continues its parent, the root being the last candidate or confirmed header.\<close>

definition monitor_view :: "MonitorConfig \<Rightarrow> ('c, 's) EclipseMonitor \<Rightarrow> HeaderMgr list \<Rightarrow> HeaderMgr list \<Rightarrow> bool" where
  "monitor_view conf m log chain \<longleftrightarrow>
     chain = log @ snd (checkpoint_abs (m_checkpoint m)) \<and> successively header_link chain
   \<and> suffix (IterateCurrWindow (m_checkpoint m)) log
   \<and> sec_ok (unat (checkpointSize conf)) (m_mSecState m) log (snd (checkpoint_abs (m_checkpoint m)))
   \<and> (\<forall>root. m_lastNode (m_checkpoint m) = Some root \<longrightarrow> tree_linked root \<and> chain \<noteq> [] \<and> last chain = m_header root)"

lemma monitor_inv_view:
  assumes "monitor_inv m log" and "m_mConfig m = conf"
  shows "monitor_view conf m log (log @ snd (checkpoint_abs (m_checkpoint m)))"
  using monitor_inv_sec [OF assms(1)] assms by (simp add: monitor_view_def monitor_inv_def chain_ok_def checkpoint_abs_def)

section \<open>Properties\<close>

text \<open>C11. The phases only go forward: no call of a client takes the monitor back to an earlier phase,
  and none ever enters the runtime phase.\<close>

theorem phases_forward:
  assumes "monitor_run env conf m log" and "2 \<le> checkpointSize conf" and "callbacks_framed env"
    and "monitor_call env c m = Inr m'"
  shows "m_phase m \<le> m_phase m' \<and> m_phase m' \<noteq> Runtime"
proof -
  have cl: "monitor_client env" using assms(3) by (simp add: monitor_client_iff)
  note inv = monitor_client.monitor_run_inv [OF cl assms(1,2)]
  show ?thesis
    using monitor_client.monitor_call_inv [OF cl conjunct1 [OF inv] assms(4)] inv
    by (cases "m_phase m") (auto simp: less_eq_Phases_def)
qed

theorem phases_forward_witness:
  "\<exists>m m'. monitor_run quiet_env BuildEthereumMonitorConfig m [] \<and> monitor_call quiet_env (CallRefreshSyncMsg quiet_platform) m = Inr m'
     \<and> m_phase m \<le> m_phase m' \<and> m_phase m' = Sync"
proof -
  obtain m where m: "monitor_run quiet_env BuildEthereumMonitorConfig m []" using quiet_start monitor_run.start by metis
  obtain m' where m': "monitor_call quiet_env (CallRefreshSyncMsg quiet_platform) m = Inr m'"
    using RefreshSyncMsg_total [of quiet_env quiet_platform m] by auto
  have "m_phase m \<le> m_phase m' \<and> m_phase m' \<noteq> Runtime"
    using phases_forward [OF m _ quiet_framed m'] by (simp add: BuildEthereumMonitorConfig_def)
  moreover have "m_phase m' = Sync"
    using m' by (auto simp: RefreshSyncMsg_def EndBootstrapII_def Let_def sum_simps)
  ultimately show ?thesis using m m' by blast
qed

text \<open>C12. The plan for the end of the first bootstrap phase. With at least three checkpoints of blocks
  known, the phase is planned to end after a whole number of checkpoints, two to three checkpoints
  before the latest block; with fewer, the planned block is the one before the first, which never
  comes, so the phase lasts until the plan is refreshed.\<close>

theorem bootstrap_plan:
  assumes "0 < chkptSize" and "startBlk \<le> latestBlk" and "unat latestBlk + 1 < 2 ^ 64"
  shows "\<exists>k e. CalcBootstrapIEndBlkNum latestBlk startBlk chkptSize = Inr e
    \<and> (if unat latestBlk - unat startBlk + 1 < 3 * unat chkptSize then k = 0 \<and> e = startBlk - 1
       else 0 < k \<and> unat e + 1 = unat startBlk + k * unat chkptSize
          \<and> unat e + 2 * unat chkptSize \<le> unat latestBlk \<and> unat latestBlk < unat e + 3 * unat chkptSize)"
  using assms by (rule CalcBootstrapIEndBlkNum_bounds)

theorem bootstrap_plan_witness:
  "\<exists>e. CalcBootstrapIEndBlkNum 2000 0 430 = Inr e \<and> unat e + 860 \<le> 2000 \<and> 2000 < unat e + 1290"
  using bootstrap_plan [of 430 0 2000] by fastforce

text \<open>The first bootstrap phase ends as planned: when the loaded headers start at the first block of
  the plan and the last one is the planned block, no header is left among the candidates, the phase
  change succeeds, and the last header becomes the root that the next headers continue.\<close>

theorem bootstrap_ends:
  assumes "monitor_run env conf m log" and "2 \<le> checkpointSize conf" and "callbacks_framed env"
    and "m_phase m = BootstrapI"
    and "CalcBootstrapIEndBlkNum latestBlk startBlk (checkpointSize conf) = Inr (m_bootstrapIEndBlkNum m)"
    and "startBlk \<le> latestBlk" and "unat latestBlk + 1 < 2 ^ 64"
  defines "hs \<equiv> log @ snd (checkpoint_abs (m_checkpoint m))"
  assumes "hs \<noteq> []" and "length hs < 2 ^ 64" and "m_blkNum (hd hs) = startBlk"
    and "m_blkNum (last hs) = m_bootstrapIEndBlkNum m"
  shows "\<exists>m' root. PhaseChangeCheck env plat (m_blkNum (last hs)) m = Inr m' \<and> m_phase m' = BootstrapII
    \<and> m_lastNode (m_checkpoint m') = Some root \<and> m_header root = last hs
    \<and> map_of (m_offlineNodes m') (m_hash (last hs)) = Some (node_addr root)"
proof -
  let ?s = "m_checkpoint m" and ?c = "unat (checkpointSize conf)"
  have cl: "monitor_client env" using assms(3) by (simp add: monitor_client_iff)
  have inv: "monitor_inv m log" and none: "m_lastNode ?s = None" and size: "m_chkptSize ?s = ?c"
  proof -
    have i: "monitor_inv m log \<and> m_mConfig m = conf"
      using monitor_client.monitor_run_inv [OF cl assms(1,2)] by blast
    then show "monitor_inv m log" ..
    then show "m_lastNode ?s = None" "m_chkptSize ?s = ?c"
      using i assms(4) unfolding monitor_inv_def by blast+
  qed
  have abs: "checkpoint_abs ?s = (m_currWindow ?s, m_candidate ?s)"
    using none by (simp add: checkpoint_abs_def IterateCurrWindow_def)
  define k where "k = (unat latestBlk - unat startBlk + 1) div ?c - 2"
  have c: "0 < checkpointSize conf" "0 < ?c"
    using assms(2) by (auto simp: word_le_nat_alt word_less_nat_alt)
  note p = CalcBootstrapIEndBlkNum_nat [OF c(1) assms(6,7), folded k_def]
  have e: "m_bootstrapIEndBlkNum m = startBlk + of_nat (k * ?c) - 1" using p(1) assms(5) by simp
  obtain h tl where hs: "hs = h # tl" using assms(9) by (cases hs) auto
  have "successively header_link (h # tl)"
    using inv hs by (simp add: hs_def monitor_inv_def chain_ok_def)
  then have "startBlk + of_nat (length tl) = startBlk + of_nat (k * ?c) - 1"
    using linked_numbers [of h tl] assms(11,12) e hs by simp
  then have "(of_nat (length hs) :: u64) = of_nat (k * ?c)" using hs by (simp add: algebra_simps)
  then have "length hs = k * ?c"
    using size_back [OF assms(10)] size_back [of "k * ?c"] p(2) assms(7) by (metis le_less_trans)
  then have "?c dvd length log + length (m_candidate ?s)" by (simp add: hs_def abs)
  then have "?c dvd length (m_candidate ?s)"
    using monitor_client.monitor_run_windows [OF cl assms(1,2)] by (simp add: dvd_add_right_iff)
  moreover have "m_candidate ?s = [] \<or> length (m_candidate ?s) < ?c"
  proof -
    have "checkpoint_inv ?s" using inv by (simp add: monitor_inv_def)
    then show ?thesis unfolding checkpoint_inv_def size abs by simp
  qed
  ultimately have cand: "m_candidate ?s = []" using nat_dvd_not_less by blast
  then have "log = hs" by (simp add: hs_def abs)
  then have w: "m_currWindow ?s \<noteq> []" "suffix (m_currWindow ?s) hs"
    using inv assms(9) by (auto simp: monitor_inv_def chain_ok_def abs)
  then have l: "last (m_currWindow ?s) = last hs" by (auto simp: suffix_def)
  have "EndBootstrapI m = Inr (m\<lparr>m_checkpoint := ?s\<lparr>m_lastNode := Some (HeaderNode_new (next_addr m) (last hs)
        (m_lastSyncState (m_syncMsgMgr m))), m_isLastNodeCandidate := False, m_currWindow := butlast (m_currWindow ?s)\<rparr>,
      next_addr := next_addr m + 1, m_offlineNodes := map_assign (m_hash (last hs)) (next_addr m) (m_offlineNodes m),
      m_phase := BootstrapII\<rparr>)"
    using none cand w(1) l
    by (simp add: EndBootstrapI_def EndBootstrapPhase_def GetLastNodePtr_def HeaderNode_new_def Let_def)
  then show ?thesis using assms(4,12) by (simp add: PhaseChangeCheck_def HeaderNode_new_def)
qed



end
