(* ===== verification/EthAbi.thy ===== *)
theory EthAbi
  imports EthHeader
begin

text \<open>
  \<open>libs/EclipseMonitor/include/EclipseMonitor/Eth/AbiParser.hpp\<close>: the parser of the contract ABI.
  The template arguments of \<open>AbiParser\<close> and \<open>AbiCodecImpl\<close> are the type \<open>AbiType\<close>. A pair of
  iterators into the input is the list of the bytes between them, so an iterator that moves forward is a
  shorter suffix. Values of all integer types are 64-bit words.

  The encoding of the ABI specification is \<open>abi_enc\<close>; the locale \<open>exact_codec\<close> says that a parser
  accepts the encodings of the values of a type and nothing else, and its lemmas carry that over to lists.
\<close>

section \<open>Utilities\<close>

abbreviation sk_chunkSize :: u64 where
  "sk_chunkSize \<equiv> 32"

datatype RealNumType = UInt8 | UInt16 | UInt32 | UInt64

fun sk_consumedSize :: "RealNumType \<Rightarrow> nat" where
  "sk_consumedSize UInt8 = 1"
| "sk_consumedSize UInt16 = 2"
| "sk_consumedSize UInt32 = 4"
| "sk_consumedSize UInt64 = 8"

definition AbiCeilingDiv :: "u64 \<Rightarrow> u64 \<Rightarrow> u64" where
  "AbiCeilingDiv a b = (a + (b - 1)) div b"

abbreviation abi_end :: "Exception + 'a" where
  "abi_end \<equiv> Inl (Exception ''ABI parser - unexpected end of input'')"

fun AbiParserSkipPadding :: "bool \<Rightarrow> nat \<Rightarrow> bytes \<Rightarrow> Exception + bytes" where
  "AbiParserSkipPadding checkVal 0 s = Inr s"
| "AbiParserSkipPadding checkVal (Suc n) [] = abi_end"
| "AbiParserSkipPadding checkVal (Suc n) (b # s) =
     (if checkVal \<and> b \<noteq> 0
      then Inl (Exception ''ABI parser - there are non-zero bytes in skipped bytes'')
      else AbiParserSkipPadding checkVal n s)"

fun AbiParserCopyBytes :: "nat \<Rightarrow> bytes \<Rightarrow> Exception + (bytes \<times> bytes)" where
  "AbiParserCopyBytes 0 s = Inr ([], s)"
| "AbiParserCopyBytes (Suc n) [] = abi_end"
| "AbiParserCopyBytes (Suc n) (b # s) =
     bindE (AbiParserCopyBytes n s) (\<lambda>(dest, s). Inr (b # dest, s))"

definition AbiParserCopyBytesThenSkip :: "bool \<Rightarrow> nat \<Rightarrow> nat \<Rightarrow> bytes \<Rightarrow> Exception + (bytes \<times> bytes)" where
  "AbiParserCopyBytesThenSkip checkVal copyLen skipLen s =
     bindE (AbiParserCopyBytes copyLen s) (\<lambda>(dest, s).
     bindE (AbiParserSkipPadding checkVal skipLen s) (\<lambda>s. Inr (dest, s)))"

definition AbiWithinChunkSize :: "u64 \<Rightarrow> Exception + u64" where
  "AbiWithinChunkSize n =
     (if n \<le> sk_chunkSize then Inr n else Inl (Exception ''ABI parser - bytes type is too large''))"

text \<open>\<open>std::vector::reserve\<close> throws for more elements than the vector can ever have.\<close>

definition vector_reserve :: "u64 \<Rightarrow> u64 \<Rightarrow> Exception + unit" where
  "vector_reserve maxSize n = guardE (n \<le> maxSize) (Exception ''std::length_error'')"

section \<open>The codecs\<close>

text \<open>A codec returns the value, where the parsing stopped, and the number of chunks consumed.\<close>

type_synonym 'a codec_result = "Exception + ('a \<times> bytes \<times> u64)"

text \<open>The types, with the sizes of \<open>bytes<M>\<close> and \<open>T[k]\<close>; a list without a size is \<open>T[]\<close>. \<close>

datatype AbiType =
    AbiInteger RealNumType
  | AbiBool
  | AbiBytesM u64
  | AbiBytes
  | AbiList AbiType "u64 option"

datatype AbiValue = VInt u64 | VBool bool | VBytes bytes | VList "AbiValue list"

fun sk_hasTail :: "AbiType \<Rightarrow> bool" where
  "sk_hasTail (AbiInteger r) = False"
| "sk_hasTail AbiBool = False"
| "sk_hasTail (AbiBytesM n) = False"
| "sk_hasTail AbiBytes = True"
| "sk_hasTail (AbiList t None) = True"
| "sk_hasTail (AbiList t (Some n)) = sk_hasTail t"

text \<open>The most elements of a \<open>std::vector\<close> of the values of a type: as many as fit in \<open>PTRDIFF_MAX\<close>
  bytes, a vector taking 24 bytes.\<close>

fun vector_max_size :: "AbiType \<Rightarrow> u64" where
  "vector_max_size (AbiInteger r) = 0x7FFFFFFFFFFFFFFF div of_nat (sk_consumedSize r)"
| "vector_max_size AbiBool = 0x7FFFFFFFFFFFFFFF"
| "vector_max_size t = 0x7FFFFFFFFFFFFFFF div 24"

fun abi_int_loop :: "nat \<Rightarrow> u64 \<Rightarrow> bytes \<Rightarrow> Exception + (u64 \<times> bytes)" where
  "abi_int_loop 0 res s = Inr (res, s)"
| "abi_int_loop (Suc i) res [] = abi_end"
| "abi_int_loop (Suc i) res (val # s) = abi_int_loop i (res OR push_bit (i * 8) (ucast val)) s"

definition Integer_ToPrimitive :: "RealNumType \<Rightarrow> bytes \<Rightarrow> u64 codec_result" where
  "Integer_ToPrimitive r s =
     bindE (AbiParserSkipPadding True (32 - sk_consumedSize r) s) (\<lambda>s.
     bindE (abi_int_loop (sk_consumedSize r) 0 s) (\<lambda>(res, s).
     Inr (res, s, 1)))"

definition Bool_ToPrimitive :: "bytes \<Rightarrow> bool codec_result" where
  "Bool_ToPrimitive s =
     bindE (Integer_ToPrimitive UInt8 s) (\<lambda>(valInt, s, chunkConsumed).
     bindE (if valInt = 1 then Inr True else if valInt = 0 then Inr False
            else Inl (Exception ''ABI parser - invalid bool value'')) (\<lambda>valBool.
     Inr (valBool, s, chunkConsumed)))"

definition BytesM_ToPrimitive :: "u64 \<Rightarrow> bytes \<Rightarrow> bytes codec_result" where
  "BytesM_ToPrimitive n s =
     bindE (AbiParserCopyBytesThenSkip True (unat n) (unat (sk_chunkSize - n)) s) (\<lambda>(res, s).
     Inr (res, s, 1))"

definition Bytes_ToPrimitive :: "bytes \<Rightarrow> bytes codec_result" where
  "Bytes_ToPrimitive s =
     bindE (Integer_ToPrimitive UInt64 s) (\<lambda>(len, s, chunkConsumed).
     let numChunk = AbiCeilingDiv len sk_chunkSize;
         paddingSize = numChunk * sk_chunkSize - len
     in bindE (vector_reserve 0x7FFFFFFFFFFFFFFF len) (\<lambda>_.
        bindE (AbiParserCopyBytesThenSkip True (unat len) (unat paddingSize) s) (\<lambda>(res, s).
        Inr (res, s, chunkConsumed + numChunk))))"

text \<open>The loops over the items of a list: through the heads, and through the tails with the check of the
  offsets.\<close>

fun list_heads :: "(bytes \<Rightarrow> 'a codec_result) \<Rightarrow> nat \<Rightarrow> bytes \<Rightarrow> u64 \<Rightarrow> 'a list codec_result" where
  "list_heads item 0 s tot = Inr ([], s, tot)"
| "list_heads item (Suc n) s tot =
     bindE (item s) (\<lambda>(x, s, chunkConsumed).
     bindE (list_heads item n s (tot + chunkConsumed)) (\<lambda>(xs, s, tot).
     Inr (x # xs, s, tot)))"

fun list_tails :: "(bytes \<Rightarrow> 'a codec_result) \<Rightarrow> u64 list \<Rightarrow> bytes \<Rightarrow> u64 \<Rightarrow> 'a list codec_result" where
  "list_tails item [] s tot = Inr ([], s, tot)"
| "list_tails item (head # heads) s tot =
     (if head \<noteq> tot * sk_chunkSize then Inl (Exception ''ABI parser - invalid offset'')
      else
        bindE (item s) (\<lambda>(x, s, chunkConsumed).
        bindE (list_tails item heads s (tot + chunkConsumed)) (\<lambda>(xs, s, tot).
        Inr (x # xs, s, tot))))"

definition List_ToPrimitive :: "bool \<Rightarrow> u64 \<Rightarrow> (bytes \<Rightarrow> 'a codec_result) \<Rightarrow> u64 \<Rightarrow> bytes \<Rightarrow> 'a list codec_result" where
  "List_ToPrimitive isItemDynamic maxSize item n s =
     (if isItemDynamic then
        bindE (vector_reserve (0x7FFFFFFFFFFFFFFF div 8) n) (\<lambda>_.
        bindE (list_heads (Integer_ToPrimitive UInt64) (unat n) s 0) (\<lambda>(heads, s, tot).
        bindE (vector_reserve maxSize n) (\<lambda>_.
        list_tails item heads s tot)))
      else
        bindE (vector_reserve maxSize n) (\<lambda>_.
        list_heads item (unat n) s 0))"

definition DynList_ToPrimitive :: "bool \<Rightarrow> u64 \<Rightarrow> (bytes \<Rightarrow> 'a codec_result) \<Rightarrow> bytes \<Rightarrow> 'a list codec_result" where
  "DynList_ToPrimitive isItemDynamic maxSize item s =
     bindE (Integer_ToPrimitive UInt64 s) (\<lambda>(len, s, chunkConsumed).
     bindE (List_ToPrimitive isItemDynamic maxSize item len s) (\<lambda>(res, s, chunkConsumed').
     Inr (res, s, chunkConsumed + chunkConsumed')))"

definition map_value :: "('a \<Rightarrow> 'b) \<Rightarrow> 'a codec_result \<Rightarrow> 'b codec_result" where
  "map_value f r = bindE r (\<lambda>(x, s, n). Inr (f x, s, n))"

primrec Codec_ToPrimitive :: "AbiType \<Rightarrow> bytes \<Rightarrow> AbiValue codec_result" where
  "Codec_ToPrimitive (AbiInteger r) s = map_value VInt (Integer_ToPrimitive r s)"
| "Codec_ToPrimitive AbiBool s = map_value VBool (Bool_ToPrimitive s)"
| "Codec_ToPrimitive (AbiBytesM n) s = map_value VBytes (BytesM_ToPrimitive n s)"
| "Codec_ToPrimitive AbiBytes s = map_value VBytes (Bytes_ToPrimitive s)"
| "Codec_ToPrimitive (AbiList t len) s =
     map_value VList
       (case len of
          Some n \<Rightarrow> List_ToPrimitive (sk_hasTail t) (vector_max_size t) (Codec_ToPrimitive t) n s
        | None \<Rightarrow> DynList_ToPrimitive (sk_hasTail t) (vector_max_size t) (Codec_ToPrimitive t) s)"

section \<open>The parsers\<close>

text \<open>\<open>ToPrimitive\<close> of the parsers without and with a tail: the value and where the parsing of the head
  stopped. The input ends where the block ends, so \<open>distance(blockBegin, end)\<close> is the length of the block.\<close>

definition HeadOnly_ToPrimitive :: "AbiType \<Rightarrow> bytes \<Rightarrow> Exception + (AbiValue \<times> bytes)" where
  "HeadOnly_ToPrimitive t begin = bindE (Codec_ToPrimitive t begin) (\<lambda>(res, s, _). Inr (res, s))"

definition HeadTail_ToPrimitive :: "AbiType \<Rightarrow> bytes \<Rightarrow> bytes \<Rightarrow> Exception + (AbiValue \<times> bytes)" where
  "HeadTail_ToPrimitive t begin block =
     bindE (Integer_ToPrimitive UInt64 begin) (\<lambda>(offset, headEnd, _).
     if length block < unat offset then Inl (Exception ''ABI parser - the input is too short'')
     else
       bindE (Codec_ToPrimitive t (drop (unat offset) block)) (\<lambda>(res, _, _).
       Inr (res, headEnd)))"

definition AbiParser_ToPrimitive :: "AbiType \<Rightarrow> bytes \<Rightarrow> bytes \<Rightarrow> Exception + (AbiValue \<times> bytes)" where
  "AbiParser_ToPrimitive t begin block =
     (if sk_hasTail t then HeadTail_ToPrimitive t begin block else HeadOnly_ToPrimitive t begin)"

text \<open>The constructors: only the size of \<open>bytes<M>\<close> is checked.\<close>

fun AbiParser_new :: "AbiType \<Rightarrow> Exception + AbiType" where
  "AbiParser_new (AbiBytesM n) = bindE (AbiWithinChunkSize n) (\<lambda>n. Inr (AbiBytesM n))"
| "AbiParser_new (AbiList t len) = bindE (AbiParser_new t) (\<lambda>t. Inr (AbiList t len))"
| "AbiParser_new t = Inr t"

section \<open>The encoding of the specification\<close>

fun be_bytes :: "nat \<Rightarrow> nat \<Rightarrow> bytes" where
  "be_bytes 0 n = []"
| "be_bytes (Suc i) n = of_nat (n div 256 ^ i) # be_bytes i n"

definition abi_word :: "nat \<Rightarrow> bytes" where
  "abi_word n = be_bytes 32 n"

definition abi_pad :: "bytes \<Rightarrow> bytes" where
  "abi_pad b = b @ replicate ((32 - length b mod 32) mod 32) 0"

fun abi_offsets :: "nat \<Rightarrow> bytes list \<Rightarrow> nat list" where
  "abi_offsets k [] = []"
| "abi_offsets k (t # ts) = k # abi_offsets (k + length t) ts"

definition abi_items :: "bool \<Rightarrow> bytes list \<Rightarrow> bytes" where
  "abi_items dynamic ts =
     (if dynamic then concat (map abi_word (abi_offsets (32 * length ts) ts)) else []) @ concat ts"

fun abi_typed :: "AbiType \<Rightarrow> AbiValue \<Rightarrow> bool" where
  "abi_typed (AbiInteger r) (VInt x) \<longleftrightarrow> unat x < 256 ^ sk_consumedSize r"
| "abi_typed AbiBool (VBool b) \<longleftrightarrow> True"
| "abi_typed (AbiBytesM n) (VBytes b) \<longleftrightarrow> n \<le> 32 \<and> length b = unat n"
| "abi_typed AbiBytes (VBytes b) \<longleftrightarrow> length b < 2 ^ 63"
| "abi_typed (AbiList t len) (VList vs) \<longleftrightarrow>
     (\<forall>v\<in>set vs. abi_typed t v) \<and> length vs \<le> unat (vector_max_size t) \<and> (\<forall>n. len = Some n \<longrightarrow> length vs = unat n)"
| "abi_typed _ _ \<longleftrightarrow> False"

fun abi_enc :: "AbiType \<Rightarrow> AbiValue \<Rightarrow> bytes" where
  "abi_enc (AbiInteger r) (VInt x) = abi_word (unat x)"
| "abi_enc AbiBool (VBool b) = abi_word (of_bool b)"
| "abi_enc (AbiBytesM n) (VBytes b) = abi_pad b @ (if b = [] then replicate 32 0 else [])"
| "abi_enc AbiBytes (VBytes b) = abi_word (length b) @ abi_pad b"
| "abi_enc (AbiList t None) (VList vs) = abi_word (length vs) @ abi_items (sk_hasTail t) (map (abi_enc t) vs)"
| "abi_enc (AbiList t (Some n)) (VList vs) = abi_items (sk_hasTail t) (map (abi_enc t) vs)"
| "abi_enc _ _ = []"

section \<open>Bytes and words\<close>

lemma length_be [simp]: "length (be_bytes i n) = i"
  by (induction i) auto

lemma length_abi_word [simp]: "length (abi_word n) = 32"
  by (simp add: abi_word_def)

lemma be_bytes_mod: "i \<le> k \<Longrightarrow> be_bytes i (n mod 256 ^ k) = be_bytes i n"
proof (induction i)
  case (Suc i)
  have "(256 :: nat) ^ k = 256 ^ i * (256 * 256 ^ (k - Suc i))"
    using Suc.prems by (simp flip: power_Suc power_add)
  then have "n mod 256 ^ k div 256 ^ i = n div 256 ^ i mod (256 * 256 ^ (k - Suc i))"
    by (simp add: mod_mult2_eq)
  then have "(n mod 256 ^ k div 256 ^ i) mod 256 = n div 256 ^ i mod 256"
    by (simp add: mod_mod_cancel)
  then have "(of_nat (n mod 256 ^ k div 256 ^ i) :: byte) = of_nat (n div 256 ^ i)"
    by (simp add: word_of_nat_eq_iff take_bit_eq_mod)
  with Suc show ?case by simp
qed simp

lemma be_bytes_zeros: "n < 256 ^ k \<Longrightarrow> be_bytes (j + k) n = replicate j 0 @ be_bytes k n"
proof (induction j)
  case (Suc j)
  have "n < 256 ^ (j + k)" using Suc.prems by (rule less_le_trans) simp
  with Suc show ?case by simp
qed simp

lemma abi_word_small: "n < 256 ^ k \<Longrightarrow> k \<le> 32 \<Longrightarrow> abi_word n = replicate (32 - k) 0 @ be_bytes k n"
  using be_bytes_zeros [of n k "32 - k"] by (simp add: abi_word_def)

lemma unat_int_of_bytes_Cons:
  assumes "length bs < 8"
  shows "unat (int_of_bytes (b # bs)) = unat b * 256 ^ length bs + unat (int_of_bytes bs)
    \<and> unat (int_of_bytes bs) < 256 ^ length bs"
proof
  let ?k = "length bs"
  have bits: "\<not> bit (int_of_bytes bs) n" if "?k * 8 \<le> n" for n
    using bit_int_of_bytes [of bs n] assms that by (simp add: less_eq_div_iff_mult_less_eq not_less)
  have "int_of_bytes bs = take_bit (?k * 8) (int_of_bytes bs)"
    by (rule bit_word_eqI) (use bits in \<open>auto simp: bit_take_bit_iff not_less intro: ccontr\<close>)
  then have "unat (int_of_bytes bs) = take_bit (?k * 8) (unat (int_of_bytes bs))"
    by (metis unsigned_take_bit_eq)
  moreover have p: "(2 :: nat) ^ (?k * 8) = 256 ^ ?k" by (subst mult.commute) (simp add: power_mult)
  ultimately show lt: "unat (int_of_bytes bs) < 256 ^ ?k"
    by (metis take_bit_nat_less_exp)
  let ?h = "push_bit (?k * 8) (ucast b) :: u64"
  have "?h AND int_of_bytes bs = 0"
    by (rule bit_word_eqI) (use bits in \<open>auto simp: bit_simps\<close>)
  then have "int_of_bytes (b # bs) = ?h + int_of_bytes bs"
    by (simp add: disjunctive_add_eq_or)
  moreover have b: "unat b < 256" by (rule order_less_le_trans [OF unsigned_less]) simp
  then have le: "unat b * 256 ^ ?k + 256 ^ ?k \<le> 256 ^ Suc ?k"
    using mult_le_mono1 [of "unat b + 1" 256 "256 ^ ?k"] by simp
  have le8: "(256 :: nat) ^ Suc ?k \<le> 256 ^ 8"
    by (rule power_increasing) (use assms in simp_all)
  have lt1: "unat b * 256 ^ ?k < 2 ^ 64"
  proof -
    have "unat b * 256 ^ ?k < unat b * 256 ^ ?k + 256 ^ ?k" by simp
    also note le
    also note le8
    finally show ?thesis by simp
  qed
  have "unat (ucast b :: u64) = unat b" using b by (simp add: unsigned_ucast_eq take_bit_eq_mod)
  then have "(ucast b :: u64) = of_nat (unat b)" by (metis of_nat_unat ucast_id)
  then have "?h = of_nat (unat b * 2 ^ (?k * 8))" by (simp add: push_bit_eq_mult)
  then have "unat ?h = unat b * 256 ^ ?k"
    using size_back [OF lt1] unfolding p by (simp only:)
  ultimately show "unat (int_of_bytes (b # bs)) = unat b * 256 ^ ?k + unat (int_of_bytes bs)"
    using lt le le8 by (simp add: unat_word_ariths del: power_Suc)
qed

lemma int_of_bytes_less: "length bs \<le> 8 \<Longrightarrow> unat (int_of_bytes bs) < 256 ^ length bs"
proof (cases bs)
  case (Cons b bs')
  assume "length bs \<le> 8"
  then have l: "length bs' < 8" using Cons by simp
  have "unat b < 256" by (rule order_less_le_trans [OF unsigned_less]) simp
  then have "unat b * 256 ^ length bs' + 256 ^ length bs' \<le> 256 ^ Suc (length bs')"
    using mult_le_mono1 [of "unat b + 1" 256 "256 ^ length bs'"] by simp
  moreover have "unat (int_of_bytes (b # bs')) < unat b * 256 ^ length bs' + 256 ^ length bs'"
    using unat_int_of_bytes_Cons [OF l, of b] by simp
  ultimately show ?thesis unfolding Cons length_Cons by (rule less_le_trans [rotated])
qed simp

lemma be_bytes_int_of_bytes: "length bs \<le> 8 \<Longrightarrow> be_bytes (length bs) (unat (int_of_bytes bs)) = bs"
proof (induction bs)
  case (Cons b bs)
  then have l: "length bs < 8" by simp
  note u = unat_int_of_bytes_Cons [OF l, of b]
  have "be_bytes (length bs) (unat (int_of_bytes (b # bs))) = be_bytes (length bs) (unat (int_of_bytes bs))"
    using be_bytes_mod [of "length bs" "length bs" "unat (int_of_bytes (b # bs))"] u by simp
  moreover have "unat (int_of_bytes (b # bs)) div 256 ^ length bs = unat b" using u by simp
  ultimately show ?case using Cons by simp
qed simp

lemma int_of_bytes_be_bytes:
  assumes "unat x < 256 ^ k" and "k \<le> 8"
  shows "int_of_bytes (be_bytes k (unat x)) = x"
proof -
  have "i \<le> 8 \<Longrightarrow> unat (int_of_bytes (be_bytes i n)) = n mod 256 ^ i" for i n
  proof (induction i)
    case (Suc i)
    have m: "(m * j + r) mod j = r mod (j :: nat)" for m j r by simp
    have "unat (of_nat (n div 256 ^ i) :: byte) = n div 256 ^ i mod 256" by (simp add: unat_of_nat)
    then have "unat (int_of_bytes (be_bytes (Suc i) n)) = n div 256 ^ i mod 256 * 256 ^ i + n mod 256 ^ i"
      using Suc unat_int_of_bytes_Cons [of "be_bytes i n" "of_nat (n div 256 ^ i)"] by simp
    also have "\<dots> = n mod 256 ^ Suc i"
      using mod_mult2_eq [of n "256 ^ i" 256] by (simp add: mult.commute)
    finally show ?case .
  qed simp
  then have "unat (int_of_bytes (be_bytes k (unat x))) = unat x" using assms by simp
  then show ?thesis by (simp add: word_unat_eq_iff)
qed

section \<open>Exact codecs\<close>

named_theorems abi_iff "what the parsing functions accept"

lemma SkipPadding_iff [abi_iff]: "AbiParserSkipPadding True n s = Inr r \<longleftrightarrow> s = replicate n 0 @ r"
proof (induction n arbitrary: s)
  case (Suc n)
  then show ?case by (cases s) auto
qed simp

lemma CopyBytes_iff [abi_iff]: "AbiParserCopyBytes n s = Inr (d, r) \<longleftrightarrow> length d = n \<and> s = d @ r"
proof (induction n s arbitrary: d rule: AbiParserCopyBytes.induct)
  case (3 n b s)
  then show ?case by (cases d) (auto simp: sum_simps)
qed auto

lemma CopySkip_iff [abi_iff]:
  "AbiParserCopyBytesThenSkip True n k s = Inr (d, r) \<longleftrightarrow> length d = n \<and> s = d @ replicate k 0 @ r"
  by (auto simp: AbiParserCopyBytesThenSkip_def sum_simps abi_iff)

lemma int_loop_iff [abi_iff]:
  "abi_int_loop n res s = Inr (v, r) \<longleftrightarrow> (\<exists>bs. length bs = n \<and> s = bs @ r \<and> v = res OR int_of_bytes bs)"
proof (induction n res s rule: abi_int_loop.induct)
  case (3 i res val s)
  show ?case
  proof
    assume "abi_int_loop (Suc i) res (val # s) = Inr (v, r)"
    then obtain bs where "length bs = i" "s = bs @ r" "v = (res OR push_bit (i * 8) (ucast val)) OR int_of_bytes bs"
      using 3 by auto
    then show "\<exists>bs. length bs = Suc i \<and> val # s = bs @ r \<and> v = res OR int_of_bytes bs"
      by (intro exI [of _ "val # bs"]) (simp add: or.assoc)
  next
    assume "\<exists>bs. length bs = Suc i \<and> val # s = bs @ r \<and> v = res OR int_of_bytes bs"
    then obtain bs' where bs': "length bs' = Suc i" "val # s = bs' @ r" "v = res OR int_of_bytes bs'" by blast
    then obtain bs where "bs' = val # bs" by (cases bs') simp_all
    with bs' have "length bs = i" "s = bs @ r" "v = res OR int_of_bytes (val # bs)" by simp_all
    then show "abi_int_loop (Suc i) res (val # s) = Inr (v, r)"
      unfolding abi_int_loop.simps 3 by (intro exI [of _ bs]) (simp add: or.assoc)
  qed
qed auto

lemma consumed_le: "sk_consumedSize r \<le> 8"
  by (cases r) auto

lemma Integer_iff [abi_iff]:
  "Integer_ToPrimitive r s = Inr (v, t, k) \<longleftrightarrow>
     unat v < 256 ^ sk_consumedSize r \<and> s = abi_word (unat v) @ t \<and> k = 1"
proof -
  let ?n = "sk_consumedSize r"
  have "(\<exists>bs. length bs = ?n \<and> s = replicate (32 - ?n) 0 @ bs @ t \<and> v = int_of_bytes bs) \<longleftrightarrow>
      unat v < 256 ^ ?n \<and> s = abi_word (unat v) @ t" (is "?l \<longleftrightarrow> ?r")
  proof
    assume ?l
    then obtain bs where bs: "length bs = ?n" "s = replicate (32 - ?n) 0 @ bs @ t" "v = int_of_bytes bs" by blast
    then have "unat v < 256 ^ ?n" "be_bytes ?n (unat v) = bs"
      using int_of_bytes_less [of bs] be_bytes_int_of_bytes [of bs] consumed_le [of r] by simp_all
    then show ?r using bs(2) abi_word_small [of "unat v" ?n] consumed_le [of r] by simp
  next
    assume ?r
    then show ?l
      using int_of_bytes_be_bytes [of v ?n] abi_word_small [of "unat v" ?n] consumed_le [of r]
      by (intro exI [of _ "be_bytes ?n (unat v)"]) simp
  qed
  then show ?thesis by (auto simp: Integer_ToPrimitive_def sum_simps abi_iff)
qed

locale exact_codec =
  fixes parse :: "bytes \<Rightarrow> 'a codec_result" and typed :: "'a \<Rightarrow> bool" and enc :: "'a \<Rightarrow> bytes"
  assumes parse_iff: "length s < 2 ^ 64 \<Longrightarrow>
      parse s = Inr (v, r, k) \<longleftrightarrow> typed v \<and> s = enc v @ r \<and> k = of_nat (length (enc v) div 32)"
    and chunks: "typed v \<Longrightarrow> 32 dvd length (enc v)"
begin

text \<open>The chunks counted with wrap-around, as offsets, are the offsets of the encoding.\<close>

lemma parse_chunk:
  assumes "parse s = Inr (v, r, k)" and "length s < 2 ^ 64"
  shows "typed v" "s = enc v @ r" "32 * unat k = length (enc v)" "length r < 2 ^ 64"
proof -
  have p: "typed v" "s = enc v @ r" "k = of_nat (length (enc v) div 32)"
    using assms parse_iff by blast+
  then have "unat k = length (enc v) div 32"
    using assms(2) size_back [of "length (enc v) div 32"] by (simp add: div_less_iff_less_mult)
  then show "typed v" "s = enc v @ r" "32 * unat k = length (enc v)" "length r < 2 ^ 64"
    using p chunks [OF p(1)] assms(2) by simp_all
qed

lemma heads_iff:
  "length s < 2 ^ 64 \<Longrightarrow> list_heads parse n s t = Inr (xs, r, t') \<longleftrightarrow>
     length xs = n \<and> (\<forall>x\<in>set xs. typed x) \<and> s = concat (map enc xs) @ r
       \<and> t' = t + of_nat (length (concat (map enc xs)) div 32)"
proof (induction n arbitrary: s t xs)
  case 0
  then show ?case by auto
next
  case (Suc n)
  show ?case
  proof
    assume "list_heads parse (Suc n) s t = Inr (xs, r, t')"
    then obtain x s' k ys where x: "parse s = Inr (x, s', k)"
      and ys: "list_heads parse n s' (t + k) = Inr (ys, r, t')" "xs = x # ys"
      by (auto simp: sum_simps)
    note p = parse_chunk [OF x Suc.prems]
    have q: "length ys = n \<and> (\<forall>x\<in>set ys. typed x) \<and> s' = concat (map enc ys) @ r
        \<and> t' = t + k + of_nat (length (concat (map enc ys)) div 32)"
      using Suc.IH [OF p(4)] ys(1) by blast
    have "length (concat (map enc xs)) div 32 = unat k + length (concat (map enc ys)) div 32"
      using ys(2) p(3) [symmetric] by simp
    then show "length xs = Suc n \<and> (\<forall>x\<in>set xs. typed x) \<and> s = concat (map enc xs) @ r
        \<and> t' = t + of_nat (length (concat (map enc xs)) div 32)"
      using p q ys(2) by (simp add: add.assoc)
  next
    assume r: "length xs = Suc n \<and> (\<forall>x\<in>set xs. typed x) \<and> s = concat (map enc xs) @ r
        \<and> t' = t + of_nat (length (concat (map enc xs)) div 32)"
    then obtain x ys where xs: "xs = x # ys" by (cases xs) simp_all
    let ?s' = "concat (map enc ys) @ r" and ?k = "of_nat (length (enc x) div 32) :: u64"
    have x: "parse s = Inr (x, ?s', ?k)" using r xs Suc.prems by (simp add: parse_iff)
    note p = parse_chunk [OF x Suc.prems]
    have "length (concat (map enc xs)) div 32 = length (enc x) div 32 + length (concat (map enc ys)) div 32"
      using xs chunks [OF p(1)] by (simp add: div_plus_div_distrib_dvd_left)
    then have "list_heads parse n ?s' (t + ?k) = Inr (ys, r, t')"
      using Suc.IH [OF p(4)] r xs by (simp add: add.assoc)
    then show "list_heads parse (Suc n) s t = Inr (xs, r, t')" using x xs by simp
  qed
qed

lemma concat_chunks: "\<forall>x\<in>set xs. typed x \<Longrightarrow> 32 dvd length (concat (map enc xs))"
  by (induction xs) (simp_all add: chunks)

lemma tails_iff:
  "32 * n + length s < 2 ^ 64 \<Longrightarrow> list_tails parse hs s (of_nat n) = Inr (xs, r, t') \<longleftrightarrow>
     (\<forall>x\<in>set xs. typed x) \<and> s = concat (map enc xs) @ r \<and> hs = map of_nat (abi_offsets (32 * n) (map enc xs))
       \<and> t' = of_nat (n + length (concat (map enc xs)) div 32)"
proof (induction hs arbitrary: s n xs)
  case Nil
  then show ?case by (cases xs) auto
next
  case (Cons h hs)
  have s: "length s < 2 ^ 64" using Cons.prems by simp
  show ?case
  proof
    assume "list_tails parse (h # hs) s (of_nat n) = Inr (xs, r, t')"
    then obtain x s' k ys where x: "parse s = Inr (x, s', k)" and h: "h = of_nat n * 32"
      and ys: "list_tails parse hs s' (of_nat n + k) = Inr (ys, r, t')" "xs = x # ys"
      by (auto simp: sum_simps split: if_splits)
    note p = parse_chunk [OF x s]
    let ?n = "n + unat k"
    have n: "of_nat n + k = of_nat ?n" "32 * ?n = 32 * n + length (enc x)" using p(3) by simp_all
    have "32 * ?n + length s' < 2 ^ 64" using Cons.prems p(2) n(2) by simp
    note IH = Cons.IH [OF this, of ys]
    have "list_tails parse hs s' (of_nat ?n) = Inr (ys, r, t')" using ys(1) unfolding n(1) .
    then have q: "(\<forall>x\<in>set ys. typed x) \<and> s' = concat (map enc ys) @ r
        \<and> hs = map of_nat (abi_offsets (32 * ?n) (map enc ys)) \<and> t' = of_nat (?n + length (concat (map enc ys)) div 32)"
      unfolding IH .
    have "length (concat (map enc xs)) div 32 = unat k + length (concat (map enc ys)) div 32"
      using ys(2) p(3) [symmetric] by simp
    then show "(\<forall>x\<in>set xs. typed x) \<and> s = concat (map enc xs) @ r
        \<and> h # hs = map of_nat (abi_offsets (32 * n) (map enc xs)) \<and> t' = of_nat (n + length (concat (map enc xs)) div 32)"
      using p q ys(2) h n(2) by (simp add: add.assoc mult.commute)
  next
    assume r: "(\<forall>x\<in>set xs. typed x) \<and> s = concat (map enc xs) @ r
        \<and> h # hs = map of_nat (abi_offsets (32 * n) (map enc xs)) \<and> t' = of_nat (n + length (concat (map enc xs)) div 32)"
    then obtain x ys where xs: "xs = x # ys" by (cases xs) simp_all
    obtain k where x: "parse s = Inr (x, concat (map enc ys) @ r, k)" using r xs s by (simp add: parse_iff)
    note p = parse_chunk [OF x s]
    let ?n = "n + unat k"
    have n: "of_nat n + k = of_nat ?n" "32 * ?n = 32 * n + length (enc x)" using p(3) by simp_all
    have l: "length (concat (map enc xs)) div 32 = unat k + length (concat (map enc ys)) div 32"
      using xs p(3) [symmetric] by simp
    have "32 * ?n + length (concat (map enc ys) @ r) < 2 ^ 64" using Cons.prems p(2) n(2) by simp
    note IH = Cons.IH [OF this, of ys]
    have o: "h # hs = map of_nat (abi_offsets (32 * n) (map enc xs))"
      and t: "t' = of_nat (n + length (concat (map enc xs)) div 32)" using r by blast+
    have "hs = map of_nat (abi_offsets (32 * ?n) (map enc ys))" using o xs n(2) by simp
    moreover have "t' = of_nat (?n + length (concat (map enc ys)) div 32)" using t unfolding l by (simp only: add.assoc)
    moreover have "\<forall>x\<in>set ys. typed x" using r xs by simp
    ultimately have "list_tails parse hs (concat (map enc ys) @ r) (of_nat ?n) = Inr (ys, r, t')"
      unfolding IH by blast
    moreover have "h = of_nat n * 32" using o xs by (simp add: mult.commute)
    ultimately show "list_tails parse (h # hs) s (of_nat n) = Inr (xs, r, t')"
      by (simp only: list_tails.simps x n(1) bindE_Inr prod.case xs simp_thms if_False)
  qed
qed

end

interpretation integer: exact_codec "Integer_ToPrimitive r" "\<lambda>v. unat v < 256 ^ sk_consumedSize r"
    "\<lambda>v. abi_word (unat v)" for r
  by unfold_locales (auto simp: Integer_iff)

lemma Bool_exact: "exact_codec Bool_ToPrimitive (\<lambda>_. True) (\<lambda>b. abi_word (of_bool b))"
proof
  fix s :: bytes and v r k
  show "Bool_ToPrimitive s = Inr (v, r, k) \<longleftrightarrow>
      True \<and> s = abi_word (of_bool v) @ r \<and> k = of_nat (length (abi_word (of_bool v)) div 32)"
  proof
    assume "Bool_ToPrimitive s = Inr (v, r, k)"
    then obtain x where x: "Integer_ToPrimitive UInt8 s = Inr (x, r, k)"
      "(if x = 1 then Inr True else if x = 0 then Inr False
        else Inl (Exception ''ABI parser - invalid bool value'')) = Inr v"
      by (auto simp: Bool_ToPrimitive_def sum_simps)
    then have "x = of_bool v" by (auto split: if_splits)
    with x(1) show "True \<and> s = abi_word (of_bool v) @ r \<and> k = of_nat (length (abi_word (of_bool v)) div 32)"
      by (simp add: Integer_iff)
  next
    assume "True \<and> s = abi_word (of_bool v) @ r \<and> k = of_nat (length (abi_word (of_bool v)) div 32)"
    then have "Integer_ToPrimitive UInt8 s = Inr (of_bool v, r, k)" by (simp add: Integer_iff)
    then show "Bool_ToPrimitive s = Inr (v, r, k)" by (simp add: Bool_ToPrimitive_def)
  qed
qed simp

lemma pad_arith: "32 * ((n + 31) div 32) - n = (32 - n mod 32) mod (32 :: nat)"
proof -
  have "n = 32 * (n div 32) + n mod 32" "n mod 32 < 32" by simp_all
  then obtain q m where n: "n = 32 * q + m" "m < 32" by blast
  show ?thesis
  proof (cases "m = 0")
    case False
    then have "(n + 31) div 32 = q + 1" using n by simp
    then show ?thesis using n False by simp
  qed (use n in simp)
qed

lemma pad_ge: "n \<le> 32 * ((n + 31) div (32 :: nat))"
  by presburger

lemma length_abi_pad: "length (abi_pad b) = 32 * ((length b + 31) div 32)"
  unfolding abi_pad_def length_append length_replicate pad_arith [symmetric] using pad_ge by (rule le_add_diff_inverse)

text \<open>Below the limit of \<open>reserve\<close> the number of chunks and the padding do not wrap.\<close>

lemma Bytes_padding:
  assumes "len \<le> (0x7FFFFFFFFFFFFFFF :: u64)"
  shows "unat (AbiCeilingDiv len sk_chunkSize) = (unat len + 31) div 32"
    and "unat (AbiCeilingDiv len sk_chunkSize * sk_chunkSize - len) = (32 - unat len mod 32) mod 32"
proof -
  have l: "unat len < 2 ^ 63" using assms by (simp add: word_le_nat_alt)
  have "unat (len + 31) = unat len + 31" using l by (subst unat_add_no_wrap) simp_all
  then show c: "unat (AbiCeilingDiv len sk_chunkSize) = (unat len + 31) div 32"
    by (simp add: AbiCeilingDiv_def unat_div)
  have "32 * ((unat len + 31) div 32) \<le> unat len + 31" by simp
  then have "unat (AbiCeilingDiv len sk_chunkSize * sk_chunkSize) = 32 * ((unat len + 31) div 32)"
    using l c by (simp add: unat_word_ariths)
  then show "unat (AbiCeilingDiv len sk_chunkSize * sk_chunkSize - len) = (32 - unat len mod 32) mod 32"
    using pad_ge [of "unat len"] pad_arith [of "unat len"] by (subst unat_sub_no_wrap) simp_all
qed

lemma Bytes_exact: "exact_codec Bytes_ToPrimitive (\<lambda>b. length b < 2 ^ 63) (\<lambda>b. abi_word (length b) @ abi_pad b)"
proof
  fix s b r :: bytes and k
  assume "length s < 2 ^ 64"
  show "Bytes_ToPrimitive s = Inr (b, r, k) \<longleftrightarrow> length b < 2 ^ 63 \<and>
      s = (abi_word (length b) @ abi_pad b) @ r \<and> k = of_nat (length (abi_word (length b) @ abi_pad b) div 32)"
  proof
    assume "Bytes_ToPrimitive s = Inr (b, r, k)"
    then obtain len where len: "len \<le> 0x7FFFFFFFFFFFFFFF" "s = abi_word (unat len) @ b @
        replicate (unat (AbiCeilingDiv len sk_chunkSize * sk_chunkSize - len)) 0 @ r"
      "length b = unat len" "k = 1 + AbiCeilingDiv len sk_chunkSize"
      by (auto simp: Bytes_ToPrimitive_def Let_def sum_simps abi_iff vector_reserve_def)
    note p = Bytes_padding [OF len(1)]
    have "AbiCeilingDiv len sk_chunkSize = of_nat ((length b + 31) div 32)"
      using p(1) len(3) by (metis of_nat_unat ucast_id)
    then show "length b < 2 ^ 63 \<and> s = (abi_word (length b) @ abi_pad b) @ r
        \<and> k = of_nat (length (abi_word (length b) @ abi_pad b) div 32)"
      using len p by (simp add: length_abi_pad word_le_nat_alt) (simp add: abi_pad_def)
  next
    assume r: "length b < 2 ^ 63 \<and> s = (abi_word (length b) @ abi_pad b) @ r
        \<and> k = of_nat (length (abi_word (length b) @ abi_pad b) div 32)"
    let ?len = "of_nat (length b) :: u64"
    have u: "unat ?len = length b" using r by (intro size_back) simp
    then have le: "?len \<le> 0x7FFFFFFFFFFFFFFF" using r by (simp add: word_le_nat_alt)
    note p = Bytes_padding [OF le]
    have "AbiCeilingDiv ?len sk_chunkSize = of_nat ((length b + 31) div 32)"
      using p(1) u by (metis of_nat_unat ucast_id)
    then have "k = 1 + AbiCeilingDiv ?len sk_chunkSize" using r by (simp add: length_abi_pad)
    moreover have "Integer_ToPrimitive UInt64 s = Inr (?len, abi_pad b @ r, 1)"
      using r u by (simp add: Integer_iff)
    moreover have "AbiParserCopyBytesThenSkip True (length b)
        (unat (AbiCeilingDiv ?len sk_chunkSize * sk_chunkSize - ?len)) (abi_pad b @ r) = Inr (b, r)"
      using p(2) u by (simp add: abi_iff) (simp add: abi_pad_def)
    ultimately show "Bytes_ToPrimitive s = Inr (b, r, k)"
      using le u by (simp add: Bytes_ToPrimitive_def Let_def vector_reserve_def)
  qed
qed (simp add: length_abi_pad)

lemma BytesM_exact:
  "exact_codec (BytesM_ToPrimitive n) (\<lambda>b. n \<le> 32 \<and> length b = unat n)
     (\<lambda>b. abi_pad b @ (if b = [] then replicate 32 0 else []))"
proof
  fix s b r :: bytes and k
  assume s: "length s < 2 ^ 64"
  let ?e = "abi_pad b @ (if b = [] then replicate 32 0 else [])"
  have i: "BytesM_ToPrimitive n s = Inr (b, r, k) \<longleftrightarrow> length b = unat n \<and> s = b @ replicate (unat (32 - n)) 0 @ r \<and> k = 1"
    by (auto simp: BytesM_ToPrimitive_def sum_simps abi_iff)
  show "BytesM_ToPrimitive n s = Inr (b, r, k) \<longleftrightarrow>
      (n \<le> 32 \<and> length b = unat n) \<and> s = ?e @ r \<and> k = of_nat (length ?e div 32)"
  proof (cases "n \<le> 32")
    case True
    then have u: "unat n \<le> 32" by (simp add: word_le_nat_alt)
    then have "unat (32 - n) = 32 - unat n" by (subst unat_sub_no_wrap) simp_all
    moreover have "?e = b @ replicate (32 - unat n) 0 \<and> length ?e = 32" if "length b = unat n"
    proof (cases "b = []")
      case False
      then have "0 < unat n" using that by (cases b) simp_all
      then have "unat n mod 32 = (if unat n = 32 then 0 else unat n)" "(32 - unat n) mod 32 = 32 - unat n"
        using u by simp_all
      then show ?thesis using False u that by (simp add: abi_pad_def)
    qed (use that in \<open>simp add: abi_pad_def\<close>)
    ultimately show ?thesis using True i by auto
  next
    case False
    then have "unat (32 - n) = 2 ^ 64 + 32 - unat n"
      by (simp add: unat_sub_if' word_le_nat_alt)
    moreover have "unat n < 2 ^ 64" using unsigned_less [of n, where 'a = nat] by simp
    ultimately have "\<not> (length b = unat n \<and> s = b @ replicate (unat (32 - n)) 0 @ r)" using s by auto
    then show ?thesis using False i by blast
  qed
qed (auto simp: length_abi_pad)

section \<open>Lists\<close>

lemma length_abi_offsets [simp]: "length (abi_offsets k ts) = length ts"
  by (induction ts arbitrary: k) auto

lemma length_words [simp]: "length (concat (map abi_word ns)) = 32 * length ns"
  by (induction ns) auto

lemma offsets_back:
  "k + length (concat ts) < 2 ^ 64 \<Longrightarrow> map (\<lambda>n. unat (of_nat n :: u64)) (abi_offsets k ts) = abi_offsets k ts"
proof (induction ts arbitrary: k)
  case (Cons t ts)
  have "unat (of_nat k :: u64) = k" using Cons.prems by (intro size_back) simp
  moreover have "k + length t + length (concat ts) < 2 ^ 64" using Cons.prems by simp
  ultimately show ?case using Cons.IH by simp
qed simp

context exact_codec begin

lemma static_list_iff:
  assumes "length s < 2 ^ 64"
  shows "List_ToPrimitive False mx parse n s = Inr (xs, r, k) \<longleftrightarrow>
    n \<le> mx \<and> length xs = unat n \<and> (\<forall>x\<in>set xs. typed x) \<and> s = abi_items False (map enc xs) @ r
      \<and> k = of_nat (length (abi_items False (map enc xs)) div 32)"
  using heads_iff [OF assms]
  by (auto simp: List_ToPrimitive_def vector_reserve_def sum_simps abi_items_def)

lemma dynamic_list_iff:
  assumes s: "length s < 2 ^ 64" and mx: "mx \<le> 0x7FFFFFFFFFFFFFFF div 8"
  shows "List_ToPrimitive True mx parse n s = Inr (xs, r, k) \<longleftrightarrow>
    n \<le> mx \<and> length xs = unat n \<and> (\<forall>x\<in>set xs. typed x) \<and> s = abi_items True (map enc xs) @ r
      \<and> k = of_nat (length (abi_items True (map enc xs)) div 32)" (is "?l \<longleftrightarrow> ?r")
proof -
  let ?os = "\<lambda>xs. abi_offsets (32 * unat n) (map enc xs)"
  have heads: "list_heads (Integer_ToPrimitive UInt64) (unat n) s 0 = Inr (hs, s', t) \<longleftrightarrow>
      length hs = unat n \<and> s = concat (map abi_word (map unat hs)) @ s' \<and> t = of_nat (unat n)" for hs s' t
  proof -
    have "unat v < 256 ^ 8" for v :: u64 using unsigned_less [of v, where 'a = nat] by simp
    then have lt: "\<forall>v\<in>set hs. unat v < 256 ^ sk_consumedSize UInt64" by simp
    have len: "length (concat (map (\<lambda>v. abi_word (unat v)) hs)) div 32 = length hs"
      by (induction hs) simp_all
    show ?thesis
      unfolding integer.heads_iff [OF s] map_map o_def len using lt by (simp only: simp_thms add_0) metis
  qed
  show ?thesis
  proof
    assume ?l
    then obtain hs s' where n: "n \<le> mx" and hs: "length hs = unat n" "s = concat (map abi_word (map unat hs)) @ s'"
      and t: "list_tails parse hs s' (of_nat (unat n)) = Inr (xs, r, k)"
      unfolding List_ToPrimitive_def if_True
      by (auto simp: vector_reserve_def bindE_eq_Inr guardE_eq_Inr heads simp del: map_map of_nat_unat)
    have l: "32 * unat n + length s' < 2 ^ 64" using s hs length_words [of "map unat hs"] by simp
    have q: "(\<forall>x\<in>set xs. typed x)" "s' = concat (map enc xs) @ r" "hs = map of_nat (?os xs)"
      "k = of_nat (unat n + length (concat (map enc xs)) div 32)"
      using t unfolding tails_iff [OF l] by blast+
    have "map unat hs = ?os xs"
      unfolding q(3) map_map o_def by (rule offsets_back) (use l q(2) in simp)
    moreover have len: "length xs = unat n" using hs(1) q(3) by simp
    ultimately show ?r
      using n hs(2) q(1,2,4) by (simp add: abi_items_def)
  next
    assume r: ?r
    define hs :: "u64 list" where "hs = map of_nat (?os xs)"
    let ?s' = "concat (map enc xs) @ r"
    have sr: "s = concat (map abi_word (?os xs)) @ ?s'" using r by (simp add: abi_items_def)
    have l: "32 * unat n + length ?s' < 2 ^ 64" using s sr r by simp
    have "map unat hs = ?os xs"
      unfolding hs_def map_map o_def by (rule offsets_back) (use l in simp)
    then have h: "list_heads (Integer_ToPrimitive UInt64) (unat n) s 0 = Inr (hs, ?s', of_nat (unat n))"
      unfolding heads using sr r by (simp add: hs_def)
    have "k = of_nat (unat n + length (concat (map enc xs)) div 32)"
      using r by (simp add: abi_items_def)
    then have "list_tails parse hs ?s' (of_nat (unat n)) = Inr (xs, r, k)"
      unfolding tails_iff [OF l] using r hs_def by blast
    moreover have "n \<le> 0x7FFFFFFFFFFFFFFF div 8" using r mx by (metis order_trans)
    ultimately show ?l
      using h r by (simp only: List_ToPrimitive_def if_True vector_reserve_def guardE_True bindE_Inr prod.case)
  qed
qed

lemma items_chunks: "\<forall>x\<in>set xs. typed x \<Longrightarrow> 32 dvd length (abi_items d (map enc xs))"
  using concat_chunks by (simp add: abi_items_def)

lemma List_exact:
  assumes "mx \<le> 0x7FFFFFFFFFFFFFFF div 8 \<or> \<not> d"
  shows "exact_codec (List_ToPrimitive d mx parse n)
     (\<lambda>xs. n \<le> mx \<and> length xs = unat n \<and> (\<forall>x\<in>set xs. typed x)) (\<lambda>xs. abi_items d (map enc xs))"
  using assms static_list_iff dynamic_list_iff items_chunks by unfold_locales (cases d; simp)+

lemma DynList_exact:
  assumes mx: "mx \<le> 0x7FFFFFFFFFFFFFFF div 8 \<or> \<not> d"
  shows "exact_codec (DynList_ToPrimitive d mx parse)
     (\<lambda>xs. length xs \<le> unat mx \<and> (\<forall>x\<in>set xs. typed x)) (\<lambda>xs. abi_word (length xs) @ abi_items d (map enc xs))"
proof
  fix s r :: bytes and xs k
  assume s: "length s < 2 ^ 64"
  let ?e = "abi_items d (map enc xs)"
  note item = exact_codec.parse_iff [OF List_exact [OF mx]]
  show "DynList_ToPrimitive d mx parse s = Inr (xs, r, k) \<longleftrightarrow>
      (length xs \<le> unat mx \<and> (\<forall>x\<in>set xs. typed x)) \<and> s = (abi_word (length xs) @ ?e) @ r
        \<and> k = of_nat (length (abi_word (length xs) @ ?e) div 32)"
  proof
    assume "DynList_ToPrimitive d mx parse s = Inr (xs, r, k)"
    then obtain len s' k' where len: "s = abi_word (unat len) @ s'" "k = 1 + k'"
      "List_ToPrimitive d mx parse len s' = Inr (xs, r, k')"
      by (auto simp: DynList_ToPrimitive_def sum_simps Integer_iff)
    have "length s' < 2 ^ 64" using s len(1) by simp
    moreover have "length (abi_word (length xs) @ ?e) div 32 = Suc (length ?e div 32)"
      using div_add_self1 [of 32 "length ?e"] by simp
    ultimately show "(length xs \<le> unat mx \<and> (\<forall>x\<in>set xs. typed x)) \<and>
        s = (abi_word (length xs) @ ?e) @ r \<and> k = of_nat (length (abi_word (length xs) @ ?e) div 32)"
      using len(1,2) len(3) [unfolded item [OF \<open>length s' < 2 ^ 64\<close>]] by (simp add: word_le_nat_alt)
  next
    assume r: "(length xs \<le> unat mx \<and> (\<forall>x\<in>set xs. typed x)) \<and>
        s = (abi_word (length xs) @ ?e) @ r \<and> k = of_nat (length (abi_word (length xs) @ ?e) div 32)"
    let ?len = "of_nat (length xs) :: u64"
    have "unat mx < 2 ^ 64" using unsigned_less [of mx, where 'a = nat] by simp
    then have u: "unat ?len = length xs" using r by (intro size_back) simp
    have "length (?e @ r) < 2 ^ 64" using s r by simp
    then have "List_ToPrimitive d mx parse ?len (?e @ r) = Inr (xs, r, of_nat (length ?e div 32))"
      using r u by (simp add: item word_le_nat_alt)
    moreover have "Integer_ToPrimitive UInt64 s = Inr (?len, ?e @ r, 1)" using r u
      by (simp add: Integer_iff) (use unsigned_less [of ?len, where 'a = nat] u in simp)
    moreover have "length (abi_word (length xs) @ ?e) div 32 = Suc (length ?e div 32)"
      using div_add_self1 [of 32 "length ?e"] by simp
    ultimately show "DynList_ToPrimitive d mx parse s = Inr (xs, r, k)"
      using r by (simp add: DynList_ToPrimitive_def)
  qed
qed (use items_chunks in simp)

lemma map_value_exact:
  assumes "inj f" and "\<And>x. typed' (f x) = typed x" and "\<And>x. enc' (f x) = enc x" and "\<And>v. typed' v \<Longrightarrow> v \<in> range f"
  shows "exact_codec (\<lambda>s. map_value f (parse s)) typed' enc'"
proof
  fix s r :: bytes and v k
  assume s: "length s < 2 ^ 64"
  have m: "map_value f (parse s) = Inr (v, r, k) \<longleftrightarrow> (\<exists>x. v = f x \<and> parse s = Inr (x, r, k))"
    by (auto simp: map_value_def sum_simps)
  show "map_value f (parse s) = Inr (v, r, k) \<longleftrightarrow>
      typed' v \<and> s = enc' v @ r \<and> k = of_nat (length (enc' v) div 32)"
  proof (cases "v \<in> range f")
    case True
    then obtain x where "v = f x" by blast
    then show ?thesis
      using m assms(1,2,3) parse_iff [OF s] by (auto simp: inj_eq)
  next
    case False
    then show ?thesis using m assms(4) by blast
  qed
next
  fix v assume v: "typed' v"
  then obtain x where x: "v = f x" using assms(4) by blast
  then have "typed x" using v assms(2) by simp
  then show "32 dvd length (enc' v)" using x assms(3) chunks by simp
qed

end

lemma tail_max_size: "sk_hasTail t \<Longrightarrow> vector_max_size t \<le> 0x7FFFFFFFFFFFFFFF div 8"
  by (cases t) simp_all

lemma Codec_exact: "exact_codec (Codec_ToPrimitive t) (abi_typed t) (abi_enc t)"
proof (induction t)
  case (AbiInteger r)
  have "exact_codec (\<lambda>s. map_value VInt (Integer_ToPrimitive r s)) (abi_typed (AbiInteger r)) (abi_enc (AbiInteger r))"
    by (rule integer.map_value_exact) (auto simp: inj_def elim: abi_typed.elims)
  then show ?case by simp
next
  case AbiBool
  have "exact_codec (\<lambda>s. map_value VBool (Bool_ToPrimitive s)) (abi_typed AbiBool) (abi_enc AbiBool)"
    by (rule exact_codec.map_value_exact [OF Bool_exact]) (auto simp: inj_def elim: abi_typed.elims)
  then show ?case by simp
next
  case (AbiBytesM n)
  have "exact_codec (\<lambda>s. map_value VBytes (BytesM_ToPrimitive n s)) (abi_typed (AbiBytesM n)) (abi_enc (AbiBytesM n))"
    by (rule exact_codec.map_value_exact [OF BytesM_exact]) (auto simp: inj_def elim: abi_typed.elims)
  then show ?case by simp
next
  case AbiBytes
  have "exact_codec (\<lambda>s. map_value VBytes (Bytes_ToPrimitive s)) (abi_typed AbiBytes) (abi_enc AbiBytes)"
    by (rule exact_codec.map_value_exact [OF Bytes_exact]) (auto simp: inj_def elim: abi_typed.elims)
  then show ?case by simp
next
  case (AbiList t len)
  have mx: "vector_max_size t \<le> 0x7FFFFFFFFFFFFFFF div 8 \<or> \<not> sk_hasTail t" using tail_max_size by blast
  show ?case
  proof (cases len)
    case None
    have "exact_codec (\<lambda>s. map_value VList (DynList_ToPrimitive (sk_hasTail t) (vector_max_size t) (Codec_ToPrimitive t) s))
        (abi_typed (AbiList t len)) (abi_enc (AbiList t len))"
      by (rule exact_codec.map_value_exact [OF exact_codec.DynList_exact [OF AbiList mx]])
        (auto simp: inj_def None elim: abi_typed.elims)
    then show ?thesis by (simp add: None)
  next
    case (Some n)
    have "exact_codec (\<lambda>s. map_value VList (List_ToPrimitive (sk_hasTail t) (vector_max_size t) (Codec_ToPrimitive t) n s))
        (abi_typed (AbiList t len)) (abi_enc (AbiList t len))"
      by (rule exact_codec.map_value_exact [OF exact_codec.List_exact [OF AbiList mx, of n]])
        (auto simp: inj_def Some word_le_nat_alt elim: abi_typed.elims)
    then show ?thesis by (simp add: Some)
  qed
qed

interpretation codec: exact_codec "Codec_ToPrimitive t" "abi_typed t" "abi_enc t" for t
  by (rule Codec_exact)

text \<open>The contract data the subscriber services read. For data that ends where it is cut off, the
  parser of a single \<open>bytes\<close> argument returns a message exactly when the data starts with the word of an
  offset within the data and, at the offset, holds the encoding of the message; what else the data
  contains is ignored.\<close>

lemma bytes_argument_iff:
  assumes "length data < 2 ^ 64"
  shows "AbiParser_ToPrimitive AbiBytes data data = Inr (VBytes msg, rest) \<longleftrightarrow>
    (\<exists>offset more. offset \<le> length data \<and> data = abi_word offset @ rest
       \<and> length msg < 2 ^ 63 \<and> drop offset data = abi_word (length msg) @ abi_pad msg @ more)"
proof -
  have tail: "Codec_ToPrimitive AbiBytes (drop n data) = Inr (VBytes msg, r, k) \<longleftrightarrow>
      length msg < 2 ^ 63 \<and> drop n data = abi_word (length msg) @ abi_pad msg @ r
        \<and> k = of_nat (length (abi_word (length msg) @ abi_pad msg) div 32)" for n r k
    using codec.parse_iff [of "drop n data" AbiBytes "VBytes msg"] assms by simp
  have head: "Integer_ToPrimitive UInt64 data = Inr (v, r, k) \<longleftrightarrow> data = abi_word (unat v) @ r \<and> k = 1" for v r k
    using unsigned_less [of v, where 'a = nat] by (simp add: Integer_iff)
  show ?thesis
  proof
    assume "AbiParser_ToPrimitive AbiBytes data data = Inr (VBytes msg, rest)"
    then obtain v r k k' where "Integer_ToPrimitive UInt64 data = Inr (v, rest, k)" "\<not> length data < unat v"
      "Codec_ToPrimitive AbiBytes (drop (unat v) data) = Inr (VBytes msg, r, k')"
      by (auto simp: AbiParser_ToPrimitive_def HeadTail_ToPrimitive_def bindE_eq_Inr split: if_splits
          simp del: Codec_ToPrimitive.simps)
    then show "\<exists>offset more. offset \<le> length data \<and> data = abi_word offset @ rest
       \<and> length msg < 2 ^ 63 \<and> drop offset data = abi_word (length msg) @ abi_pad msg @ more"
      unfolding tail head by (intro exI [of _ "unat v"] exI [of _ r]) simp
  next
    assume "\<exists>offset more. offset \<le> length data \<and> data = abi_word offset @ rest
       \<and> length msg < 2 ^ 63 \<and> drop offset data = abi_word (length msg) @ abi_pad msg @ more"
    then obtain offset more where o: "offset \<le> length data" "data = abi_word offset @ rest"
      "length msg < 2 ^ 63" "drop offset data = abi_word (length msg) @ abi_pad msg @ more" by blast
    have u: "unat (of_nat offset :: u64) = offset" using assms o(1) by (intro size_back) simp
    have "Integer_ToPrimitive UInt64 data = Inr (of_nat offset, rest, 1)" unfolding head u using o(2) by blast
    moreover obtain k where "Codec_ToPrimitive AbiBytes (drop offset data) = Inr (VBytes msg, more, k)"
      using tail [of offset more] o(3,4) by blast
    ultimately show "AbiParser_ToPrimitive AbiBytes data data = Inr (VBytes msg, rest)"
      using o(1) u by (simp add: AbiParser_ToPrimitive_def HeadTail_ToPrimitive_def del: Codec_ToPrimitive.simps)
  qed
qed

section \<open>Properties\<close>

text \<open>C6. The ABI parser accepts the encodings of the ABI specification and nothing else. For every ABI
  type, including nested static and dynamic lists, a codec reads a value from an input exactly when the
  value has the type and the input starts with the value's encoding, and then it stops right after the
  encoding and has counted its 32-byte chunks. The checks of the zero padding and of the offsets leave no
  second encoding of any value, and no length read from the input can make the 64-bit size arithmetic
  wrap.\<close>

theorem abi_codec_exact:
  assumes "length s < 2 ^ 64"
  shows "Codec_ToPrimitive t s = Inr (v, r, k) \<longleftrightarrow>
    abi_typed t v \<and> s = abi_enc t v @ r \<and> k = of_nat (length (abi_enc t v) div 32)"
  using assms by (rule codec.parse_iff)

text \<open>\<open>bytes[]\<close> with the elements 01 and empty.\<close>

definition abi_example :: AbiValue where
  "abi_example = VList [VBytes [1], VBytes []]"

theorem abi_codec_exact_witness:
  "Codec_ToPrimitive (AbiList AbiBytes None) (abi_enc (AbiList AbiBytes None) abi_example @ [7]) = Inr (abi_example, [7], 6)"
proof -
  let ?e = "abi_enc (AbiList AbiBytes None) abi_example"
  have l: "length ?e = 192" by (simp add: abi_example_def abi_items_def length_abi_pad)
  have "abi_typed (AbiList AbiBytes None) abi_example" by (simp add: abi_example_def)
  then show ?thesis
    using abi_codec_exact [of "?e @ [7]" "AbiList AbiBytes None" abi_example "[7]" 6] l by simp
qed

end
