(* ===== verification/DecentHeartbeat.thy ===== *)
theory DecentHeartbeat
  imports Prelude
begin

text \<open>
  \<open>DecentEnclave/Trusted/HeartbeatRecvMgr.hpp\<close> and \<open>HeartbeatEmitterMgr.hpp\<close>: the receiver of the heartbeats of other
  enclaves, which reports whether this enclave may go on, and the list of functions that emit this enclave's own.

  Constraints are shared objects: they have addresses in \<open>constraints\<close>, the map of the manager holds the addresses
  it owns. Sockets are only identified. A receive that was started waits in \<open>waiting\<close> until a message or an error
  arrives; whether its weak pointers can still be locked, and the times that the clock shows, are arguments. The clock
  is the untrusted one of the host, so nothing is assumed about it. The mutexes are not modelled; every operation is
  one step.
\<close>

section \<open>Time constraints\<close>

datatype HeartbeatStatus = Normal | Suspended | Damaged

record HeartbeatTimeConstraint =
  m_lastUpdate :: u64
  m_timeout :: u64
  m_timeoutStatus :: HeartbeatStatus
  m_isDamaged :: bool

definition HeartbeatTimeConstraint_new :: "u64 \<Rightarrow> HeartbeatStatus \<Rightarrow> HeartbeatTimeConstraint" where
  "HeartbeatTimeConstraint_new timeout timeoutStatus =
     \<lparr>m_lastUpdate = 0, m_timeout = timeout, m_timeoutStatus = timeoutStatus, m_isDamaged = False\<rparr>"

definition InitTime :: "u64 \<Rightarrow> HeartbeatTimeConstraint \<Rightarrow> HeartbeatTimeConstraint" where
  "InitTime currTime c = c\<lparr>m_lastUpdate := currTime\<rparr>"

definition OnHeartbeatRecv :: "u64 \<Rightarrow> HeartbeatTimeConstraint \<Rightarrow> HeartbeatTimeConstraint" where
  "OnHeartbeatRecv currTime c = c\<lparr>m_lastUpdate := currTime\<rparr>"

definition CheckStatus :: "u64 \<Rightarrow> HeartbeatTimeConstraint \<Rightarrow> HeartbeatStatus \<times> HeartbeatTimeConstraint" where
  "CheckStatus currTime c =
     (if m_isDamaged c then (Damaged, c)
      else
        let elapsed = currTime - m_lastUpdate c in
        if elapsed > m_timeout c then
          let c = (if m_timeoutStatus c = Damaged then c\<lparr>m_isDamaged := True\<rparr> else c)
          in (m_timeoutStatus c, c)
        else (Normal, c))"

section \<open>The receiver\<close>

record HeartbeatRecvMgr =
  constraints :: "HeartbeatTimeConstraint list"
  m_constraintMap :: "nat list"
  m_socketMap :: "nat list"
  m_status :: HeartbeatStatus
  waiting :: "(nat \<times> nat) list"

definition HeartbeatRecvMgr_new :: "HeartbeatTimeConstraint list \<Rightarrow> HeartbeatRecvMgr" where
  "HeartbeatRecvMgr_new cs =
     \<lparr>constraints = cs, m_constraintMap = [], m_socketMap = [], m_status = Normal, waiting = []\<rparr>"

definition AddConstraint :: "nat \<Rightarrow> HeartbeatRecvMgr \<Rightarrow> HeartbeatRecvMgr" where
  "AddConstraint constraintId m =
     (if constraintId \<in> set (m_constraintMap m) then m else m\<lparr>m_constraintMap := m_constraintMap m @ [constraintId]\<rparr>)"

definition RemoveConstraint :: "nat \<Rightarrow> HeartbeatRecvMgr \<Rightarrow> HeartbeatRecvMgr" where
  "RemoveConstraint constraintId m = m\<lparr>m_constraintMap := removeAll constraintId (m_constraintMap m)\<rparr>"

definition AddSocket :: "nat \<Rightarrow> HeartbeatRecvMgr \<Rightarrow> string + HeartbeatRecvMgr" where
  "AddSocket socketId m =
     (if socketId \<in> set (m_socketMap m) then Inl ''The given socket is already in the map''
      else Inr (m\<lparr>m_socketMap := m_socketMap m @ [socketId]\<rparr>))"

definition RemoveSocket :: "nat \<Rightarrow> HeartbeatRecvMgr \<Rightarrow> HeartbeatRecvMgr" where
  "RemoveSocket socketId m = m\<lparr>m_socketMap := removeAll socketId (m_socketMap m)\<rparr>"

definition StartWaiting :: "nat \<Rightarrow> nat \<Rightarrow> HeartbeatRecvMgr \<Rightarrow> HeartbeatRecvMgr" where
  "StartWaiting constraintId socketId m = m\<lparr>waiting := waiting m @ [(constraintId, socketId)]\<rparr>"

text \<open>The result keeps the state that an exception leaves behind.\<close>

definition AddRecv :: "u64 \<Rightarrow> nat \<Rightarrow> nat \<Rightarrow> bool \<Rightarrow> HeartbeatRecvMgr \<Rightarrow> (string + unit) \<times> HeartbeatRecvMgr" where
  "AddRecv currTime constraintId socketId initConstraint m =
     (let m = AddConstraint constraintId m in
      case AddSocket socketId m of
        Inl e \<Rightarrow> (Inl e, m)
      | Inr m \<Rightarrow>
          let m = (if initConstraint
                   then m\<lparr>constraints := (constraints m)[constraintId := InitTime currTime (constraints m ! constraintId)]\<rparr>
                   else m)
          in (Inr (), StartWaiting constraintId socketId m))"

definition RemoveRecv :: "nat \<Rightarrow> nat \<Rightarrow> HeartbeatRecvMgr \<Rightarrow> HeartbeatRecvMgr" where
  "RemoveRecv constraintId socketId m = RemoveSocket socketId (RemoveConstraint constraintId m)"

text \<open>The loop over the constraints: the status so far is \<open>Normal\<close> or \<open>Suspended\<close>, a damaged constraint ends it.\<close>

fun check_constraints :: "u64 \<Rightarrow> nat list \<Rightarrow> HeartbeatStatus \<Rightarrow> HeartbeatTimeConstraint list
    \<Rightarrow> HeartbeatStatus \<times> HeartbeatTimeConstraint list" where
  "check_constraints currTimestamp [] cleanStatus cs = (cleanStatus, cs)"
| "check_constraints currTimestamp (p # ps) cleanStatus cs =
     (let (status, c) = CheckStatus currTimestamp (cs ! p);
          cs = cs[p := c]
      in if status = Damaged then (Damaged, cs)
         else if status = Suspended then check_constraints currTimestamp ps Suspended cs
         else check_constraints currTimestamp ps cleanStatus cs)"

definition GetStatus :: "u64 \<Rightarrow> HeartbeatRecvMgr \<Rightarrow> HeartbeatStatus \<times> HeartbeatRecvMgr" where
  "GetStatus currTimestamp m =
     (if m_status m = Damaged then (Damaged, m)
      else
        let (status, cs) = check_constraints currTimestamp (m_constraintMap m) Normal (constraints m)
        in (status, m\<lparr>constraints := cs, m_status := status\<rparr>))"

text \<open>What a waiting receive does when a message or an error arrives: \<open>locked\<close> says whether both weak pointers
  could be locked; the clock is read twice; the handler of the message may throw.\<close>

definition wrappedRecv :: "nat \<Rightarrow> nat \<Rightarrow> bool \<Rightarrow> bool \<Rightarrow> u64 \<Rightarrow> u64 \<Rightarrow> (string + unit) \<Rightarrow> HeartbeatRecvMgr
    \<Rightarrow> (string + unit) \<times> HeartbeatRecvMgr" where
  "wrappedRecv constraintId socketId hasErrorOccurred locked currTimestamp currTimestamp2 recvFunc m =
     (let m = m\<lparr>waiting := remove1 (constraintId, socketId) (waiting m)\<rparr> in
      if \<not> hasErrorOccurred \<and> locked then
        let (hStatus, c) = CheckStatus currTimestamp (constraints m ! constraintId);
            m = m\<lparr>constraints := (constraints m)[constraintId := c]\<rparr>
        in if hStatus \<noteq> Damaged then
             let m = m\<lparr>constraints := (constraints m)[constraintId :=
                         OnHeartbeatRecv currTimestamp2 (constraints m ! constraintId)]\<rparr>
             in case recvFunc of
                  Inl e \<Rightarrow> (Inl e, m)
                | Inr _ \<Rightarrow> (Inr (), StartWaiting constraintId socketId m)
           else (Inr (), RemoveSocket socketId m)
      else (Inr (), RemoveSocket socketId m))"

section \<open>The emitters\<close>

definition AddEmitter :: "'e \<Rightarrow> 'e list \<Rightarrow> 'e list" where
  "AddEmitter emitter emitterList = emitterList @ [emitter]"

text \<open>The loop over the swapped out list: an emitter that throws is erased.\<close>

fun emit_loop :: "('e \<Rightarrow> 's \<Rightarrow> ('x + 'r) \<times> 's) \<Rightarrow> 'e list \<Rightarrow> 's \<Rightarrow> 'e list \<times> 's" where
  "emit_loop call [] s = ([], s)"
| "emit_loop call (it # its) s =
     (case call it s of
        (Inr _, s) \<Rightarrow> (let (kept, s) = emit_loop call its s in (it # kept, s))
      | (Inl e, s) \<Rightarrow> emit_loop call its s)"

text \<open>\<open>newly_added\<close> are the emitters that other threads add while the loop runs.\<close>

definition EmitAll :: "('e \<Rightarrow> 's \<Rightarrow> ('x + 'r) \<times> 's) \<Rightarrow> 'e list \<Rightarrow> 'e list \<Rightarrow> 's \<Rightarrow> 'e list \<times> 's" where
  "EmitAll call newly_added emitterList s =
     (let tmpList = emitterList;
          (tmpList, s) = emit_loop call tmpList s;
          emitterList = [] @ newly_added;
          (emitterList, tmpList) = (tmpList, emitterList)
      in (emitterList @ tmpList, s))"

section \<open>Runs\<close>

datatype RecvStep =
    StepAddRecv u64 nat nat bool
  | StepRemoveRecv nat nat
  | StepGetStatus u64
  | StepRecv nat nat bool bool u64 u64 "string + unit"

fun recv_step :: "RecvStep \<Rightarrow> HeartbeatRecvMgr \<Rightarrow> HeartbeatRecvMgr" where
  "recv_step (StepAddRecv now c s i) m = snd (AddRecv now c s i m)"
| "recv_step (StepRemoveRecv c s) m = RemoveRecv c s m"
| "recv_step (StepGetStatus now) m = snd (GetStatus now m)"
| "recv_step (StepRecv c s err locked now now2 f) m = snd (wrappedRecv c s err locked now now2 f m)"

text \<open>Too late: by the 64-bit subtraction of the code.\<close>

definition late :: "u64 \<Rightarrow> HeartbeatTimeConstraint \<Rightarrow> bool" where
  "late now c \<longleftrightarrow> now - m_lastUpdate c > m_timeout c"

lemma CheckStatus_eq:
  "fst (CheckStatus now c) = (if m_isDamaged c then Damaged else if late now c then m_timeoutStatus c else Normal)"
  "snd (CheckStatus now c) = c\<lparr>m_isDamaged := m_isDamaged c \<or> late now c \<and> m_timeoutStatus c = Damaged\<rparr>"
  by (simp add: CheckStatus_def late_def Let_def)
    (rule HeartbeatTimeConstraint.equality; simp add: CheckStatus_def late_def Let_def)

text \<open>With clock readings and time-outs below \<open>2^63\<close>, a clock that runs backwards counts as late.\<close>

lemma late_nat:
  assumes "unat now < 2 ^ 63" and "unat (m_lastUpdate c) < 2 ^ 63" and "unat (m_timeout c) < 2 ^ 63"
  shows "late now c \<longleftrightarrow> unat now < unat (m_lastUpdate c) \<or> unat (m_lastUpdate c) + unat (m_timeout c) < unat now"
proof (cases "unat (m_lastUpdate c) \<le> unat now")
  case True
  then have "unat (now - m_lastUpdate c) = unat now - unat (m_lastUpdate c)" by (simp add: unat_sub_if')
  with True show ?thesis by (auto simp: late_def word_less_nat_alt)
next
  case False
  then have "unat (now - m_lastUpdate c) = 2 ^ 64 + unat now - unat (m_lastUpdate c)" by (simp add: unat_sub_if')
  with False assms show ?thesis by (auto simp: late_def word_less_nat_alt)
qed

lemma length_check_constraints: "length (snd (check_constraints now ps st cs)) = length cs"
  by (induction ps arbitrary: st cs) (auto simp: Let_def split: prod.splits)

lemma length_recv_step: "length (constraints (recv_step st m)) = length (constraints m)"
  by (cases st) (auto simp: AddRecv_def AddConstraint_def AddSocket_def RemoveRecv_def RemoveSocket_def
      RemoveConstraint_def GetStatus_def wrappedRecv_def StartWaiting_def Let_def length_check_constraints
      split: prod.splits sum.splits if_splits dest: arg_cong [of _ _ "\<lambda>x. length (snd x)"])

section \<open>Damage is final\<close>

definition damaged :: "nat \<Rightarrow> HeartbeatTimeConstraint list \<Rightarrow> bool" where
  "damaged p cs \<longleftrightarrow> p < length cs \<and> m_isDamaged (cs ! p)"

lemma damaged_update:
  "damaged p cs \<Longrightarrow> m_isDamaged c \<or> \<not> m_isDamaged (cs ! q) \<Longrightarrow> damaged p (cs[q := c])"
  by (cases "p = q") (auto simp: damaged_def)

lemma damaged_CheckStatus: "damaged p cs \<Longrightarrow> damaged p (cs[q := snd (CheckStatus now (cs ! q))])"
  by (rule damaged_update) (auto simp: CheckStatus_eq)

lemma damaged_check_constraints: "damaged p cs \<Longrightarrow> damaged p (snd (check_constraints now ps st cs))"
proof (induction ps arbitrary: st cs)
  case (Cons q ps)
  obtain status c where c: "CheckStatus now (cs ! q) = (status, c)" by force
  then have "damaged p (cs[q := c])" using damaged_CheckStatus [OF Cons.prems, of q now] by simp
  then show ?case using Cons.IH c by (simp add: Let_def)
qed simp

lemma damaged_check_status: "damaged p cs \<Longrightarrow> p \<in> set ps \<Longrightarrow> fst (check_constraints now ps st cs) = Damaged"
proof (induction ps arbitrary: st cs)
  case (Cons q ps)
  obtain status c where c: "CheckStatus now (cs ! q) = (status, c)" by force
  then have "damaged p (cs[q := c])" using damaged_CheckStatus [OF Cons.prems(1), of q now] by simp
  moreover have "status = Damaged" if "p = q"
    using that Cons.prems(1) c CheckStatus_eq(1) [of now "cs ! q"] by (simp add: damaged_def)
  ultimately show ?case using Cons c by (auto simp: Let_def)
qed simp

lemma damaged_GetStatus: "damaged p (constraints m) \<Longrightarrow> damaged p (constraints (snd (GetStatus now m)))"
  using damaged_check_constraints [of p "constraints m" now "m_constraintMap m" Normal]
  by (simp add: GetStatus_def case_prod_beta)

lemma wrappedRecv_refuses:
  assumes "damaged c (constraints m)"
  shows "wrappedRecv c s err locked now now2 f m = (Inr (), RemoveSocket s (m\<lparr>waiting := remove1 (c, s) (waiting m)\<rparr>))"
proof -
  have "CheckStatus now (constraints m ! c) = (Damaged, constraints m ! c)"
    using assms by (simp add: CheckStatus_def damaged_def)
  then show ?thesis by (simp add: wrappedRecv_def Let_def)
qed

lemma damaged_wrappedRecv:
  assumes "damaged p (constraints m)"
  shows "damaged p (constraints (snd (wrappedRecv c s err locked now now2 f m)))"
proof (cases "c = p")
  case True
  then show ?thesis using assms wrappedRecv_refuses [of p m] by (simp add: RemoveSocket_def)
next
  case False
  then show ?thesis using assms
    by (auto simp: wrappedRecv_def damaged_def Let_def RemoveSocket_def StartWaiting_def split: prod.splits sum.splits)
qed

lemma damaged_step: "damaged p (constraints m) \<Longrightarrow> damaged p (constraints (recv_step st m))"
proof (cases st)
  case (StepAddRecv now c s i)
  assume "damaged p (constraints m)"
  then show ?thesis using StepAddRecv
    by (cases "c = p")
       (auto simp: AddRecv_def AddConstraint_def AddSocket_def StartWaiting_def InitTime_def damaged_def Let_def)
qed (auto simp: RemoveRecv_def RemoveSocket_def RemoveConstraint_def damaged_GetStatus damaged_wrappedRecv)

lemma status_step: "m_status m = Damaged \<Longrightarrow> m_status (recv_step st m) = Damaged"
  by (cases st) (auto simp: AddRecv_def AddConstraint_def AddSocket_def RemoveRecv_def RemoveSocket_def
      RemoveConstraint_def GetStatus_def wrappedRecv_def StartWaiting_def Let_def split: prod.splits sum.splits)

lemma fold_damaged: "damaged p (constraints m) \<Longrightarrow> damaged p (constraints (fold recv_step steps m))"
  by (induction steps arbitrary: m) (simp_all add: damaged_step)

lemma fold_status: "m_status m = Damaged \<Longrightarrow> m_status (fold recv_step steps m) = Damaged"
  by (induction steps arbitrary: m) (simp_all add: status_step)

section \<open>The status\<close>

lemma check_constraints_status:
  "distinct ps \<Longrightarrow> \<forall>p\<in>set ps. p < length cs \<Longrightarrow> st \<noteq> Damaged \<Longrightarrow>
     fst (check_constraints now ps st cs) =
       (if \<exists>p\<in>set ps. m_isDamaged (cs ! p) \<or> late now (cs ! p) \<and> m_timeoutStatus (cs ! p) = Damaged then Damaged
        else if \<exists>p\<in>set ps. late now (cs ! p) \<and> m_timeoutStatus (cs ! p) = Suspended then Suspended else st)"
proof (induction ps arbitrary: st cs)
  case (Cons q ps)
  obtain status c where c: "CheckStatus now (cs ! q) = (status, c)" by force
  have same: "(cs[q := c]) ! p = cs ! p" if "p \<in> set ps" for p
    using that Cons.prems(1) by (cases "p = q") auto
  have status: "status = (if m_isDamaged (cs ! q) then Damaged else if late now (cs ! q) then m_timeoutStatus (cs ! q) else Normal)"
    using c CheckStatus_eq(1) [of now "cs ! q"] by simp
  show ?case
  proof (cases "status = Damaged")
    case True
    then have "m_isDamaged (cs ! q) \<or> late now (cs ! q) \<and> m_timeoutStatus (cs ! q) = Damaged"
      using status by (auto split: if_splits)
    then show ?thesis using c True by simp
  next
    case False
    define st' where "st' = (if status = Suspended then Suspended else st)"
    have "distinct ps" "\<forall>p\<in>set ps. p < length (cs[q := c])" "st' \<noteq> Damaged"
      using Cons.prems by (simp_all add: st'_def)
    note IH = Cons.IH [OF this]
    have "fst (check_constraints now (q # ps) st cs) = fst (check_constraints now ps st' (cs[q := c]))"
      using c False by (simp add: Let_def st'_def)
    also have "\<dots> = (if \<exists>p\<in>set ps. m_isDamaged (cs ! p) \<or> late now (cs ! p) \<and> m_timeoutStatus (cs ! p) = Damaged then Damaged
        else if \<exists>p\<in>set ps. late now (cs ! p) \<and> m_timeoutStatus (cs ! p) = Suspended then Suspended else st')"
      unfolding IH by (simp only: same cong: bex_cong)
    finally have eq: "fst (check_constraints now (q # ps) st cs) = \<dots>" .
    have nd: "\<not> m_isDamaged (cs ! q)" "\<not> (late now (cs ! q) \<and> m_timeoutStatus (cs ! q) = Damaged)"
      using False status by (auto split: if_splits)
    have "status = Suspended \<longleftrightarrow> late now (cs ! q) \<and> m_timeoutStatus (cs ! q) = Suspended"
      using status nd by (auto split: if_splits)
    then have e2: "(\<exists>p\<in>set (q # ps). late now (cs ! p) \<and> m_timeoutStatus (cs ! p) = Suspended) \<longleftrightarrow>
        status = Suspended \<or> (\<exists>p\<in>set ps. late now (cs ! p) \<and> m_timeoutStatus (cs ! p) = Suspended)" by auto
    have e1: "(\<exists>p\<in>set (q # ps). m_isDamaged (cs ! p) \<or> late now (cs ! p) \<and> m_timeoutStatus (cs ! p) = Damaged) \<longleftrightarrow>
        (\<exists>p\<in>set ps. m_isDamaged (cs ! p) \<or> late now (cs ! p) \<and> m_timeoutStatus (cs ! p) = Damaged)"
      using nd by auto
    show ?thesis unfolding eq e1 e2 st'_def by (cases "status = Suspended") (simp_all only: simp_thms if_True if_False if_cancel)
  qed
qed simp

section \<open>Properties\<close>

text \<open>C8. Damage is final. Once a constraint is damaged, or the manager has reported damage, every later
  call reports it, whatever receivers are added and removed and whatever heartbeats arrive: as long as the manager
  holds the constraint the status is \<open>Damaged\<close>, and a heartbeat for the constraint is refused, its handler is not called
  and its socket is dropped.\<close>

theorem damage_is_final:
  fixes steps :: "RecvStep list"
  assumes "p < length (constraints m)" and "m_isDamaged (constraints m ! p) \<or> m_status m = Damaged"
  defines "m' \<equiv> fold recv_step steps m"
  shows "(m_status m = Damaged \<or> p \<in> set (m_constraintMap m') \<longrightarrow> fst (GetStatus now m') = Damaged)
    \<and> (m_isDamaged (constraints m ! p) \<longrightarrow>
         wrappedRecv p s err locked now now2 f m' = (Inr (), RemoveSocket s (m'\<lparr>waiting := remove1 (p, s) (waiting m')\<rparr>)))"
proof (intro conjI impI)
  assume "m_isDamaged (constraints m ! p)"
  then have "damaged p (constraints m')" unfolding m'_def using assms(1) by (intro fold_damaged) (simp add: damaged_def)
  then show "wrappedRecv p s err locked now now2 f m' = (Inr (), RemoveSocket s (m'\<lparr>waiting := remove1 (p, s) (waiting m')\<rparr>))"
    by (rule wrappedRecv_refuses)
next
  assume a: "m_status m = Damaged \<or> p \<in> set (m_constraintMap m')"
  show "fst (GetStatus now m') = Damaged"
  proof (cases "m_status m = Damaged")
    case True
    then show ?thesis unfolding m'_def by (simp add: GetStatus_def fold_status)
  next
    case False
    then have "damaged p (constraints m)" using assms by (simp add: damaged_def)
    then have "damaged p (constraints m')" unfolding m'_def by (rule fold_damaged)
    then show ?thesis
      using a False damaged_check_status [of p "constraints m'" "m_constraintMap m'" now Normal]
      by (simp add: GetStatus_def case_prod_beta)
  qed
qed

definition late_constraint :: HeartbeatTimeConstraint where
  "late_constraint = \<lparr>m_lastUpdate = 10, m_timeout = 5, m_timeoutStatus = Damaged, m_isDamaged = True\<rparr>"

definition late_mgr :: HeartbeatRecvMgr where
  "late_mgr = (HeartbeatRecvMgr_new [late_constraint])\<lparr>m_constraintMap := [0]\<rparr>"

theorem damage_is_final_witness:
  "fst (GetStatus 21 (fold recv_step [StepGetStatus 16, StepRecv 0 0 False True 20 20 (Inr ())] late_mgr)) = Damaged"
  using damage_is_final [of 0 late_mgr "[StepGetStatus 16, StepRecv 0 0 False True 20 20 (Inr ())]" 21]
  by (simp add: late_mgr_def late_constraint_def HeartbeatRecvMgr_new_def GetStatus_def CheckStatus_def wrappedRecv_def
      RemoveSocket_def)

text \<open>What the status means. If no damage was reported before, \<open>GetStatus\<close> reports damage exactly if a constraint it
  holds is damaged or is one of those that become damaged by a time-out and has timed out, suspension exactly if none is and another one has
  timed out, and otherwise that all is normal. A constraint has timed out when more than the time-out has passed since
  its last heartbeat, or when the untrusted clock shows a time before it.\<close>

theorem GetStatus_correct:
  assumes "m_status m \<noteq> Damaged" and "distinct (m_constraintMap m)"
    and "\<forall>p\<in>set (m_constraintMap m). p < length (constraints m) \<and> unat (m_lastUpdate (constraints m ! p)) < 2 ^ 63
           \<and> unat (m_timeout (constraints m ! p)) < 2 ^ 63"
    and "unat now < 2 ^ 63"
  defines "timed_out \<equiv> \<lambda>c. unat now < unat (m_lastUpdate c) \<or> unat (m_lastUpdate c) + unat (m_timeout c) < unat now"
  shows "fst (GetStatus now m) =
    (if \<exists>p\<in>set (m_constraintMap m). m_isDamaged (constraints m ! p)
          \<or> timed_out (constraints m ! p) \<and> m_timeoutStatus (constraints m ! p) = Damaged then Damaged
     else if \<exists>p\<in>set (m_constraintMap m). timed_out (constraints m ! p) \<and> m_timeoutStatus (constraints m ! p) = Suspended
          then Suspended else Normal)"
proof -
  have "late now (constraints m ! p) \<longleftrightarrow> timed_out (constraints m ! p)" if "p \<in> set (m_constraintMap m)" for p
    using late_nat [OF assms(4)] that assms(3) by (simp add: timed_out_def)
  moreover have "fst (GetStatus now m) = fst (check_constraints now (m_constraintMap m) Normal (constraints m))"
    using assms(1) by (simp add: GetStatus_def case_prod_beta)
  moreover have "\<forall>p\<in>set (m_constraintMap m). p < length (constraints m)" using assms(3) by blast
  note check_constraints_status [OF assms(2) this, of Normal now]
  ultimately show ?thesis
    by (simp only: HeartbeatStatus.simps simp_thms cong: bex_cong)
qed

theorem GetStatus_correct_witness:
  "fst (GetStatus 9 (late_mgr\<lparr>constraints := [late_constraint\<lparr>m_isDamaged := False, m_timeoutStatus := Suspended\<rparr>]\<rparr>)) = Suspended"
  by (subst GetStatus_correct) (simp_all add: late_mgr_def late_constraint_def HeartbeatRecvMgr_new_def)

text \<open>C15. A receiver that is refused damages the enclave. Adding a receiver on a socket that already has one throws, but
  leaves a constraint that was not known before in the map, without a receiver and with the time it was created with, zero: if a time-out damages it, then from
  the time-out on the enclave reports damage for good.\<close>

theorem AddRecv_duplicate:
  assumes "s \<in> set (m_socketMap m)" and "p < length (constraints m)"
    and "constraints m ! p = HeartbeatTimeConstraint_new timeout Damaged" and "timeout < now"
    and "fst (AddRecv t p s True m) = Inl e" and "m' = snd (AddRecv t p s True m)"
  shows "m_socketMap m' = m_socketMap m \<and> p \<in> set (m_constraintMap m') \<and> fst (GetStatus now m') = Damaged"
proof -
  have m': "m' = AddConstraint p m" "p \<in> set (m_constraintMap m')"
    using assms by (auto simp: AddRecv_def AddSocket_def AddConstraint_def Let_def)
  have cs: "constraints m' = constraints m" using m' by (simp add: AddConstraint_def)
  have "late now (constraints m' ! p)" using assms(3,4) cs by (simp add: late_def HeartbeatTimeConstraint_new_def)
  moreover have "fst (check_constraints now ps st cs) = Damaged"
    if "late now (constraints m ! p)" "p \<in> set ps" "cs ! p = constraints m ! p" "p < length cs" for ps st cs
    using that
  proof (induction ps arbitrary: st cs)
    case (Cons q ps)
    obtain status c where c: "CheckStatus now (cs ! q) = (status, c)" by force
    have "status = Damaged" if "q = p"
      using that Cons.prems c CheckStatus_eq(1) [of now "cs ! q"] assms(3) by (simp add: HeartbeatTimeConstraint_new_def)
    then show ?case
      using Cons c by (cases "q = p") (auto simp: Let_def)
  qed simp
  ultimately have "fst (GetStatus now m') = Damaged"
    using m'(2) cs assms(2) by (simp add: GetStatus_def case_prod_beta)
  then show ?thesis using m' by (simp add: AddConstraint_def)
qed

theorem AddRecv_duplicate_witness:
  "fst (GetStatus 100 (snd (AddRecv 50 1 7 True
     \<lparr>constraints = [HeartbeatTimeConstraint_new 60 Damaged, HeartbeatTimeConstraint_new 60 Damaged],
      m_constraintMap = [], m_socketMap = [7], m_status = Normal, waiting = []\<rparr>))) = Damaged"
  using AddRecv_duplicate [of 7
     "\<lparr>constraints = [HeartbeatTimeConstraint_new 60 Damaged, HeartbeatTimeConstraint_new 60 Damaged],
       m_constraintMap = [], m_socketMap = [7], m_status = Normal, waiting = []\<rparr>" 1 60 100 50
       "''The given socket is already in the map''", OF _ _ _ _ _ refl]
  by (simp add: AddRecv_def AddSocket_def AddConstraint_def Let_def)

end
