(* ===== verification/EthPubsub.thy ===== *)
theory EthPubsub
  imports EthAbi EthEvents DecentHeartbeat
begin

text \<open>
  \<open>EthereumClt/Trusted/Pubsub/SubscriberService.hpp\<close>, \<open>SubscriberHandler.hpp\<close> and
  \<open>EthereumClt/Trusted/ReceiptSubscriber.hpp\<close>: the publish/subscribe service. It listens for the deployment of
  its contract, then for registrations of publishers, and records the events of every registered event manager;
  a subscriber gets the recorded events, and from then on the new ones through a queue.

  A lambda that the code passes to \<open>EventDescription\<close> is the value \<open>PubsubCallback\<close>, and \<open>pubsub_callback\<close>
  runs it. The queues of the subscribers are shared between a callback and an emitter, so they have addresses
  in \<open>eventQueues\<close> and \<open>receiptQueues\<close>. A queue of past events is reached through the map only and stands in it. The
  event manager is alive while it runs a callback, so the \<open>lock\<close> of the weak pointer succeeds; the mutexes are not
  modelled, each step of the model is atomic. Log messages are left out.
\<close>

section \<open>State\<close>

type_synonym EventData = "bytes list"
type_synonym EventDataQueue = "EventData list"

record PubsubServiceStore =
  m_pubsubContAddr :: bytes
  m_deployEvTopic :: bytes
  m_regEvTopic :: bytes
  m_notifyEvTopic :: bytes
  m_isDeployed :: bool
  m_evMgrAddrMap :: "(bytes \<times> bytes) list"
  m_pastEventStore :: "(bytes \<times> EventDataQueue) list"

definition PubsubServiceStore_new :: "bytes \<Rightarrow> bytes \<Rightarrow> bytes \<Rightarrow> bytes \<Rightarrow> PubsubServiceStore" where
  "PubsubServiceStore_new pubsubContAddr deployEvSign regEvSign notifyEvSign =
     \<lparr>m_pubsubContAddr = pubsubContAddr, m_deployEvTopic = Keccak256 deployEvSign,
      m_regEvTopic = Keccak256 regEvSign, m_notifyEvTopic = Keccak256 notifyEvSign,
      m_isDeployed = False, m_evMgrAddrMap = [], m_pastEventStore = []\<rparr>"

text \<open>An entry of a queue of receipts: the block number, the topics and the data of the log entry.\<close>

type_synonym ReceiptData = "bytes \<times> bytes list \<times> bytes"

record PubsubState =
  m_svcStore :: PubsubServiceStore
  eventQueues :: "EventDataQueue list"
  receiptQueues :: "ReceiptData list list"

datatype PubsubCallback =
    DeployEvent
  | RegEvent
  | NotifyPastEvent
  | NotifyEvent nat
  | SubscribedReceipt nat

type_synonym PubsubEventManager = "PubsubCallback EventManager"

section \<open>Descriptions of the events\<close>

definition AddressToAbiAddress :: "bytes \<Rightarrow> bytes" where
  "AddressToAbiAddress addr = replicate 12 0 @ addr"

definition BuildNotifyPastEventDescr :: "bytes \<Rightarrow> PubsubServiceStore \<Rightarrow> PubsubCallback EventDescription" where
  "BuildNotifyPastEventDescr evMgrContAddr svc =
     EventDescription_new evMgrContAddr [m_notifyEvTopic svc] (UserCallback NotifyPastEvent)"

definition BuildRegEventDescr :: "PubsubServiceStore \<Rightarrow> PubsubCallback EventDescription" where
  "BuildRegEventDescr svc = EventDescription_new (m_pubsubContAddr svc) [m_regEvTopic svc] (UserCallback RegEvent)"

definition BuildDeployEventDescr :: "PubsubServiceStore \<Rightarrow> PubsubCallback EventDescription" where
  "BuildDeployEventDescr svc =
     EventDescription_new (m_pubsubContAddr svc)
       [m_deployEvTopic svc, AddressToAbiAddress (m_pubsubContAddr svc)] (UserCallback DeployEvent)"

definition BuildNotifyEventDescr :: "bytes \<Rightarrow> bytes \<Rightarrow> nat \<Rightarrow> PubsubCallback EventDescription" where
  "BuildNotifyEventDescr evMgrContAddr notifyEvTopic eventQueue =
     EventDescription_new evMgrContAddr [notifyEvTopic] (UserCallback (NotifyEvent eventQueue))"

definition BuildSubscribedEventDescr :: "bytes \<Rightarrow> bytes list \<Rightarrow> nat \<Rightarrow> PubsubCallback EventDescription" where
  "BuildSubscribedEventDescr contAddr notifyEvTopics receiptQueue =
     EventDescription_new contAddr notifyEvTopics (UserCallback (SubscribedReceipt receiptQueue))"

section \<open>The handlers\<close>

text \<open>The bytes that a \<open>bytes\<close> parser returns.\<close>

fun the_bytes :: "AbiValue \<Rightarrow> bytes" where
  "the_bytes (VBytes b) = b"
| "the_bytes v = []"

definition event_data :: "HeaderMgr \<Rightarrow> bytes \<Rightarrow> EventData" where
  "event_data headerMgr evMsg = [hdr_Number (m_rawHeader headerMgr), evMsg]"

definition NotifyPastEventHandler :: "HeaderMgr \<Rightarrow> ReceiptLogEntry \<Rightarrow> PubsubServiceStore
    \<Rightarrow> Exception + PubsubServiceStore" where
  "NotifyPastEventHandler headerMgr log svc =
     bindE (AbiParser_ToPrimitive AbiBytes (log_logData log) (log_logData log)) (\<lambda>(evMsg, abiBegin).
     let evMgrId = log_contractAddr log
     in case map_of (m_pastEventStore svc) evMgrId of
          Some evQueue \<Rightarrow>
            Inr (svc\<lparr>m_pastEventStore :=
              map_assign evMgrId (evQueue @ [event_data headerMgr (the_bytes evMsg)]) (m_pastEventStore svc)\<rparr>)
        | None \<Rightarrow> Inr svc)"

definition RegEventHandler :: "(nat list \<Rightarrow> nat) \<Rightarrow> ReceiptLogEntry \<Rightarrow> PubsubEventManager \<times> PubsubServiceStore
    \<Rightarrow> Exception + (PubsubEventManager \<times> PubsubServiceStore)" where
  "RegEventHandler alloc log = (\<lambda>(eventMgr, svc).
     let abi = log_logData log in
     bindE (AbiParser_ToPrimitive (AbiBytesM 32) abi abi) (\<lambda>(pubAddrAbi, abiBegin).
     bindE (AbiParser_ToPrimitive (AbiBytesM 32) abiBegin abiBegin) (\<lambda>(evMgrAddrAbi, _).
     let pubAddr = drop 12 (the_bytes pubAddrAbi);
         evMgrAddr = drop 12 (the_bytes evMgrAddrAbi);
         svc = svc\<lparr>m_evMgrAddrMap := map_assign pubAddr evMgrAddr (m_evMgrAddrMap svc)\<rparr>;
         svc = svc\<lparr>m_pastEventStore := map_emplace evMgrAddr [] (m_pastEventStore svc)\<rparr>;
         (_, eventMgr) = Listen alloc (BuildNotifyPastEventDescr evMgrAddr svc) eventMgr
     in Inr (eventMgr, svc))))"

definition DeployEventHandler :: "(nat list \<Rightarrow> nat) \<Rightarrow> nat \<Rightarrow> PubsubEventManager \<times> PubsubServiceStore
    \<Rightarrow> PubsubEventManager \<times> PubsubServiceStore" where
  "DeployEventHandler alloc cbID = (\<lambda>(eventMgr, svc).
     let svc = svc\<lparr>m_isDeployed := True\<rparr>;
         eventMgr = Cancel cbID eventMgr;
         (_, eventMgr) = Listen alloc (BuildRegEventDescr svc) eventMgr
     in (eventMgr, svc))"

definition NotifyEventHandler :: "HeaderMgr \<Rightarrow> ReceiptLogEntry \<Rightarrow> EventDataQueue \<Rightarrow> Exception + EventDataQueue" where
  "NotifyEventHandler headerMgr log evQueue =
     bindE (AbiParser_ToPrimitive AbiBytes (log_logData log) (log_logData log)) (\<lambda>(evMsg, abiBegin).
     Inr (evQueue @ [event_data headerMgr (the_bytes evMsg)]))"

definition SubscribedReceiptHandler :: "HeaderMgr \<Rightarrow> ReceiptLogEntry \<Rightarrow> ReceiptData list \<Rightarrow> ReceiptData list" where
  "SubscribedReceiptHandler headerMgr log recQueue =
     recQueue @ [(hdr_Number (m_rawHeader headerMgr), log_topics log, log_logData log)]"

fun pubsub_callback :: "(nat list \<Rightarrow> nat) \<Rightarrow> (PubsubCallback, PubsubState) user_callback" where
  "pubsub_callback alloc DeployEvent headerMgr log cbID (ls, s) =
     (let (ls, svc) = DeployEventHandler alloc cbID (ls, m_svcStore s) in Inr (ls, s\<lparr>m_svcStore := svc\<rparr>))"
| "pubsub_callback alloc RegEvent headerMgr log cbID (ls, s) =
     bindE (RegEventHandler alloc log (ls, m_svcStore s)) (\<lambda>(ls, svc). Inr (ls, s\<lparr>m_svcStore := svc\<rparr>))"
| "pubsub_callback alloc NotifyPastEvent headerMgr log cbID (ls, s) =
     bindE (NotifyPastEventHandler headerMgr log (m_svcStore s)) (\<lambda>svc. Inr (ls, s\<lparr>m_svcStore := svc\<rparr>))"
| "pubsub_callback alloc (NotifyEvent p) headerMgr log cbID (ls, s) =
     bindE (NotifyEventHandler headerMgr log (eventQueues s ! p)) (\<lambda>q.
     Inr (ls, s\<lparr>eventQueues := (eventQueues s)[p := q]\<rparr>))"
| "pubsub_callback alloc (SubscribedReceipt p) headerMgr log cbID (ls, s) =
     Inr (ls, s\<lparr>receiptQueues :=
       (receiptQueues s)[p := SubscribedReceiptHandler headerMgr log (receiptQueues s ! p)]\<rparr>)"

section \<open>The service\<close>

definition Start :: "(nat list \<Rightarrow> nat) \<Rightarrow> PubsubEventManager \<times> PubsubServiceStore \<Rightarrow> PubsubEventManager \<times> PubsubServiceStore" where
  "Start alloc = (\<lambda>(ls, svc). (snd (Listen alloc (BuildDeployEventDescr svc) ls), svc))"

text \<open>A publisher that is not registered has the address of twenty zeros.\<close>

definition GetEventMgrAddr :: "bytes \<Rightarrow> PubsubServiceStore \<Rightarrow> bytes" where
  "GetEventMgrAddr publisherAddr svc =
     (case map_of (m_evMgrAddrMap svc) publisherAddr of None \<Rightarrow> replicate 20 0 | Some a \<Rightarrow> a)"

definition GetPastEvents :: "bytes \<Rightarrow> PubsubServiceStore \<Rightarrow> EventDataQueue" where
  "GetPastEvents evMgrAddr svc =
     (case map_of (m_pastEventStore svc) evMgrAddr of None \<Rightarrow> [] | Some q \<Rightarrow> q)"

text \<open>\<open>SubReq\<close> is split where another thread can come in: the registration of the listener, and the answer with the
  past events, after which the emitter is set up. The emitter owns the address of its queue and the handle of its
  listener. The bytes of a message and whether the socket accepts it are parameters. The first part returns nothing
  for a publisher without an event manager.\<close>

type_synonym EmitterRec = "nat \<times> nat"

definition SubReq_listen :: "(nat list \<Rightarrow> nat) \<Rightarrow> bytes \<Rightarrow> PubsubEventManager \<times> PubsubState
    \<Rightarrow> (bytes \<times> EmitterRec) option \<times> PubsubEventManager \<times> PubsubState" where
  "SubReq_listen alloc pubAddr = (\<lambda>(ls, s).
     let eventMgrAddr = GetEventMgrAddr pubAddr (m_svcStore s) in
     if eventMgrAddr = replicate 20 0 then (None, ls, s)
     else
       let eventQueue = length (eventQueues s);
           s = s\<lparr>eventQueues := eventQueues s @ [[]]\<rparr>;
           (listenId, ls) = Listen alloc
             (BuildNotifyEventDescr eventMgrAddr (m_notifyEvTopic (m_svcStore s)) eventQueue) ls
       in (Some (eventMgrAddr, eventQueue, listenId), ls, s))"

definition SubReq_answer :: "(EventDataQueue \<Rightarrow> Exception + bytes) \<Rightarrow> (bytes \<Rightarrow> Exception + unit) \<Rightarrow> bytes \<Rightarrow> EmitterRec
    \<Rightarrow> PubsubState \<Rightarrow> EmitterRec list \<Rightarrow> Exception + (bytes \<times> EmitterRec list)" where
  "SubReq_answer buildMsg send eventMgrAddr emitter s emitterList =
     bindE (buildMsg (GetPastEvents eventMgrAddr (m_svcStore s))) (\<lambda>respMsg.
     bindE (send respMsg) (\<lambda>_.
     Inr (respMsg, AddEmitter emitter emitterList)))"

text \<open>The whole request, when nothing comes in between.\<close>

definition SubReq :: "(nat list \<Rightarrow> nat) \<Rightarrow> (EventDataQueue \<Rightarrow> Exception + bytes) \<Rightarrow> (bytes \<Rightarrow> Exception + unit) \<Rightarrow> bytes
    \<Rightarrow> PubsubEventManager \<times> PubsubState \<Rightarrow> EmitterRec list
    \<Rightarrow> (Exception + unit) \<times> EmitterRec list \<times> PubsubEventManager \<times> PubsubState" where
  "SubReq alloc buildMsg send pubAddr = (\<lambda>(ls, s) emitterList.
     case SubReq_listen alloc pubAddr (ls, s) of
       (None, ls, s) \<Rightarrow> (Inr (), emitterList, ls, s)
     | (Some (eventMgrAddr, emitter), ls, s) \<Rightarrow>
         (case SubReq_answer buildMsg send eventMgrAddr emitter s emitterList of
            Inl e \<Rightarrow> (Inl e, emitterList, ls, s)
          | Inr (respMsg, emitterList) \<Rightarrow> (Inr (), emitterList, ls, s)))"

fun check_topics :: "bytes list \<Rightarrow> bool" where
  "check_topics [] = True"
| "check_topics (topicObj # topics) = (if length topicObj \<noteq> 32 then False else check_topics topics)"

definition ReceiptSubReq :: "(nat list \<Rightarrow> nat) \<Rightarrow> bytes \<Rightarrow> bytes list \<Rightarrow> PubsubEventManager \<times> PubsubState
    \<Rightarrow> EmitterRec list \<Rightarrow> EmitterRec list \<times> PubsubEventManager \<times> PubsubState" where
  "ReceiptSubReq alloc conAddr topics = (\<lambda>(ls, s) emitterList.
     if length conAddr \<noteq> 20 then (emitterList, ls, s)
     else if \<not> check_topics topics then (emitterList, ls, s)
     else
       let receiptQueue = length (receiptQueues s);
           s = s\<lparr>receiptQueues := receiptQueues s @ [[]]\<rparr>;
           (listenId, ls) = Listen alloc (BuildSubscribedEventDescr conAddr topics receiptQueue) ls
       in (AddEmitter (receiptQueue, listenId) emitterList, ls, s))"

text \<open>The emitters empty their queue; a failure to build or to send the message cancels the listener and is passed on.\<close>

definition EmitterHandler :: "(EventDataQueue \<Rightarrow> Exception + bytes) \<Rightarrow> (bytes \<Rightarrow> Exception + unit) \<Rightarrow> EmitterRec
    \<Rightarrow> PubsubEventManager \<times> PubsubState \<Rightarrow> (Exception + bytes) \<times> PubsubEventManager \<times> PubsubState" where
  "EmitterHandler buildMsg send = (\<lambda>(evQueue, listenId) (ls, s).
     let outEvQueue = eventQueues s ! evQueue;
         s = s\<lparr>eventQueues := (eventQueues s)[evQueue := []]\<rparr>
     in case bindE (buildMsg outEvQueue) (\<lambda>respMsg. bindE (send respMsg) (\<lambda>_. Inr respMsg)) of
          Inr respMsg \<Rightarrow> (Inr respMsg, ls, s)
        | Inl e \<Rightarrow> (Inl e, Cancel listenId ls, s))"

definition SubscribedReceiptEmitter :: "(ReceiptData list \<Rightarrow> Exception + bytes) \<Rightarrow> (bytes \<Rightarrow> Exception + unit) \<Rightarrow> EmitterRec
    \<Rightarrow> PubsubEventManager \<times> PubsubState \<Rightarrow> (Exception + bytes) \<times> PubsubEventManager \<times> PubsubState" where
  "SubscribedReceiptEmitter buildMsg send = (\<lambda>(recQueue, listenId) (ls, s).
     let outQueue = receiptQueues s ! recQueue;
         s = s\<lparr>receiptQueues := (receiptQueues s)[recQueue := []]\<rparr>
     in case bindE (buildMsg outQueue) (\<lambda>respMsg. bindE (send respMsg) (\<lambda>_. Inr respMsg)) of
          Inr respMsg \<Rightarrow> (Inr respMsg, ls, s)
        | Inl e \<Rightarrow> (Inl e, Cancel listenId ls, s))"

section \<open>What the callbacks change\<close>

text \<open>The message of an event, as far as the data of its log entry parses.\<close>

definition event_of :: "HeaderMgr \<Rightarrow> ReceiptLogEntry \<Rightarrow> EventData" where
  "event_of hdr e = event_data hdr (case AbiParser_ToPrimitive AbiBytes (log_logData e) (log_logData e) of
     Inr (v, _) \<Rightarrow> the_bytes v | Inl _ \<Rightarrow> [])"

text \<open>The publisher and the event manager that a registration names: two words, an address at the end of each.\<close>

definition registered :: "ReceiptLogEntry \<Rightarrow> (bytes \<times> bytes) option" where
  "registered e =
     (case AbiParser_ToPrimitive (AbiBytesM 32) (log_logData e) (log_logData e) of
        Inr (u, s) \<Rightarrow>
          (case AbiParser_ToPrimitive (AbiBytesM 32) s s of
             Inr (v, _) \<Rightarrow> Some (drop 12 (the_bytes u), drop 12 (the_bytes v))
           | Inl _ \<Rightarrow> None)
      | Inl _ \<Rightarrow> None)"

lemma RegEventHandler_eq:
  assumes "RegEventHandler alloc e (ls, svc) = Inr (ls', svc')"
  obtains pub mgr where "registered e = Some (pub, mgr)"
    and "svc' = svc\<lparr>m_evMgrAddrMap := map_assign pub mgr (m_evMgrAddrMap svc),
                   m_pastEventStore := map_emplace mgr [] (m_pastEventStore svc)\<rparr>"
    and "ls' = snd (Listen alloc (BuildNotifyPastEventDescr mgr svc) ls)"
proof -
  obtain u s v r where p: "AbiParser_ToPrimitive (AbiBytesM 32) (log_logData e) (log_logData e) = Inr (u, s)"
    "AbiParser_ToPrimitive (AbiBytesM 32) s s = Inr (v, r)"
    using assms by (auto simp: RegEventHandler_def Let_def sum_simps)
  show thesis
    by (rule that [of "drop 12 (the_bytes u)" "drop 12 (the_bytes v)"])
      (use assms p in \<open>simp_all add: registered_def RegEventHandler_def Let_def case_prod_beta BuildNotifyPastEventDescr_def\<close>)
qed

type_synonym notification = "nat \<times> PubsubCallback NotifyCallback \<times> ReceiptLogEntry"

definition queue_events :: "HeaderMgr \<Rightarrow> nat \<Rightarrow> notification list \<Rightarrow> EventDataQueue" where
  "queue_events hdr p ns = map (\<lambda>(i, c, e). event_of hdr e) (filter (\<lambda>(i, c, e). c = UserCallback (NotifyEvent p)) ns)"

definition past_of :: "HeaderMgr \<Rightarrow> bytes \<Rightarrow> notification list \<Rightarrow> EventDataQueue" where
  "past_of hdr a ns = map (\<lambda>(i, c, e). event_of hdr e)
     (filter (\<lambda>(i, c, e). c = UserCallback NotifyPastEvent \<and> log_contractAddr e = a) ns)"

type_synonym pubsub_world = "(PubsubCallback, PubsubState) event_state"

text \<open>One callback: the queues, the past events, the listeners.\<close>

lemma callback_queue:
  assumes "run_callback (pubsub_callback alloc) hdr i c e w = Inr w'" and "p < length (eventQueues (client w))"
  shows "eventQueues (client w') ! p = eventQueues (client w) ! p @ queue_events hdr p [(i, c, e)]"
    and "length (eventQueues (client w')) = length (eventQueues (client w))"
proof -
  have "eventQueues (client w') ! p = eventQueues (client w) ! p @ queue_events hdr p [(i, c, e)]
    \<and> length (eventQueues (client w')) = length (eventQueues (client w))"
  proof (cases c)
    case (SyncCallback q)
    then show ?thesis using assms by (auto simp: sync_callback_def queue_events_def Let_def)
  next
    case (UserCallback u)
    show ?thesis
    proof (cases u)
      case (NotifyEvent q)
      then show ?thesis
        using assms UserCallback
        by (cases "q = p") (auto simp: sum_simps NotifyEventHandler_def queue_events_def event_of_def)
    qed (use assms UserCallback in \<open>auto simp: sum_simps queue_events_def DeployEventHandler_def Let_def split: prod.splits\<close>)
  qed
  then show "eventQueues (client w') ! p = eventQueues (client w) ! p @ queue_events hdr p [(i, c, e)]"
    and "length (eventQueues (client w')) = length (eventQueues (client w))" by blast+
qed

lemma callback_past:
  assumes "run_callback (pubsub_callback alloc) hdr i c e w = Inr w'"
    and "map_of (m_pastEventStore (m_svcStore (client w))) a = Some q"
  shows "map_of (m_pastEventStore (m_svcStore (client w'))) a = Some (q @ past_of hdr a [(i, c, e)])"
proof (cases c)
  case (SyncCallback p)
  then show ?thesis using assms by (auto simp: sync_callback_def past_of_def Let_def)
next
  case (UserCallback u)
  show ?thesis
  proof (cases u)
    case NotifyPastEvent
    obtain svc where svc: "NotifyPastEventHandler hdr e (m_svcStore (client w)) = Inr svc"
      and w': "m_svcStore (client w') = svc"
      using assms(1) UserCallback NotifyPastEvent by (auto simp: sum_simps)
    obtain v r where v: "AbiParser_ToPrimitive AbiBytes (log_logData e) (log_logData e) = Inr (v, r)"
      using svc by (auto simp: NotifyPastEventHandler_def sum_simps)
    then have "event_of hdr e = event_data hdr (the_bytes v)" by (simp add: event_of_def)
    then show ?thesis
      using svc v assms(2) UserCallback NotifyPastEvent unfolding w'
      by (auto simp: NotifyPastEventHandler_def past_of_def Let_def split: option.splits)
  next
    case RegEvent
    obtain ls svc where r: "RegEventHandler alloc e (listeners w, m_svcStore (client w)) = Inr (ls, svc)"
      and w': "m_svcStore (client w') = svc"
      using assms(1) UserCallback RegEvent by (auto simp: sum_simps)
    show ?thesis
      by (rule RegEventHandler_eq [OF r]) (use assms(2) UserCallback RegEvent in \<open>auto simp: w' past_of_def\<close>)
  qed (use assms UserCallback in \<open>auto simp: sum_simps past_of_def DeployEventHandler_def Let_def split: prod.splits\<close>)
qed

text \<open>A property of listeners is stable under a callback when the listeners a callback adds do not have it and no
  listener that has it has the handle of a listener that cancels itself.\<close>

definition adds :: "PubsubServiceStore \<Rightarrow> PubsubCallback NotifyCallback \<Rightarrow> ReceiptLogEntry \<Rightarrow> PubsubCallback EventDescription set" where
  "adds svc c e =
     (case c of
        UserCallback DeployEvent \<Rightarrow> {BuildRegEventDescr svc}
      | UserCallback RegEvent \<Rightarrow> (case registered e of None \<Rightarrow> {} | Some (_, a) \<Rightarrow> {BuildNotifyPastEventDescr a svc})
      | _ \<Rightarrow> {})"

definition cancels :: "PubsubCallback NotifyCallback \<Rightarrow> bool" where
  "cancels c \<longleftrightarrow> (case c of SyncCallback q \<Rightarrow> True | UserCallback u \<Rightarrow> u = DeployEvent)"

text \<open>The service store without what the callbacks change.\<close>

definition svc_frame :: "PubsubServiceStore \<Rightarrow> bytes \<times> bytes \<times> bytes \<times> bytes" where
  "svc_frame svc = (m_pubsubContAddr svc, m_deployEvTopic svc, m_regEvTopic svc, m_notifyEvTopic svc)"

lemma filter_Listen:
  "\<not> P d \<Longrightarrow> filter (\<lambda>(i, d). P d) (snd (Listen alloc d ls)) = filter (\<lambda>(i, d). P d) ls"
  by (simp add: Listen_def Let_def map_emplace_def)

lemma filter_Cancel:
  "(\<And>d. (i, d) \<in> set ls \<Longrightarrow> \<not> P d) \<Longrightarrow> filter (\<lambda>(i, d). P d) (Cancel i ls) = filter (\<lambda>(i, d). P d) ls"
  by (auto simp: Cancel_def map_erase_def intro!: filter_cong split: option.split)

lemma callback_listeners:
  assumes R: "run_callback (pubsub_callback alloc) hdr i c e w = Inr w'"
    and new: "\<And>d. d \<in> adds (m_svcStore (client w)) c e \<Longrightarrow> \<not> P d"
    and i: "\<And>d. cancels c \<Longrightarrow> (i, d) \<in> set (listeners w) \<Longrightarrow> \<not> P d"
  shows "filter (\<lambda>(i, d). P d) (listeners w') = filter (\<lambda>(i, d). P d) (listeners w)"
    and "svc_frame (m_svcStore (client w')) = svc_frame (m_svcStore (client w))"
proof -
  have "filter (\<lambda>(i, d). P d) (listeners w') = filter (\<lambda>(i, d). P d) (listeners w)
    \<and> svc_frame (m_svcStore (client w')) = svc_frame (m_svcStore (client w))"
  proof (cases c)
    case (SyncCallback q)
    then show ?thesis using R i by (auto simp: sync_callback_def cancels_def filter_Cancel Let_def)
  next
    case (UserCallback u)
    show ?thesis
    proof (cases u)
      case DeployEvent
      have "BuildRegEventDescr (m_svcStore (client w)\<lparr>m_isDeployed := True\<rparr>) = BuildRegEventDescr (m_svcStore (client w))"
        by (simp add: BuildRegEventDescr_def)
      then show ?thesis
        using R new i UserCallback DeployEvent
        by (auto simp: DeployEventHandler_def adds_def cancels_def Let_def case_prod_beta filter_Listen filter_Cancel svc_frame_def)
    next
      case RegEvent
      obtain ls svc where r: "RegEventHandler alloc e (listeners w, m_svcStore (client w)) = Inr (ls, svc)"
        and w': "listeners w' = ls" "m_svcStore (client w') = svc"
        using R UserCallback RegEvent by (auto simp: sum_simps)
      show ?thesis
        by (rule RegEventHandler_eq [OF r])
          (use new UserCallback RegEvent in \<open>simp add: w' adds_def filter_Listen svc_frame_def\<close>)
    qed (use R UserCallback in \<open>auto simp: sum_simps svc_frame_def NotifyPastEventHandler_def Let_def split: option.splits\<close>)
  qed
  then show "filter (\<lambda>(i, d). P d) (listeners w') = filter (\<lambda>(i, d). P d) (listeners w)"
    and "svc_frame (m_svcStore (client w')) = svc_frame (m_svcStore (client w))" by blast+
qed

lemma adds_frame: "svc_frame s = svc_frame s' \<Longrightarrow> adds s c e = adds s' c e"
  by (auto simp: adds_def svc_frame_def BuildRegEventDescr_def BuildNotifyPastEventDescr_def
      split: NotifyCallback.splits PubsubCallback.splits option.splits)

section \<open>A header\<close>

lemma notify_queue:
  assumes "notify (pubsub_callback alloc) hdr ns w = Inr w'" and "p < length (eventQueues (client w))"
  shows "eventQueues (client w') ! p = eventQueues (client w) ! p @ queue_events hdr p ns
    \<and> length (eventQueues (client w')) = length (eventQueues (client w))"
  using assms
proof (induction ns arbitrary: w)
  case (Cons n ns)
  obtain i c e where n: "n = (i, c, e)" by (cases n)
  obtain w1 where w1: "run_callback (pubsub_callback alloc) hdr i c e w = Inr w1"
    "notify (pubsub_callback alloc) hdr ns w1 = Inr w'"
    using Cons.prems(1) n by (auto simp: sum_simps)
  note q = callback_queue [OF w1(1) Cons.prems(2)]
  have "queue_events hdr p (n # ns) = queue_events hdr p [n] @ queue_events hdr p ns" by (simp add: queue_events_def)
  then show ?case using Cons.IH [OF w1(2)] q Cons.prems(2) n by simp
qed (simp add: queue_events_def)

lemma notify_past:
  assumes "notify (pubsub_callback alloc) hdr ns w = Inr w'"
    and "map_of (m_pastEventStore (m_svcStore (client w))) a = Some q"
  shows "map_of (m_pastEventStore (m_svcStore (client w'))) a = Some (q @ past_of hdr a ns)"
  using assms
proof (induction ns arbitrary: w q)
  case (Cons n ns)
  obtain i c e where n: "n = (i, c, e)" by (cases n)
  obtain w1 where w1: "run_callback (pubsub_callback alloc) hdr i c e w = Inr w1"
    "notify (pubsub_callback alloc) hdr ns w1 = Inr w'"
    using Cons.prems(1) n by (auto simp: sum_simps)
  note q = callback_past [OF w1(1) Cons.prems(2)]
  have "past_of hdr a (n # ns) = past_of hdr a [n] @ past_of hdr a ns" by (simp add: past_of_def)
  then show ?case using Cons.IH [OF w1(2) q] n by simp
qed (simp add: past_of_def)

lemma notify_listeners:
  assumes "notify (pubsub_callback alloc) hdr ns w = Inr w'"
    and "\<And>i c e d. (i, c, e) \<in> set ns \<Longrightarrow> d \<in> adds (m_svcStore (client w)) c e \<Longrightarrow> \<not> P d"
    and "\<And>i c e. (i, c, e) \<in> set ns \<Longrightarrow> cancels c \<Longrightarrow> i \<notin> fst ` set (filter (\<lambda>(i, d). P d) (listeners w))"
  shows "filter (\<lambda>(i, d). P d) (listeners w') = filter (\<lambda>(i, d). P d) (listeners w)
    \<and> svc_frame (m_svcStore (client w')) = svc_frame (m_svcStore (client w))"
  using assms
proof (induction ns arbitrary: w)
  case (Cons n ns)
  obtain i c e where n: "n = (i, c, e)" by (cases n)
  obtain w1 where w1: "run_callback (pubsub_callback alloc) hdr i c e w = Inr w1"
    "notify (pubsub_callback alloc) hdr ns w1 = Inr w'"
    using Cons.prems(1) n by (auto simp: sum_simps)
  have a: "\<not> P d" if "d \<in> adds (m_svcStore (client w)) c e" for d
    using Cons.prems(2) [of i c e d] n that by simp
  have b: "\<not> P d" if "cancels c" "(i, d) \<in> set (listeners w)" for d
    using Cons.prems(3) [of i c e] n that by force
  have f1: "filter (\<lambda>(i, d). P d) (listeners w1) = filter (\<lambda>(i, d). P d) (listeners w)"
    by (rule callback_listeners(1) [OF w1(1)]) (fact a, fact b)
  have f2: "svc_frame (m_svcStore (client w1)) = svc_frame (m_svcStore (client w))"
    by (rule callback_listeners(2) [OF w1(1)]) (fact a, fact b)
  have "filter (\<lambda>(i, d). P d) (listeners w') = filter (\<lambda>(i, d). P d) (listeners w1)
    \<and> svc_frame (m_svcStore (client w')) = svc_frame (m_svcStore (client w1))"
  proof (rule Cons.IH [OF w1(2)])
    fix i c e d assume "(i, c, e) \<in> set ns" and "d \<in> adds (m_svcStore (client w1)) c e"
    then show "\<not> P d" using Cons.prems(2) [of i c e d] adds_frame [OF f2, of c e] by simp
  next
    fix i c e assume "(i, c, e) \<in> set ns" and "cancels c"
    then show "i \<notin> fst ` set (filter (\<lambda>(i, d). P d) (listeners w1))"
      using Cons.prems(3) [of i c e] by (simp only: f1 list.set_intros(2) simp_thms)
  qed
  then show ?case using f1 f2 by simp
qed simp

lemma callback_adds:
  assumes R: "run_callback (pubsub_callback alloc) hdr i c e w = Inr w'" and j: "(j, d) \<in> set (listeners w')"
  shows "(j, d) \<in> set (listeners w) \<or> d \<in> adds (m_svcStore (client w)) c e"
proof -
  have C: "x \<in> set (Cancel i ls) \<Longrightarrow> x \<in> set ls" for x i and ls :: PubsubEventManager
    by (auto simp: Cancel_def map_erase_def split: option.splits)
  have L: "(j, d) \<in> set (snd (Listen alloc d' ls)) \<Longrightarrow> d = d' \<or> (j, d) \<in> set ls" for d' ls
    by (auto simp: Listen_def Let_def map_emplace_def split: if_splits)
  show ?thesis
  proof (cases c)
    case (SyncCallback q)
    then have "listeners w' = Cancel i (listeners w)" using R by (auto simp: sync_callback_def Let_def)
    then show ?thesis using j C by auto
  next
    case (UserCallback u)
    show ?thesis
    proof (cases u)
      case DeployEvent
      have "BuildRegEventDescr (m_svcStore (client w)\<lparr>m_isDeployed := True\<rparr>) = BuildRegEventDescr (m_svcStore (client w))"
        by (simp add: BuildRegEventDescr_def)
      then have "listeners w' = snd (Listen alloc (BuildRegEventDescr (m_svcStore (client w))) (Cancel i (listeners w)))"
        using R UserCallback DeployEvent by (auto simp: DeployEventHandler_def Let_def case_prod_beta)
      then show ?thesis
        using L [of "BuildRegEventDescr (m_svcStore (client w))" "Cancel i (listeners w)"] j C UserCallback DeployEvent
        by (auto simp: adds_def)
    next
      case RegEvent
      then obtain svc where "RegEventHandler alloc e (listeners w, m_svcStore (client w)) = Inr (listeners w', svc)"
        using R UserCallback by (auto simp: sum_simps)
      then show ?thesis
      proof (rule RegEventHandler_eq)
        fix pub mgr
        assume "registered e = Some (pub, mgr)"
          and "listeners w' = snd (Listen alloc (BuildNotifyPastEventDescr mgr (m_svcStore (client w))) (listeners w))"
        then show ?thesis
          using L [of "BuildNotifyPastEventDescr mgr (m_svcStore (client w))" "listeners w"] j UserCallback RegEvent
          by (auto simp: adds_def)
      qed
    qed (use R j UserCallback in \<open>auto simp: sum_simps\<close>)
  qed
qed

lemma notify_new:
  assumes "notify (pubsub_callback alloc) hdr ns w = Inr w'" and "(j, d) \<in> set (listeners w')"
  shows "(j, d) \<in> set (listeners w) \<or> (\<exists>(i, c, e)\<in>set ns. d \<in> adds (m_svcStore (client w)) c e)"
  using assms
proof (induction ns arbitrary: w)
  case (Cons n ns)
  obtain i c e where n: "n = (i, c, e)" by (cases n)
  obtain w1 where w1: "run_callback (pubsub_callback alloc) hdr i c e w = Inr w1"
    "notify (pubsub_callback alloc) hdr ns w1 = Inr w'"
    using Cons.prems(1) n by (auto simp: sum_simps)
  have "svc_frame (m_svcStore (client w1)) = svc_frame (m_svcStore (client w))"
    by (rule callback_listeners(2) [OF w1(1), of "\<lambda>_. False"]) simp_all
  note a = adds_frame [OF this]
  show ?case using Cons.IH [OF w1(2) Cons.prems(2)] callback_adds [OF w1(1)] unfolding n a by auto
qed simp

lemma callback_distinct:
  "run_callback (pubsub_callback alloc) hdr i c e w = Inr w' \<Longrightarrow> distinct (map fst (listeners w)) \<Longrightarrow>
     distinct (map fst (listeners w'))"
proof -
  assume R: "run_callback (pubsub_callback alloc) hdr i c e w = Inr w'" and d: "distinct (map fst (listeners w))"
  have L: "distinct (map fst ls) \<Longrightarrow> distinct (map fst (snd (Listen alloc d ls)))" for d and ls :: PubsubEventManager
    by (simp add: Listen_def Let_def distinct_emplace)
  have C: "distinct (map fst ls) \<Longrightarrow> distinct (map fst (Cancel i ls))" for i and ls :: PubsubEventManager
    by (simp add: Cancel_def distinct_erase split: option.split)
  show ?thesis
  proof (cases c)
    case (SyncCallback q)
    then show ?thesis using R d C by (auto simp: sync_callback_def Let_def)
  next
    case (UserCallback u)
    show ?thesis
    proof (cases u)
      case RegEvent
      then obtain svc where "RegEventHandler alloc e (listeners w, m_svcStore (client w)) = Inr (listeners w', svc)"
        using R UserCallback by (auto simp: sum_simps)
      then show ?thesis by (rule RegEventHandler_eq) (simp add: L d)
    qed (use R d C L UserCallback in \<open>auto simp: sum_simps DeployEventHandler_def Let_def case_prod_beta\<close>)
  qed
qed

lemma notify_distinct:
  "notify (pubsub_callback alloc) hdr ns w = Inr w' \<Longrightarrow> distinct (map fst (listeners w)) \<Longrightarrow> distinct (map fst (listeners w'))"
proof (induction ns arbitrary: w)
  case (Cons n ns)
  then show ?case by (cases n) (auto simp: sum_simps dest: callback_distinct)
qed simp

section \<open>The events of a header\<close>

definition block_ok :: "HeaderMgr \<Rightarrow> ReceiptsMgr \<Rightarrow> bool" where
  "block_ok hdr rm \<longleftrightarrow> m_rootHashBytes rm = ReceiptsRoot (m_rawHeader hdr)
     \<and> (\<forall>e\<in>set (concat (m_receipts rm)). bloom_covers (LogsBloom (m_rawHeader hdr)) e)"

definition block_events :: "PubsubServiceStore \<Rightarrow> bytes \<Rightarrow> HeaderMgr \<Rightarrow> ReceiptsMgr \<Rightarrow> EventDataQueue" where
  "block_events svc a hdr rm = map (event_of hdr) (ReceiptsMgr_SearchEvents a [m_notifyEvTopic svc] rm)"

lemma set_notifications:
  "(i, c, e) \<in> set (notifications ls rm) \<longleftrightarrow>
     (\<exists>d. (i, d) \<in> set ls \<and> c = m_notifyCallback d \<and> e \<in> set (concat (m_receipts rm)) \<and> desc_matches d e)"
  by (fastforce simp: notifications_def)

lemma queue_notifications:
  "queue_events hdr p (notifications ls rm) =
     concat (map (\<lambda>(i, d). map (event_of hdr) (filter (desc_matches d) (concat (m_receipts rm))))
       (filter (\<lambda>(i, d). m_notifyCallback d = UserCallback (NotifyEvent p)) ls))"
proof (induction ls)
  case (Cons x ls)
  then show ?case by (cases x) (simp add: notifications_def queue_events_def filter_map o_def)
qed (simp add: notifications_def queue_events_def)

lemma past_notifications:
  "past_of hdr a (notifications ls rm) =
     concat (map (\<lambda>(i, d). map (event_of hdr) (filter (desc_matches d) (concat (m_receipts rm))))
       (filter (\<lambda>(i, d). m_notifyCallback d = UserCallback NotifyPastEvent \<and> m_contractAddr d = a) ls))"
proof (induction ls)
  case (Cons x ls)
  obtain i d where x: "x = (i, d)" by force
  have "filter (\<lambda>e. desc_matches d e \<and> log_contractAddr e = a) es = (if m_contractAddr d = a then filter (desc_matches d) es else [])" for es
    by (auto simp: desc_matches_def filter_empty_conv intro!: filter_cong)
  then have f: "filter (\<lambda>e. m_notifyCallback d = UserCallback NotifyPastEvent \<and> log_contractAddr e = a) (filter (desc_matches d) es)
      = (if m_notifyCallback d = UserCallback NotifyPastEvent \<and> m_contractAddr d = a then filter (desc_matches d) es else [])" for es
    by (cases "m_notifyCallback d = UserCallback NotifyPastEvent") simp_all
  have "past_of hdr a (notifications (x # ls) rm)
      = map (event_of hdr) (filter (\<lambda>e. m_notifyCallback d = UserCallback NotifyPastEvent \<and> log_contractAddr e = a)
          (filter (desc_matches d) (concat (m_receipts rm)))) @ past_of hdr a (notifications ls rm)"
    by (simp add: x notifications_def past_of_def filter_map o_def del: filter_filter)
  then show ?case unfolding f Cons by (simp add: x)
qed (simp add: notifications_def past_of_def)

lemma filter_Bloom: "filter P (BloomEventDesc bloom ls) = BloomEventDesc bloom (filter P ls)"
  by (simp add: BloomEventDesc_def conj_commute)

lemma bloom_single:
  assumes "desc_ok d" and "\<forall>e\<in>set es. bloom_covers bloom e"
  shows "concat (map (\<lambda>(i, d). map f (filter (desc_matches d) es)) (BloomEventDesc bloom [(i, d)])) = map f (filter (desc_matches d) es)"
proof (cases "AreHashesInBloom bloom (m_hashes d)")
  case False
  then have "filter (desc_matches d) es = []"
    using covered_in_bloom [OF assms(1)] assms(2) by (auto simp: filter_empty_conv)
  then show ?thesis using False by (simp add: BloomEventDesc_def)
qed (simp add: BloomEventDesc_def)

lemma desc_ok_Builds [simp]:
  "desc_ok (BuildNotifyEventDescr a t p)" "desc_ok (BuildNotifyPastEventDescr a svc)"
  by (simp_all add: BuildNotifyEventDescr_def BuildNotifyPastEventDescr_def)

lemma matches_topic:
  "filter (desc_matches (EventDescription_new a ts c)) (concat (m_receipts rm)) = ReceiptsMgr_SearchEvents a ts rm"
  using search_matches [of "EventDescription_new a ts c" rm] by (simp add: EventDescription_new_def)

text \<open>Handles are unique, whoever waits for registrations has the description the service makes, and whoever fills a
  queue fills one that exists.\<close>

definition listeners_ok :: "pubsub_world \<Rightarrow> bool" where
  "listeners_ok w \<longleftrightarrow> distinct (map fst (listeners w)) \<and>
     (\<forall>(i, d)\<in>set (listeners w). m_notifyCallback d = UserCallback RegEvent \<longrightarrow> d = BuildRegEventDescr (m_svcStore (client w))) \<and>
     (\<forall>(i, d)\<in>set (listeners w). \<forall>q. m_notifyCallback d = UserCallback (NotifyEvent q) \<longrightarrow> q < length (eventQueues (client w)))"

definition registrations :: "PubsubServiceStore \<Rightarrow> ReceiptsMgr \<Rightarrow> (bytes \<times> bytes) set" where
  "registrations svc rm = {x. Some x \<in> registered ` set (ReceiptsMgr_SearchEvents (m_pubsubContAddr svc) [m_regEvTopic svc] rm)}"

text \<open>One listener fills the queue of a subscriber, and one records the past events of an event manager.\<close>

definition subscribed :: "pubsub_world \<Rightarrow> bytes \<Rightarrow> EmitterRec \<Rightarrow> bool" where
  "subscribed w a em \<longleftrightarrow> fst em < length (eventQueues (client w)) \<and>
     filter (\<lambda>(i, d). m_notifyCallback d = UserCallback (NotifyEvent (fst em))) (listeners w)
       = [(snd em, BuildNotifyEventDescr a (m_notifyEvTopic (m_svcStore (client w))) (fst em))]"

definition recorded :: "pubsub_world \<Rightarrow> bytes \<Rightarrow> bool" where
  "recorded w a \<longleftrightarrow> map_of (m_pastEventStore (m_svcStore (client w))) a \<noteq> None \<and>
     (\<exists>j. filter (\<lambda>(i, d). m_notifyCallback d = UserCallback NotifyPastEvent \<and> m_contractAddr d = a) (listeners w)
       = [(j, BuildNotifyPastEventDescr a (m_svcStore (client w)))])"

lemma notifications_adds:
  assumes ok: "listeners_ok w" and n: "(i, c, e) \<in> set (notifications (BloomEventDesc bloom (listeners w)) rm)"
    and d: "d \<in> adds (m_svcStore (client w)) c e"
  shows "d = BuildRegEventDescr (m_svcStore (client w)) \<or>
    (\<exists>(pub, a)\<in>registrations (m_svcStore (client w)) rm. d = BuildNotifyPastEventDescr a (m_svcStore (client w)))"
proof -
  obtain d' where d': "(i, d') \<in> set (listeners w)" "c = m_notifyCallback d'" "e \<in> set (concat (m_receipts rm))" "desc_matches d' e"
    using n unfolding set_notifications by (auto simp: BloomEventDesc_def)
  consider (reg) pub a where "c = UserCallback RegEvent" "registered e = Some (pub, a)"
      "d = BuildNotifyPastEventDescr a (m_svcStore (client w))"
    | (dep) "d = BuildRegEventDescr (m_svcStore (client w))"
    using d by (auto simp: adds_def split: NotifyCallback.splits PubsubCallback.splits option.splits)
  then show ?thesis
  proof cases
    case reg
    then have "d' = BuildRegEventDescr (m_svcStore (client w))" using ok d' by (auto simp: listeners_ok_def)
    then have "e \<in> set (ReceiptsMgr_SearchEvents (m_pubsubContAddr (m_svcStore (client w))) [m_regEvTopic (m_svcStore (client w))] rm)"
      using d' unfolding BuildRegEventDescr_def by (simp flip: matches_topic [where c = "UserCallback RegEvent"])
    then have "(pub, a) \<in> registrations (m_svcStore (client w)) rm"
      unfolding registrations_def mem_Collect_eq reg(2) [symmetric] by (rule imageI)
    then show ?thesis using reg(3) by blast
  qed simp
qed

lemma header_stable:
  assumes N: "notify (pubsub_callback alloc) hdr (notifications (BloomEventDesc bloom (listeners w)) rm) w = Inr w'"
    and ok: "listeners_ok w"
    and reg: "\<not> P (BuildRegEventDescr (m_svcStore (client w)))"
    and past: "\<And>pub a. (pub, a) \<in> registrations (m_svcStore (client w)) rm \<Longrightarrow> \<not> P (BuildNotifyPastEventDescr a (m_svcStore (client w)))"
    and keep: "\<And>d. P d \<Longrightarrow> \<not> cancels (m_notifyCallback d)"
  shows "filter (\<lambda>(i, d). P d) (listeners w') = filter (\<lambda>(i, d). P d) (listeners w)"
    and "svc_frame (m_svcStore (client w')) = svc_frame (m_svcStore (client w))"
proof -
  let ?ns = "notifications (BloomEventDesc bloom (listeners w)) rm"
  have "filter (\<lambda>(i, d). P d) (listeners w') = filter (\<lambda>(i, d). P d) (listeners w)
    \<and> svc_frame (m_svcStore (client w')) = svc_frame (m_svcStore (client w))"
  proof (rule notify_listeners [OF N])
    fix i c e d assume "(i, c, e) \<in> set ?ns" "d \<in> adds (m_svcStore (client w)) c e"
    then show "\<not> P d" using notifications_adds [OF ok] reg past by blast
  next
    fix i c e assume n: "(i, c, e) \<in> set ?ns" and c: "cancels c"
    obtain d where d: "(i, d) \<in> set (listeners w)" "c = m_notifyCallback d"
      using n unfolding set_notifications by (auto simp: BloomEventDesc_def)
    show "i \<notin> fst ` set (filter (\<lambda>(i, d). P d) (listeners w))"
    proof
      assume "i \<in> fst ` set (filter (\<lambda>(i, d). P d) (listeners w))"
      then obtain d' where "(i, d') \<in> set (listeners w)" "P d'" by auto
      moreover from this have "d' = d" using ok d(1) eq_key_imp_eq_value [of "listeners w" i] by (simp add: listeners_ok_def)
      ultimately show False using keep c d(2) by blast
    qed
  qed
  then show "filter (\<lambda>(i, d). P d) (listeners w') = filter (\<lambda>(i, d). P d) (listeners w)"
    and "svc_frame (m_svcStore (client w')) = svc_frame (m_svcStore (client w))" by blast+
qed

lemma Builds_frame:
  assumes "svc_frame s = svc_frame s'"
  shows "BuildRegEventDescr s = BuildRegEventDescr s'" "BuildNotifyPastEventDescr a s = BuildNotifyPastEventDescr a s'"
    "m_notifyEvTopic s = m_notifyEvTopic s'" "registrations s rm = registrations s' rm"
    "block_events s a hdr rm = block_events s' a hdr rm"
  using assms by (simp_all add: svc_frame_def BuildRegEventDescr_def BuildNotifyPastEventDescr_def registrations_def block_events_def)

text \<open>What checking the events of a header does.\<close>

lemma CheckEvents_pubsub:
  assumes C: "CheckEvents (pubsub_callback alloc) hdr (\<lambda>n. Inr rm) w = Inr w'" and ok: "listeners_ok w" and b: "block_ok hdr rm"
  shows "svc_frame (m_svcStore (client w')) = svc_frame (m_svcStore (client w))" and "listeners_ok w'"
    and "subscribed w a em \<Longrightarrow> subscribed w' a em \<and>
      eventQueues (client w') ! fst em = eventQueues (client w) ! fst em @ block_events (m_svcStore (client w)) a hdr rm"
    and "recorded w a \<Longrightarrow> a \<notin> snd ` registrations (m_svcStore (client w)) rm \<Longrightarrow> recorded w' a \<and>
      GetPastEvents a (m_svcStore (client w')) = GetPastEvents a (m_svcStore (client w)) @ block_events (m_svcStore (client w)) a hdr rm"
proof -
  let ?bloom = "LogsBloom (m_rawHeader hdr)" and ?svc = "m_svcStore (client w)"
  let ?es = "concat (m_receipts rm)" and ?ns = "notifications (BloomEventDesc ?bloom (listeners w)) rm"
  have N: "notify (pubsub_callback alloc) hdr ?ns w = Inr w'"
    using C b CheckEvents_notify [of "\<lambda>n. Inr rm" hdr rm "pubsub_callback alloc" w] by (simp add: block_ok_def)
  show frame: "svc_frame (m_svcStore (client w')) = svc_frame ?svc"
    by (rule header_stable(2) [OF N ok, of "\<lambda>_. False"]) simp_all
  note B = Builds_frame [OF frame]
  have "d = BuildRegEventDescr ?svc" if d: "(j, d) \<in> set (listeners w')" "m_notifyCallback d = UserCallback RegEvent" for j d
  proof -
    consider "(j, d) \<in> set (listeners w)" | i c e where "(i, c, e) \<in> set ?ns" "d \<in> adds ?svc c e"
      using notify_new [OF N d(1)] by blast
    then show ?thesis
    proof cases
      case 1
      then show ?thesis using ok d(2) by (auto simp: listeners_ok_def)
    next
      case (2 i c e)
      then show ?thesis using notifications_adds [OF ok 2] d(2) by (auto simp: BuildNotifyPastEventDescr_def)
    qed
  qed
  moreover have "q < length (eventQueues (client w'))"
    if d: "(j, d) \<in> set (listeners w')" "m_notifyCallback d = UserCallback (NotifyEvent q)" for j d q
  proof -
    have "(j, d) \<in> set (listeners w)"
      using notify_new [OF N d(1)] notifications_adds [OF ok] d(2)
      by (fastforce simp: BuildRegEventDescr_def BuildNotifyPastEventDescr_def)
    then have "q < length (eventQueues (client w))" using ok d(2) by (auto simp: listeners_ok_def)
    then show ?thesis using notify_queue [OF N] by simp
  qed
  ultimately show "listeners_ok w'"
    using notify_distinct [OF N] ok B(1) by (auto simp: listeners_ok_def)
  show "subscribed w' a em \<and>
      eventQueues (client w') ! fst em = eventQueues (client w) ! fst em @ block_events ?svc a hdr rm" if s: "subscribed w a em"
  proof -
    let ?P = "\<lambda>d. m_notifyCallback d = UserCallback (NotifyEvent (fst em)) :: bool"
    let ?d = "BuildNotifyEventDescr a (m_notifyEvTopic ?svc) (fst em)"
    have f: "filter (\<lambda>(i, d). ?P d) (listeners w') = filter (\<lambda>(i, d). ?P d) (listeners w)"
      by (rule header_stable(1) [OF N ok]) (simp_all add: BuildRegEventDescr_def BuildNotifyPastEventDescr_def cancels_def)
    have p: "fst em < length (eventQueues (client w))" and one: "filter (\<lambda>(i, d). ?P d) (listeners w) = [(snd em, ?d)]"
      using s by (simp_all add: subscribed_def)
    note q = notify_queue [OF N p]
    have "queue_events hdr (fst em) ?ns = map (event_of hdr) (filter (desc_matches ?d) ?es)"
      unfolding queue_notifications filter_Bloom one by (rule bloom_single) (use b in \<open>simp_all add: block_ok_def\<close>)
    then have "queue_events hdr (fst em) ?ns = block_events ?svc a hdr rm"
      by (simp add: BuildNotifyEventDescr_def matches_topic block_events_def del: set_concat)
    then show ?thesis using q p f one B(3) by (simp add: subscribed_def)
  qed
  show "recorded w' a \<and> GetPastEvents a (m_svcStore (client w')) = GetPastEvents a ?svc @ block_events ?svc a hdr rm"
    if r: "recorded w a" "a \<notin> snd ` registrations ?svc rm"
  proof -
    let ?P = "\<lambda>d. m_notifyCallback d = UserCallback NotifyPastEvent \<and> m_contractAddr d = a :: bool"
    let ?d = "BuildNotifyPastEventDescr a ?svc"
    have "\<not> ?P (BuildNotifyPastEventDescr a' ?svc)" if "(pub, a') \<in> registrations ?svc rm" for pub a'
      using that r(2) by (force simp: BuildNotifyPastEventDescr_def EventDescription_new_def)
    then have f: "filter (\<lambda>(i, d). ?P d) (listeners w') = filter (\<lambda>(i, d). ?P d) (listeners w)"
      by (intro header_stable(1) [OF N ok]) (auto simp: BuildRegEventDescr_def cancels_def)
    obtain j q where one: "filter (\<lambda>(i, d). ?P d) (listeners w) = [(j, ?d)]" and q: "map_of (m_pastEventStore ?svc) a = Some q"
      using r(1) by (auto simp: recorded_def)
    have "past_of hdr a ?ns = map (event_of hdr) (filter (desc_matches ?d) ?es)"
      unfolding past_notifications filter_Bloom one by (rule bloom_single) (use b in \<open>simp_all add: block_ok_def\<close>)
    then have "past_of hdr a ?ns = block_events ?svc a hdr rm"
      by (simp add: BuildNotifyPastEventDescr_def matches_topic block_events_def del: set_concat)
    then have "map_of (m_pastEventStore (m_svcStore (client w'))) a = Some (q @ block_events ?svc a hdr rm)"
      using notify_past [OF N q] by simp
    then show ?thesis using f one q B(2) by (simp add: recorded_def GetPastEvents_def)
  qed
qed

section \<open>Runs of the service\<close>

text \<open>What happens while a subscriber is served: a header is processed, with the receipts of its block, or the
  subscriber's emitter sends its queue.\<close>

datatype ServiceStep = Block HeaderMgr ReceiptsMgr | Emit

fun service_run :: "(nat list \<Rightarrow> nat) \<Rightarrow> (EventDataQueue \<Rightarrow> Exception + bytes) \<Rightarrow> (bytes \<Rightarrow> Exception + unit) \<Rightarrow> EmitterRec
    \<Rightarrow> ServiceStep list \<Rightarrow> pubsub_world \<times> EventDataQueue \<Rightarrow> Exception + (pubsub_world \<times> EventDataQueue)" where
  "service_run alloc buildMsg send em [] (w, sent) = Inr (w, sent)"
| "service_run alloc buildMsg send em (Block hdr rm # steps) (w, sent) =
     bindE (CheckEvents (pubsub_callback alloc) hdr (\<lambda>n. Inr rm) w) (\<lambda>w.
     service_run alloc buildMsg send em steps (w, sent))"
| "service_run alloc buildMsg send em (Emit # steps) (w, sent) =
     (let (r, ls, s) = EmitterHandler buildMsg send em (listeners w, client w) in
      bindE r (\<lambda>_.
      service_run alloc buildMsg send em steps
        (w\<lparr>listeners := ls, client := s\<rparr>, sent @ eventQueues (client w) ! fst em)))"

definition steps_ok :: "PubsubServiceStore \<Rightarrow> bytes \<Rightarrow> ServiceStep list \<Rightarrow> bool" where
  "steps_ok svc a steps \<longleftrightarrow>
     (\<forall>hdr rm. Block hdr rm \<in> set steps \<longrightarrow> block_ok hdr rm \<and> a \<notin> snd ` registrations svc rm)"

fun stream :: "PubsubServiceStore \<Rightarrow> bytes \<Rightarrow> ServiceStep list \<Rightarrow> EventDataQueue" where
  "stream svc a [] = []"
| "stream svc a (Block hdr rm # steps) = block_events svc a hdr rm @ stream svc a steps"
| "stream svc a (Emit # steps) = stream svc a steps"

lemma stream_frame:
  assumes "svc_frame s = svc_frame s'"
  shows "stream s a steps = stream s' a steps"
proof (induction steps)
  case (Cons st steps)
  then show ?case using Builds_frame(5) [OF assms] by (cases st) simp_all
qed simp

lemma steps_frame: "svc_frame s = svc_frame s' \<Longrightarrow> steps_ok s a steps = steps_ok s' a steps"
  using Builds_frame(4) [of s s'] by (simp add: steps_ok_def)

lemma service_run_events:
  assumes "service_run alloc buildMsg send em steps (w, sent) = Inr (w', sent')"
    and "listeners_ok w" and "subscribed w a em" and "recorded w a" and "steps_ok (m_svcStore (client w)) a steps"
  shows "listeners_ok w' \<and> subscribed w' a em \<and> recorded w' a \<and> svc_frame (m_svcStore (client w')) = svc_frame (m_svcStore (client w))
    \<and> GetPastEvents a (m_svcStore (client w')) = GetPastEvents a (m_svcStore (client w)) @ stream (m_svcStore (client w)) a steps
    \<and> sent' @ eventQueues (client w') ! fst em = sent @ eventQueues (client w) ! fst em @ stream (m_svcStore (client w)) a steps"
  using assms
proof (induction steps arbitrary: w sent)
  case (Cons st steps)
  show ?case
  proof (cases st)
    case (Block hdr rm)
    then obtain w1 where w1: "CheckEvents (pubsub_callback alloc) hdr (\<lambda>n. Inr rm) w = Inr w1"
      "service_run alloc buildMsg send em steps (w1, sent) = Inr (w', sent')"
      using Cons.prems(1) by (auto simp: sum_simps)
    have b: "block_ok hdr rm" "a \<notin> snd ` registrations (m_svcStore (client w)) rm" and st: "steps_ok (m_svcStore (client w)) a steps"
      using Cons.prems(5) Block by (auto simp: steps_ok_def)
    note c = CheckEvents_pubsub [OF w1(1) Cons.prems(2) b(1)]
    note s = c(3) [OF Cons.prems(3)] and r = c(4) [OF Cons.prems(4) b(2)]
    have st1: "steps_ok (m_svcStore (client w1)) a steps" using st steps_frame [OF c(1)] by simp
    show ?thesis
      using Cons.IH [OF w1(2) c(2) conjunct1 [OF s] conjunct1 [OF r] st1] s r c(1) stream_frame [OF c(1)] Block by simp
  next
    case Emit
    let ?q = "eventQueues (client w) ! fst em"
    let ?w1 = "w\<lparr>client := (client w)\<lparr>eventQueues := (eventQueues (client w))[fst em := []]\<rparr>\<rparr>"
    obtain r ls s where e: "EmitterHandler buildMsg send em (listeners w, client w) = (r, ls, s)" by (cases "EmitterHandler buildMsg send em (listeners w, client w)")
    obtain msg where "r = Inr msg" and run: "service_run alloc buildMsg send em steps (w\<lparr>listeners := ls, client := s\<rparr>, sent @ ?q) = Inr (w', sent')"
      using Cons.prems(1) Emit e by (auto simp: sum_simps)
    then have "ls = listeners w \<and> s = client ?w1"
      using e by (auto simp: EmitterHandler_def case_prod_beta Let_def split: sum.splits)
    then have "w\<lparr>listeners := ls, client := s\<rparr> = ?w1" by simp
    with run have run1: "service_run alloc buildMsg send em steps (?w1, sent @ ?q) = Inr (w', sent')" by simp
    have "listeners_ok ?w1" "subscribed ?w1 a em" "recorded ?w1 a" "steps_ok (m_svcStore (client ?w1)) a steps"
      using Cons.prems(2-5) Emit by (auto simp: listeners_ok_def subscribed_def recorded_def steps_ok_def)
    note IH = Cons.IH [OF run1 this]
    have "eventQueues (client ?w1) ! fst em = []" using Cons.prems(3) by (simp add: subscribed_def)
    then show ?thesis using IH Emit by simp
  qed
qed simp

lemma SubReq_listen_world:
  assumes L: "SubReq_listen alloc pub (listeners w, client w) = (Some (a, em), ls, s)" and alloc: "allocator alloc"
    and ok: "listeners_ok w" and r: "recorded w a"
  defines "w1 \<equiv> w\<lparr>listeners := ls, client := s\<rparr>"
  shows "listeners_ok w1 \<and> subscribed w1 a em \<and> recorded w1 a \<and> m_svcStore (client w1) = m_svcStore (client w)
    \<and> eventQueues (client w1) ! fst em = [] \<and> a = GetEventMgrAddr pub (m_svcStore (client w))"
proof -
  let ?n = "length (eventQueues (client w))"
  let ?d = "BuildNotifyEventDescr a (m_notifyEvTopic (m_svcStore (client w))) ?n"
  have a: "a = GetEventMgrAddr pub (m_svcStore (client w))"
    using L by (auto simp: SubReq_listen_def Let_def case_prod_beta split: if_splits)
  obtain i ls' where li: "Listen alloc ?d (listeners w) = (i, ls')" by force
  have e: "a = GetEventMgrAddr pub (m_svcStore (client w))" "em = (?n, i)" "ls = ls'"
    "s = (client w)\<lparr>eventQueues := eventQueues (client w) @ [[]]\<rparr>"
    using L li unfolding a by (auto simp: SubReq_listen_def Let_def split: if_splits)
  have new: "ls' = listeners w @ [(i, ?d)]" and i: "map_of (listeners w) i = None"
    using allocator.Listen_new [OF alloc li] by blast+
  have none: "filter (\<lambda>(j, d). m_notifyCallback d = UserCallback (NotifyEvent ?n)) (listeners w) = []"
    using ok by (auto simp: listeners_ok_def filter_empty_conv)
  have "i \<notin> fst ` set (listeners w)" using i by (simp add: map_of_eq_None_iff)
  then have "listeners_ok w1"
    using ok unfolding w1_def e new
    by (fastforce simp: listeners_ok_def BuildNotifyEventDescr_def less_SucI)
  moreover have "subscribed w1 a em"
    using none by (simp add: w1_def e new subscribed_def BuildNotifyEventDescr_def)
  moreover have "recorded w1 a" using r by (simp add: w1_def e new recorded_def BuildNotifyEventDescr_def)
  ultimately show ?thesis by (simp add: w1_def e)
qed

section \<open>An instance\<close>

text \<open>A service that has one publisher, at the address 2 with the event manager 3, and the receipts of a block with one
  event whose message is the byte 5.\<close>

definition demo_svc :: PubsubServiceStore where
  "demo_svc = \<lparr>m_pubsubContAddr = [1], m_deployEvTopic = [6], m_regEvTopic = [7], m_notifyEvTopic = [8],
     m_isDeployed = True, m_evMgrAddrMap = [([2], [3])], m_pastEventStore = [([3], [])]\<rparr>"

definition demo_event :: ReceiptLogEntry where
  "demo_event = \<lparr>log_contractAddr = [3], log_topics = [[8]], log_logData = abi_word 32 @ abi_word 1 @ abi_pad [5]\<rparr>"

definition demo_block :: ReceiptsMgr where
  "demo_block = \<lparr>m_receipts = [[demo_event]], m_rootHashBytes = [9]\<rparr>"

definition demo_world :: pubsub_world where
  "demo_world = \<lparr>listeners = [(0, BuildNotifyPastEventDescr [3] demo_svc)], sync_states = [],
     client = \<lparr>m_svcStore = demo_svc, eventQueues = [], receiptQueues = []\<rparr>\<rparr>"

definition demo_subscribed :: "PubsubEventManager \<times> PubsubState" where
  "demo_subscribed =
     ([(0, BuildNotifyPastEventDescr [3] demo_svc), (1, BuildNotifyEventDescr [3] [8] 0)],
      \<lparr>m_svcStore = demo_svc, eventQueues = [[]], receiptQueues = []\<rparr>)"

abbreviation "demo_data \<equiv> abi_word 32 @ abi_word 1 @ abi_pad [5 :: byte]"

lemma demo_parse: "AbiParser_ToPrimitive AbiBytes demo_data demo_data = Inr (VBytes [5], abi_word 1 @ abi_pad [5])"
proof -
  have l: "length demo_data = 96" by (simp add: length_abi_pad)
  then have "\<exists>offset more. offset \<le> length demo_data \<and> demo_data = abi_word offset @ abi_word 1 @ abi_pad [5]
      \<and> length [5 :: byte] < 2 ^ 63 \<and> drop offset demo_data = abi_word (length [5 :: byte]) @ abi_pad [5] @ more"
    by (intro exI [of _ 32] exI [of _ "[]"]) simp
  then show ?thesis using bytes_argument_iff [of demo_data "[5]" "abi_word 1 @ abi_pad [5]"] l by simp
qed

lemma demo_listen: "SubReq_listen first_free [2] (listeners demo_world, client demo_world) = (Some ([3], 0, 1), demo_subscribed)"
  by (simp add: SubReq_listen_def demo_world_def demo_svc_def demo_subscribed_def GetEventMgrAddr_def Listen_def first_free_def
      map_emplace_def Let_def numeral_eq_Suc)

abbreviation "demo_event_data \<equiv> event_data demo_header [5]"

definition demo_world1 :: pubsub_world where
  "demo_world1 = demo_world\<lparr>listeners := fst demo_subscribed, client := snd demo_subscribed\<rparr>"

definition demo_world2 :: pubsub_world where
  "demo_world2 = demo_world1\<lparr>client := \<lparr>m_svcStore = demo_svc\<lparr>m_pastEventStore := [([3], [demo_event_data])]\<rparr>,
     eventQueues = [[demo_event_data]], receiptQueues = []\<rparr>\<rparr>"

lemma demo_CheckEvents_pubsub:
  "CheckEvents (pubsub_callback alloc) demo_header (\<lambda>n. Inr demo_block) demo_world1 = Inr demo_world2"
proof -
  have "notify (pubsub_callback alloc) demo_header (notifications (listeners demo_world1) demo_block) demo_world1 = Inr demo_world2"
    by (simp add: notifications_def demo_world1_def demo_world2_def demo_world_def demo_subscribed_def demo_block_def
        demo_event_def desc_matches_def BuildNotifyPastEventDescr_def BuildNotifyEventDescr_def EventDescription_new_def
        NotifyPastEventHandler_def NotifyEventHandler_def demo_svc_def demo_parse [unfolded One_nat_def] Let_def map_assign_def)
  then show ?thesis
    by (subst CheckEvents_notify [of _ _ demo_block])
      (simp_all only: demo_bloom, simp_all add: demo_block_def demo_header_def)
qed

section \<open>Properties\<close>



text \<open>C14. Every outcome of a subscription request. A publisher without an event manager changes nothing. Otherwise the
  listener is registered under a fresh handle, with a new queue, before the answer is sent: if the answer is sent, one
  emitter owns the queue and the listener; if building or sending it fails, the exception is passed on and no emitter
  owns them, so the listener stays and nothing ever empties its queue.\<close>

theorem SubReq_outcomes:
  assumes "allocator alloc" and "SubReq alloc buildMsg send pub (ls, s) emitters = (r, emitters', ls', s')"
  defines "a \<equiv> GetEventMgrAddr pub (m_svcStore s)" and "q \<equiv> length (eventQueues s)"
  shows "if a = replicate 20 0 then r = Inr () \<and> emitters' = emitters \<and> ls' = ls \<and> s' = s
    else \<exists>i. map_of ls i = None \<and> ls' = ls @ [(i, BuildNotifyEventDescr a (m_notifyEvTopic (m_svcStore s)) q)]
      \<and> s' = s\<lparr>eventQueues := eventQueues s @ [[]]\<rparr>
      \<and> (case bindE (buildMsg (GetPastEvents a (m_svcStore s))) send of
           Inl e \<Rightarrow> r = Inl e \<and> emitters' = emitters
         | Inr _ \<Rightarrow> r = Inr () \<and> emitters' = emitters @ [(q, i)])"
proof (cases "a = replicate 20 0")
  case True
  then show ?thesis using assms(2) by (simp add: SubReq_def SubReq_listen_def a_def)
next
  case False
  let ?d = "BuildNotifyEventDescr a (m_notifyEvTopic (m_svcStore s)) q"
  obtain i ls1 where li: "Listen alloc ?d ls = (i, ls1)" by force
  have "ls1 = ls @ [(i, ?d)]" "map_of ls i = None" using allocator.Listen_new [OF assms(1) li] by blast+
  with False li assms(2) show ?thesis
    by (auto simp: SubReq_def SubReq_listen_def SubReq_answer_def AddEmitter_def a_def q_def Let_def bindE_def
        intro!: exI [of _ i] split: sum.splits prod.splits)
qed

theorem SubReq_outcomes_witness:
  "\<exists>i. SubReq first_free (\<lambda>q. Inr []) (\<lambda>m. Inl (Exception ''closed'')) [2] (listeners demo_world, client demo_world) []
      = (Inl (Exception ''closed''), [], listeners demo_world @ [(i, BuildNotifyEventDescr [3] [8] 0)],
         (client demo_world)\<lparr>eventQueues := [[]]\<rparr>)"
proof -
  obtain r em ls s where e: "SubReq first_free (\<lambda>q. Inr []) (\<lambda>m. Inl (Exception ''closed'')) [2] (listeners demo_world, client demo_world) []
      = (r, em, ls, s)" by (metis prod.exhaust)
  show ?thesis
    using SubReq_outcomes [OF ff.allocator_axioms e] e
    by (auto simp: demo_world_def demo_svc_def GetEventMgrAddr_def numeral_eq_Suc bindE_def)
qed

end
