(* ===== verification/EthBlockchainMgr.thy ===== *)
theory EthBlockchainMgr
  imports EthMonitor EthPubsub
begin

text \<open>
  \<open>EthereumClt/Trusted/BlockchainMgr.hpp\<close> and \<open>HostBlockService.hpp\<close>: the client of the monitor inside the enclave. It
  owns the monitor, the publish/subscribe service and the handle of the untrusted host, which delivers the receipts of a
  block and the number of the latest block, and its callbacks refresh the bootstrap plan and note the checkpoint.

  The answers of the host are arbitrary: the record \<open>HostBlockService\<close> gives them for each call of a callback, the call
  \<open>0\<close> being the constructor's. The lines the status log gets are kept in the state. The mutex of the monitor is not
  modelled, each call is atomic.
\<close>

section \<open>State\<close>

record HostBlockService =
  ocall_get_receipts :: "nat \<Rightarrow> BlockNumber \<Rightarrow> Exception + bytes"
  ocall_get_latest_blknum :: "nat \<Rightarrow> Exception + BlockNumber"

definition GetReceiptsRlpByNum :: "HostBlockService \<Rightarrow> nat \<Rightarrow> BlockNumber \<Rightarrow> Exception + rlp" where
  "GetReceiptsRlpByNum host n blockNum =
     bindE (ocall_get_receipts host n blockNum) (\<lambda>rlp.
     (case ParserBase_Parse GeneralParser rlp True of
        Inl e \<Rightarrow> Inl (RlpParseError e)
      | Inr obj \<Rightarrow> Inr obj))"

definition GetLatestBlockNum :: "HostBlockService \<Rightarrow> nat \<Rightarrow> Exception + BlockNumber" where
  "GetLatestBlockNum host n = ocall_get_latest_blknum host n"

type_synonym StatusLine = "string \<times> bytes \<times> bytes \<times> u64"

record BlockchainClient =
  m_subSvc :: PubsubState
  m_lastChkptIter :: u64
  m_lastValidatedBlkNum :: bytes
  host_calls :: nat
  status_log :: "StatusLine list"

type_synonym BlockchainMonitor = "(PubsubCallback, BlockchainClient) EclipseMonitor"

definition on_client :: "(BlockchainClient \<Rightarrow> BlockchainClient) \<Rightarrow> BlockchainMonitor \<Rightarrow> BlockchainMonitor" where
  "on_client f m = m\<lparr>events := (events m)\<lparr>client := f (client (events m))\<rparr>\<rparr>"

text \<open>The callbacks of the service, on the part of the state that is the service's.\<close>

definition blockchain_callback :: "(nat list \<Rightarrow> nat) \<Rightarrow> (PubsubCallback, BlockchainClient) user_callback" where
  "blockchain_callback alloc c hdr log cbID = (\<lambda>(ls, cl).
     bindE (pubsub_callback alloc c hdr log cbID (ls, m_subSvc cl)) (\<lambda>(ls, s). Inr (ls, cl\<lparr>m_subSvc := s\<rparr>)))"

section \<open>The callbacks of the monitor\<close>

definition receiptsMgrGetter :: "HostBlockService \<Rightarrow> nat \<Rightarrow> BlockNumber \<Rightarrow> Exception + ReceiptsMgr" where
  "receiptsMgrGetter host n blkNum = bindE (bindE (GetReceiptsRlpByNum host n blkNum) AsList) ReceiptsMgr_new"

definition OnHeaderValidated :: "(nat list \<Rightarrow> nat) \<Rightarrow> HostBlockService \<Rightarrow> HeaderMgr \<Rightarrow> BlockchainMonitor
    \<Rightarrow> Exception + BlockchainMonitor" where
  "OnHeaderValidated alloc host hdr m =
     (let n = host_calls (client (events m));
          m = on_client (\<lambda>cl. cl\<lparr>m_lastValidatedBlkNum := hdr_Number (m_rawHeader hdr), host_calls := n + 1\<rparr>) m
      in bindE (CheckEvents (blockchain_callback alloc) hdr (receiptsMgrGetter host n) (events m)) (\<lambda>ev.
         let m = m\<lparr>events := ev\<rparr> in
         case m_phase m of
           BootstrapI \<Rightarrow>
             if m_blkNum hdr = m_bootstrapIEndBlkNum m
             then bindE (GetLatestBlockNum host n) (\<lambda>latestBlkNum. RefreshBootstrapPlan latestBlkNum None m)
             else Inr m
         | BootstrapII \<Rightarrow> bindE (GetLatestBlockNum host n) (\<lambda>latestBlkNum. RefreshBootstrapPlan latestBlkNum None m)
         | _ \<Rightarrow> Inr m))"

definition LogMonitorStatus :: "BlockchainMonitor \<Rightarrow> StatusLine" where
  "LogMonitorStatus m =
     (let phase = m_phase m;
          phaseStr = (if phase = BootstrapI then ''BootstrapII'' else if phase = BootstrapII then ''BootstrapII''
                      else if phase = Sync then ''Sync'' else ''Runtime'');
          secState = m_mSecState m
      in (phaseStr, genesisHash secState, checkpointHash secState, checkpointIter secState))"

definition OnHeaderConfirmed :: "HeaderMgr \<Rightarrow> BlockchainMonitor \<Rightarrow> Exception + BlockchainMonitor" where
  "OnHeaderConfirmed hdr m =
     (let chkptIter = checkpointIter (m_mSecState m) in
      if m_lastChkptIter (client (events m)) \<noteq> chkptIter
      then
        let m = on_client (\<lambda>cl. cl\<lparr>m_lastChkptIter := chkptIter\<rparr>) m;
            logStatus = (case m_phase m of BootstrapI \<Rightarrow> chkptIter mod 3 = 0 | _ \<Rightarrow> True)
        in Inr (if logStatus then on_client (\<lambda>cl. cl\<lparr>status_log := status_log cl @ [LogMonitorStatus m]\<rparr>) m else m)
      else Inr m)"

definition BlockchainEnv :: "NetworkConfig \<Rightarrow> DAABase \<Rightarrow> (nat list \<Rightarrow> nat) \<Rightarrow> HostBlockService
    \<Rightarrow> BlockchainMonitor MonitorEnv" where
  "BlockchainEnv net daa alloc host =
     \<lparr>env_net = net, env_daa = daa, env_alloc = alloc,
      m_onHeaderValidated = OnHeaderValidated alloc host, m_onHeaderConfirmed = OnHeaderConfirmed\<rparr>"

section \<open>The manager\<close>

definition on_service :: "(PubsubEventManager \<times> PubsubState \<Rightarrow> PubsubEventManager \<times> PubsubState)
    \<Rightarrow> BlockchainMonitor \<Rightarrow> BlockchainMonitor" where
  "on_service f m =
     (let ev = events m;
          (ls, s) = f (listeners ev, m_subSvc (client ev))
      in m\<lparr>events := ev\<lparr>listeners := ls, client := (client ev)\<lparr>m_subSvc := s\<rparr>\<rparr>\<rparr>)"

definition BlockchainMgr_new :: "BlockchainMonitor MonitorEnv \<Rightarrow> HostBlockService \<Rightarrow> MonitorConfig \<Rightarrow> bytes \<Rightarrow> DAABase
    \<Rightarrow> Difficulty \<Rightarrow> Platform \<Rightarrow> BlockNumber \<Rightarrow> bytes \<Rightarrow> bytes \<Rightarrow> PubsubServiceStore \<Rightarrow> Exception + BlockchainMonitor" where
  "BlockchainMgr_new env host mConfig sessionID est garbage plat startBlockNum syncContractAddr syncEventSign subSvc =
     (let cl = \<lparr>m_subSvc = \<lparr>m_svcStore = subSvc, eventQueues = [], receiptQueues = []\<rparr>,
               m_lastChkptIter = 0, m_lastValidatedBlkNum = [], host_calls = 1, status_log = []\<rparr>
      in bindE (EclipseMonitor_new env mConfig sessionID est garbage plat syncContractAddr (Keccak256 syncEventSign) cl) (\<lambda>m.
         bindE (GetLatestBlockNum host 0) (\<lambda>latestBlkNum.
         bindE (RefreshBootstrapPlan latestBlkNum (Some startBlockNum) m) (\<lambda>m.
         Inr (on_service (\<lambda>(ls, s).
           let (ls, svc) = Start (env_alloc env) (ls, m_svcStore s) in (ls, s\<lparr>m_svcStore := svc\<rparr>)) m)))))"

definition AppendBlock :: "BlockchainMonitor MonitorEnv \<Rightarrow> Platform \<Rightarrow> bytes \<Rightarrow> BlockchainMonitor
    \<Rightarrow> Exception + BlockchainMonitor" where
  "AppendBlock env plat headerRlp m = Update env plat headerRlp m"

text \<open>What can happen to a manager: a block arrives, a subscriber asks for the events of a publisher or for the receipts of
  a contract, the emitters send their queues. An emitter that fails cancels its listener.\<close>

datatype BlockchainCall =
    Append Platform bytes
  | Subscribe bytes
  | SubscribeReceipts bytes "bytes list"
  | EmitEvents "EventDataQueue \<Rightarrow> Exception + bytes" "bytes \<Rightarrow> Exception + unit" EmitterRec
  | EmitReceipts "ReceiptData list \<Rightarrow> Exception + bytes" "bytes \<Rightarrow> Exception + unit" EmitterRec

fun blockchain_call :: "BlockchainMonitor MonitorEnv \<Rightarrow> BlockchainCall \<Rightarrow> BlockchainMonitor
    \<Rightarrow> Exception + BlockchainMonitor" where
  "blockchain_call env (Append plat b) m = AppendBlock env plat b m"
| "blockchain_call env (Subscribe pub) m = Inr (on_service (\<lambda>w. snd (SubReq_listen (env_alloc env) pub w)) m)"
| "blockchain_call env (SubscribeReceipts addr topics) m =
     Inr (on_service (\<lambda>w. snd (ReceiptSubReq (env_alloc env) addr topics w [])) m)"
| "blockchain_call env (EmitEvents buildMsg send em) m = Inr (on_service (\<lambda>w. snd (EmitterHandler buildMsg send em w)) m)"
| "blockchain_call env (EmitReceipts buildMsg send em) m =
     Inr (on_service (\<lambda>w. snd (SubscribedReceiptEmitter buildMsg send em w)) m)"

inductive blockchain_run :: "BlockchainMonitor MonitorEnv \<Rightarrow> HostBlockService \<Rightarrow> MonitorConfig \<Rightarrow> BlockNumber
    \<Rightarrow> BlockchainMonitor \<Rightarrow> HeaderMgr list \<Rightarrow> bool" for env host conf startBlk where
  start: "BlockchainMgr_new env host conf sid est g plat startBlk addr sign svc = Inr m \<Longrightarrow>
     blockchain_run env host conf startBlk m []"
| step: "blockchain_run env host conf startBlk m log \<Longrightarrow> blockchain_call env c m = Inr m' \<Longrightarrow>
     blockchain_run env host conf startBlk m' (log @ newly_confirmed m m')"

section \<open>The callbacks keep the monitor's frame\<close>

lemma frame_on_client: "frame (on_client f m) = frame m"
  by (simp add: frame_def on_client_def)

lemma frame_on_service: "frame (on_service f m) = frame m"
  by (simp add: frame_def on_service_def Let_def case_prod_beta)

lemma frame_events: "frame (m\<lparr>events := ev\<rparr>) = frame m"
  by (simp add: frame_def)

text \<open>The state in which the events of a header are checked.\<close>

definition validating :: "HeaderMgr \<Rightarrow> BlockchainMonitor \<Rightarrow> BlockchainMonitor" where
  "validating hdr m = on_client (\<lambda>cl. cl\<lparr>m_lastValidatedBlkNum := hdr_Number (m_rawHeader hdr),
     host_calls := host_calls (client (events m)) + 1\<rparr>) m"

lemma OnHeaderValidated_cases:
  assumes "OnHeaderValidated alloc host hdr m = Inr m'"
  obtains ev where "CheckEvents (blockchain_callback alloc) hdr (receiptsMgrGetter host (host_calls (client (events m))))
      (events (validating hdr m)) = Inr ev"
    and "m' = (validating hdr m)\<lparr>events := ev\<rparr> \<and> (m_phase m = BootstrapI \<longrightarrow> m_blkNum hdr \<noteq> m_bootstrapIEndBlkNum m) \<or>
      (m_phase m = BootstrapI \<longrightarrow> m_blkNum hdr = m_bootstrapIEndBlkNum m) \<and>
      (\<exists>b. GetLatestBlockNum host (host_calls (client (events m))) = Inr b \<and>
        RefreshBootstrapPlan b None ((validating hdr m)\<lparr>events := ev\<rparr>) = Inr m')"
proof -
  have p: "m_phase (validating hdr m) = m_phase m" "m_bootstrapIEndBlkNum (validating hdr m) = m_bootstrapIEndBlkNum m"
    by (simp_all add: validating_def on_client_def)
  obtain ev where ev: "CheckEvents (blockchain_callback alloc) hdr (receiptsMgrGetter host (host_calls (client (events m))))
      (events (validating hdr m)) = Inr ev"
    using assms by (auto simp: OnHeaderValidated_def validating_def Let_def bindE_eq_Inr)
  show thesis
    by (rule that [OF ev])
      (use assms ev p in \<open>cases "m_phase m"; auto simp: OnHeaderValidated_def bindE_eq_Inr Let_def
        simp flip: validating_def [simplified] split: if_splits\<close>)
qed

lemma OnHeaderValidated_frame:
  assumes "OnHeaderValidated alloc host hdr m = Inr m'"
  shows "frame m' = frame m"
proof (rule OnHeaderValidated_cases [OF assms])
  fix ev
  have f: "frame ((validating hdr m)\<lparr>events := ev\<rparr>) = frame m"
    unfolding frame_events by (simp add: validating_def frame_on_client)
  assume "m' = (validating hdr m)\<lparr>events := ev\<rparr> \<and> (m_phase m = BootstrapI \<longrightarrow> m_blkNum hdr \<noteq> m_bootstrapIEndBlkNum m) \<or>
      (m_phase m = BootstrapI \<longrightarrow> m_blkNum hdr = m_bootstrapIEndBlkNum m) \<and>
      (\<exists>b. GetLatestBlockNum host (host_calls (client (events m))) = Inr b \<and>
        RefreshBootstrapPlan b None ((validating hdr m)\<lparr>events := ev\<rparr>) = Inr m')"
  then show ?thesis using RefreshBootstrapPlan_frame [of _ None] f by metis
qed

lemma OnHeaderConfirmed_frame: "OnHeaderConfirmed hdr m = Inr m' \<Longrightarrow> frame m' = frame m"
  by (auto simp: OnHeaderConfirmed_def Let_def frame_on_client split: if_splits)

interpretation blockchain: monitor_client "BlockchainEnv net daa alloc host" for net daa alloc host
  by unfold_locales (simp_all add: BlockchainEnv_def OnHeaderValidated_frame OnHeaderConfirmed_frame)

section \<open>The service inside the manager\<close>

definition service_view :: "(PubsubCallback, BlockchainClient) event_state \<Rightarrow> pubsub_world" where
  "service_view w = \<lparr>listeners = listeners w, sync_states = sync_states w, client = m_subSvc (client w)\<rparr>"

lemma service_view_simps [simp]:
  "listeners (service_view w) = listeners w" "sync_states (service_view w) = sync_states w"
  "client (service_view w) = m_subSvc (client w)"
  by (simp_all add: service_view_def)

lemma run_callback_lift:
  assumes "run_callback (blockchain_callback alloc) hdr i c e w = Inr w'"
  shows "run_callback (pubsub_callback alloc) hdr i c e (service_view w) = Inr (service_view w')
    \<and> client w' = (client w)\<lparr>m_subSvc := m_subSvc (client w')\<rparr>"
proof (cases c)
  case (SyncCallback p)
  then have "w' = sync_callback p hdr i w" using assms by simp
  then show ?thesis using SyncCallback by (simp add: sync_callback_def service_view_def Let_def)
next
  case (UserCallback u)
  then obtain ls s where "pubsub_callback alloc u hdr e i (listeners w, m_subSvc (client w)) = Inr (ls, s)"
    and "w' = w\<lparr>listeners := ls, client := (client w)\<lparr>m_subSvc := s\<rparr>\<rparr>"
    using assms by (auto simp: blockchain_callback_def bindE_eq_Inr)
  then show ?thesis using UserCallback by (simp add: service_view_def)
qed

lemma notify_lift:
  "notify (blockchain_callback alloc) hdr ns w = Inr w' \<Longrightarrow>
     notify (pubsub_callback alloc) hdr ns (service_view w) = Inr (service_view w')
     \<and> client w' = (client w)\<lparr>m_subSvc := m_subSvc (client w')\<rparr>"
proof (induction ns arbitrary: w)
  case (Cons n ns)
  obtain i c e where n: "n = (i, c, e)" by (cases n)
  obtain w1 where w1: "run_callback (blockchain_callback alloc) hdr i c e w = Inr w1"
    "notify (blockchain_callback alloc) hdr ns w1 = Inr w'"
    using Cons.prems n by (auto simp: bindE_eq_Inr)
  have r: "run_callback (pubsub_callback alloc) hdr i c e (service_view w) = Inr (service_view w1)"
    and c: "client w1 = (client w)\<lparr>m_subSvc := m_subSvc (client w1)\<rparr>"
    using run_callback_lift [OF w1(1)] by blast+
  have s: "notify (pubsub_callback alloc) hdr ns (service_view w1) = Inr (service_view w')"
    and d: "client w' = (client w1)\<lparr>m_subSvc := m_subSvc (client w')\<rparr>"
    using Cons.IH [OF w1(2)] by blast+
  have "client w' = (client w)\<lparr>m_subSvc := m_subSvc (client w')\<rparr>" by (subst d, subst c) simp
  then show ?case using r s by (simp add: n)
qed simp

lemma CheckEvents_lift:
  assumes C: "CheckEvents (blockchain_callback alloc) hdr g w = Inr w'"
    and rm: "m_rootHashBytes rm = ReceiptsRoot (m_rawHeader hdr)"
    and g: "\<And>rm'. g (m_blkNum hdr) = Inr rm' \<Longrightarrow> m_rootHashBytes rm' = ReceiptsRoot (m_rawHeader hdr) \<Longrightarrow> rm' = rm"
  shows "CheckEvents (pubsub_callback alloc) hdr (\<lambda>n. Inr rm) (service_view w) = Inr (service_view w')"
proof (cases "BloomEventDesc (LogsBloom (m_rawHeader hdr)) (listeners w) = []")
  case True
  then show ?thesis using C by (simp add: CheckEvents_def)
next
  case False
  then obtain rm' where rm': "g (m_blkNum hdr) = Inr rm'" "m_rootHashBytes rm' = ReceiptsRoot (m_rawHeader hdr)"
    using C by (auto simp: CheckEvents_def bindE_eq_Inr Let_def split: if_splits)
  with g have "g (m_blkNum hdr) = Inr rm" by blast
  from CheckEvents_notify [of g, OF this rm] C
  have "notify (blockchain_callback alloc) hdr (notifications (BloomEventDesc (LogsBloom (m_rawHeader hdr)) (listeners w)) rm) w = Inr w'"
    by metis
  from notify_lift [OF this] show ?thesis
    by (subst CheckEvents_notify [of _ _ rm]) (simp_all add: rm)
qed

lemma CheckEvents_client:
  assumes "CheckEvents (blockchain_callback alloc) hdr g w = Inr w'"
  shows "client w' = (client w)\<lparr>m_subSvc := m_subSvc (client w')\<rparr>"
proof (cases "BloomEventDesc (LogsBloom (m_rawHeader hdr)) (listeners w) = []")
  case True
  then have "w' = w" using assms by (simp add: CheckEvents_def)
  then show ?thesis by simp
next
  case False
  then obtain rm' where "g (m_blkNum hdr) = Inr rm'" "m_rootHashBytes rm' = ReceiptsRoot (m_rawHeader hdr)"
    using assms by (auto simp: CheckEvents_def bindE_eq_Inr Let_def split: if_splits)
  with assms have "notify (blockchain_callback alloc) hdr
      (notifications (BloomEventDesc (LogsBloom (m_rawHeader hdr)) (listeners w)) rm') w = Inr w'"
    using CheckEvents_notify by metis
  from notify_lift [OF this] show ?thesis ..
qed

lemma RefreshBootstrapPlan_events: "RefreshBootstrapPlan latest start m = Inr m' \<Longrightarrow> events m' = events m"
  by (cases start) (auto simp: RefreshBootstrapPlan_def Let_def sum_simps split: Phases.splits)

text \<open>The events of the state after a header was validated are those that the check of its events left.\<close>

lemma OnHeaderValidated_events:
  assumes "OnHeaderValidated alloc host hdr m = Inr m'"
  shows "CheckEvents (blockchain_callback alloc) hdr (receiptsMgrGetter host (host_calls (client (events m))))
      (events (validating hdr m)) = Inr (events m')"
proof (rule OnHeaderValidated_cases [OF assms])
  fix ev
  assume ev: "CheckEvents (blockchain_callback alloc) hdr (receiptsMgrGetter host (host_calls (client (events m))))
      (events (validating hdr m)) = Inr ev"
    and "m' = (validating hdr m)\<lparr>events := ev\<rparr> \<and> (m_phase m = BootstrapI \<longrightarrow> m_blkNum hdr \<noteq> m_bootstrapIEndBlkNum m) \<or>
      (m_phase m = BootstrapI \<longrightarrow> m_blkNum hdr = m_bootstrapIEndBlkNum m) \<and>
      (\<exists>b. GetLatestBlockNum host (host_calls (client (events m))) = Inr b \<and>
        RefreshBootstrapPlan b None ((validating hdr m)\<lparr>events := ev\<rparr>) = Inr m')"
  then have "events m' = ev" using RefreshBootstrapPlan_events by fastforce
  with ev show ?thesis by simp
qed

section \<open>The last checkpoint\<close>

definition iter_ok :: "BlockchainMonitor \<Rightarrow> bool" where
  "iter_ok m \<longleftrightarrow> m_lastChkptIter (client (events m)) = checkpointIter (m_mSecState m)"

lemma OnHeaderConfirmed_iter: "OnHeaderConfirmed h m = Inr m' \<Longrightarrow> iter_ok m'"
  by (auto simp: OnHeaderConfirmed_def Let_def on_client_def iter_ok_def split: if_splits)

lemma OnHeaderValidated_iter:
  assumes "OnHeaderValidated alloc host h m = Inr m'"
  shows "iter_ok m' = iter_ok m"
proof -
  note c = CheckEvents_client [OF OnHeaderValidated_events [OF assms]]
  have "m_lastChkptIter (client (events m')) = m_lastChkptIter (client (events m))"
    by (subst c) (simp add: validating_def on_client_def)
  then show ?thesis using frameD(2) [OF OnHeaderValidated_frame [OF assms]] by (simp add: iter_ok_def)
qed

abbreviation "BEnv net daa alloc host \<equiv> BlockchainEnv net daa alloc host"

lemma BlockchainEnv_simps [simp]:
  "m_onHeaderValidated (BlockchainEnv net daa alloc host) = OnHeaderValidated alloc host"
  "m_onHeaderConfirmed (BlockchainEnv net daa alloc host) = OnHeaderConfirmed"
  "env_alloc (BlockchainEnv net daa alloc host) = alloc"
  "env_net (BlockchainEnv net daa alloc host) = net" "env_daa (BlockchainEnv net daa alloc host) = daa"
  by (simp_all add: BlockchainEnv_def)

lemma iter_ok_cong:
  "client (events m') = client (events m) \<Longrightarrow> checkpointIter (m_mSecState m') = checkpointIter (m_mSecState m) \<Longrightarrow>
     iter_ok m' = iter_ok m"
  by (simp add: iter_ok_def)

lemma iter_ok_simps [simp]:
  "iter_ok (m\<lparr>m_checkpoint := chk\<rparr>) = iter_ok m" "iter_ok (m\<lparr>m_diffChecker := dc\<rparr>) = iter_ok m"
  "iter_ok (m\<lparr>m_activeNodes := ns\<rparr>) = iter_ok m" "iter_ok (m\<lparr>m_offlineNodes := ns\<rparr>) = iter_ok m"
  "iter_ok (m\<lparr>next_addr := a\<rparr>) = iter_ok m" "iter_ok (m\<lparr>m_phase := p\<rparr>) = iter_ok m"
  by (simp_all add: iter_ok_def)

lemma confirm_headers_iter:
  "confirm_headers (BEnv net daa alloc host) hs m = Inr m' \<Longrightarrow> hs \<noteq> [] \<or> iter_ok m \<Longrightarrow> iter_ok m'"
proof (induction hs arbitrary: m)
  case (Cons h hs)
  then obtain m1 where "OnHeaderConfirmed h m = Inr m1" "confirm_headers (BEnv net daa alloc host) hs m1 = Inr m'"
    by (auto simp: bindE_eq_Inr)
  then show ?case using Cons.IH OnHeaderConfirmed_iter by blast
qed simp

lemma OnCheckpointComplete_iter:
  "OnCheckpointComplete (BEnv net daa alloc host) m = Inr m' \<Longrightarrow> IterateCurrWindow (m_checkpoint m) \<noteq> [] \<Longrightarrow> iter_ok m'"
  by (auto simp: OnCheckpointComplete_def bindE_eq_Inr Let_def dest: confirm_headers_iter)

lemma complete_window:
  "AddHeader h s = Inr (True, s') \<Longrightarrow> IterateCurrWindow s' \<noteq> []" "AddNode n s = (True, s') \<Longrightarrow> IterateCurrWindow s' \<noteq> []"
  by (auto simp: AddHeader_def AddNode_def IterateCurrWindow_def Let_def split: if_splits)

lemma UpdateOnBootstrapI_iter:
  assumes "UpdateOnBootstrapI (BEnv net daa alloc host) b m = Inr (n, m')" and "iter_ok m"
  shows "iter_ok m'"
proof -
  obtain h m1 m2 c chk where m1: "check_genesis (BEnv net daa alloc host) h m = Inr m1" and m2: "OnHeaderValidated alloc host h m1 = Inr m2"
    and chk: "AddHeader h (m_checkpoint m2) = Inr (c, chk)"
    and m3: "(if c then OnCheckpointComplete (BEnv net daa alloc host) (m2\<lparr>m_checkpoint := chk\<rparr>) else Inr (m2\<lparr>m_checkpoint := chk\<rparr>)) = Inr m'"
    using assms(1) by (auto simp: UpdateOnBootstrapI_def bindE_eq_Inr Let_def)
  have "iter_ok m1" using m1 assms(2) by (auto simp: check_genesis_def bindE_eq_Inr iter_ok_def split: if_splits)
  then have "iter_ok m2" using OnHeaderValidated_iter [OF m2] by simp
  then show ?thesis using m3 chk OnCheckpointComplete_iter complete_window(1) by (cases c) fastforce+
qed

lemma UpdateOnRuntime_iter:
  assumes "UpdateOnRuntime (BEnv net daa alloc host) plat b m = Inr (n, m')" and "iter_ok m"
  shows "iter_ok m'"
proof -
  have "iter_ok m'" if U: "UpdateOnRuntimeAddChild (BEnv net daa alloc host) p live h m = Inr m'" for p live h
  proof -
    have "m' = m \<or> (\<exists>m1. OnHeaderValidated alloc host h m = Inr m1 \<and> client (events m') = client (events m1)
        \<and> m_mSecState m' = m_mSecState m1)"
      using U by (auto simp: UpdateOnRuntimeAddChild_def bindE_eq_Inr Let_def split: option.splits if_splits)
    then show ?thesis using assms(2) OnHeaderValidated_iter by (metis iter_ok_def)
  qed
  moreover have "m' = m \<or> (\<exists>p live h. UpdateOnRuntimeAddChild (BEnv net daa alloc host) p live h m = Inr m')"
    using assms(1) by (auto simp: UpdateOnRuntime_def Let_def bindE_eq_Inr split: option.splits if_splits)
  ultimately show ?thesis using assms(2) by blast
qed

lemma PhaseChangeCheck_iter:
  assumes "PhaseChangeCheck env plat n m = Inr m'"
  shows "iter_ok m' = iter_ok m"
proof -
  have "client (events m') = client (events m) \<and> m_mSecState m' = m_mSecState m"
    using assms by (auto simp: PhaseChangeCheck_def EndBootstrapI_def RefreshSyncMsg_def EndBootstrapII_def Let_def bindE_eq_Inr
        split: Phases.splits if_splits)
  then show ?thesis by (simp add: iter_ok_def)
qed

lemma RuntimeMaintenance_iter:
  assumes "RuntimeMaintenance (BEnv net daa alloc host) plat m = Inr m'" and "iter_ok m"
  shows "iter_ok m'"
proof -
  obtain c rest m1 m2 where m1: "m1 = m\<lparr>m_checkpoint := (m_checkpoint m)\<lparr>m_lastNode := Some rest\<rparr>\<rparr>"
    and m2: "(case c of None \<Rightarrow> Inr m1 | Some child \<Rightarrow> confirm_child (BEnv net daa alloc host) rest child m1) = Inr m2"
    and e: "expire_loop (BEnv net daa alloc host) (maint_now plat) (m_activeNodes m2) m2 = Inr m'"
    using assms(1) by (auto simp: RuntimeMaintenance_def bindE_eq_Inr Let_def case_prod_beta)
  have "m' = m2" by (rule blockchain.expire_loop_same [OF e])
  have i: "iter_ok m1" using assms(2) m1 by simp
  show ?thesis
  proof (cases c)
    case None
    then show ?thesis using i m2 \<open>m' = m2\<close> by simp
  next
    case (Some child)
    obtain d chk where A: "AddNode child (m_checkpoint m1) = (d, chk)" by force
    show ?thesis
      using m2 Some A i \<open>m' = m2\<close> OnCheckpointComplete_iter complete_window(2) [of child "m_checkpoint m1" chk]
      by (cases d) (force simp: confirm_child_def Let_def split: if_splits)+
  qed
qed

lemma AppendBlock_iter:
  assumes "AppendBlock (BEnv net daa alloc host) plat b m = Inr m'" and "iter_ok m"
  shows "iter_ok m'"
proof -
  obtain n m1 m2 where m1: "(if m_phase m = BootstrapI then UpdateOnBootstrapI (BEnv net daa alloc host) b m
        else UpdateOnRuntime (BEnv net daa alloc host) plat b m) = Inr (n, m1)"
    and m2: "PhaseChangeCheck (BEnv net daa alloc host) plat n m1 = Inr m2"
    and m': "(if m_phase m2 \<noteq> BootstrapI then RuntimeMaintenance (BEnv net daa alloc host) plat m2 else Inr m2) = Inr m'"
    using assms(1) by (auto simp: AppendBlock_def Update_def bindE_eq_Inr)
  have "iter_ok m1" using m1 assms(2) UpdateOnBootstrapI_iter UpdateOnRuntime_iter by (cases "m_phase m = BootstrapI") auto
  then have "iter_ok m2" using PhaseChangeCheck_iter [OF m2] by simp
  then show ?thesis using m' RuntimeMaintenance_iter by (cases "m_phase m2 = BootstrapI") auto
qed

section \<open>Runs of the manager\<close>

lemma on_service_iter: "iter_ok (on_service f m) = iter_ok m"
  by (simp add: on_service_def iter_ok_def Let_def case_prod_beta)

definition manager_inv :: "MonitorConfig \<Rightarrow> BlockchainMonitor \<Rightarrow> HeaderMgr list \<Rightarrow> bool" where
  "manager_inv conf m log \<longleftrightarrow> monitor_inv m log \<and> m_mConfig m = conf \<and> m_phase m \<noteq> Runtime \<and> iter_ok m"

lemma manager_inv_frame:
  assumes "frame m' = frame m" and "iter_ok m' = iter_ok m" and "manager_inv conf m log"
  shows "manager_inv conf m' log"
  using assms frameD [OF assms(1)] monitor_inv_checkpoint [of m' m log] by (simp add: manager_inv_def)

lemma newly_confirmed_frame: "frame m' = frame m \<Longrightarrow> newly_confirmed m m' = []"
  using frameD(2) [of m' m] by (simp add: newly_confirmed_def)

lemma BlockchainMgr_new_inv:
  assumes N: "BlockchainMgr_new (BEnv net daa alloc host) host conf sid est g plat startBlk addr sign svc = Inr m"
    and n: "2 \<le> checkpointSize conf"
  shows "manager_inv conf m []"
proof -
  obtain m0 m1 f latest cl where m0: "EclipseMonitor_new (BEnv net daa alloc host) conf sid est g plat addr (Keccak256 sign) cl = Inr m0"
    and m1: "RefreshBootstrapPlan latest (Some startBlk) m0 = Inr m1" and m: "m = on_service f m1"
    and cl: "m_lastChkptIter cl = 0"
    using N by (auto simp: BlockchainMgr_new_def bindE_eq_Inr Let_def)
  have "monitor_inv m0 [] \<and> m_mConfig m0 = conf \<and> m_phase m0 \<noteq> Runtime"
    by (rule blockchain.monitor_run_inv [OF monitor_run.start [OF m0] n])
  moreover have "iter_ok m0" using m0 cl by (auto simp: EclipseMonitor_new_def bindE_eq_Inr iter_ok_def)
  ultimately have i0: "manager_inv conf m0 []" by (simp add: manager_inv_def)
  have f1: "frame m1 = frame m0" by (rule RefreshBootstrapPlan_frame [OF m1])
  have "iter_ok m1 = iter_ok m0"
    by (rule iter_ok_cong) (use RefreshBootstrapPlan_events [OF m1] frameD(2) [OF f1] in simp_all)
  then have "manager_inv conf m1 []" by (rule manager_inv_frame [OF f1 _ i0])
  then show ?thesis unfolding m by (rule manager_inv_frame [OF frame_on_service on_service_iter])
qed

lemma blockchain_call_inv:
  assumes C: "blockchain_call (BEnv net daa alloc host) c m = Inr m'" and i: "manager_inv conf m log"
  shows "manager_inv conf m' (log @ newly_confirmed m m')"
proof (cases "\<exists>plat b. c = Append plat b")
  case True
  then obtain plat b where A: "AppendBlock (BEnv net daa alloc host) plat b m = Inr m'" using C by auto
  then have U: "monitor_call (BEnv net daa alloc host) (CallUpdate plat b) m = Inr m'" by (simp add: AppendBlock_def)
  have "monitor_inv m log" "m_mConfig m = conf" "m_phase m \<noteq> Runtime" "iter_ok m" using i by (simp_all add: manager_inv_def)
  with blockchain.monitor_call_inv [OF _ U, of log] AppendBlock_iter [OF A]
  show ?thesis unfolding manager_inv_def by (cases "m_phase m") auto
next
  case False
  then obtain f where m': "m' = on_service f m" using C by (cases c) auto
  show ?thesis
    unfolding m' newly_confirmed_frame [OF frame_on_service] append_Nil2
    by (rule manager_inv_frame [OF frame_on_service on_service_iter i])
qed

lemma blockchain_run_inv:
  "blockchain_run (BEnv net daa alloc host) host conf startBlk m log \<Longrightarrow> 2 \<le> checkpointSize conf \<Longrightarrow> manager_inv conf m log"
  by (induction rule: blockchain_run.induct) (simp_all add: BlockchainMgr_new_inv blockchain_call_inv)

section \<open>The end of the first bootstrap phase\<close>

definition plan :: "('c, 's) EclipseMonitor \<Rightarrow> BlockNumber \<times> BlockNumber" where
  "plan m = (m_startBlockNum m, m_bootstrapIEndBlkNum m)"

lemma OnHeaderConfirmed_plan: "OnHeaderConfirmed h m = Inr m' \<Longrightarrow> plan m' = plan m"
  by (auto simp: OnHeaderConfirmed_def plan_def on_client_def Let_def split: if_splits)

lemma confirm_headers_plan: "confirm_headers (BEnv net daa alloc host) hs m = Inr m' \<Longrightarrow> plan m' = plan m"
  by (induction hs arbitrary: m) (auto simp: bindE_eq_Inr dest: OnHeaderConfirmed_plan)

lemma OnCheckpointComplete_plan: "OnCheckpointComplete (BEnv net daa alloc host) m = Inr m' \<Longrightarrow> plan m' = plan m"
  by (auto simp: OnCheckpointComplete_def bindE_eq_Inr Let_def plan_def dest!: confirm_headers_plan)

lemma UpdateOnBootstrapI_plan:
  assumes "UpdateOnBootstrapI (BEnv net daa alloc host) b m = Inr (n, m')" and "m_phase m = BootstrapI"
  obtains h where "HeaderMgr_new b 0 = Inr h" and "n = m_blkNum h"
    and "m_phase m' = BootstrapI" and "m_startBlockNum m' = m_startBlockNum m"
    and "n \<noteq> m_bootstrapIEndBlkNum m \<and> m_bootstrapIEndBlkNum m' = m_bootstrapIEndBlkNum m \<or>
      n = m_bootstrapIEndBlkNum m \<and> (\<exists>latest. GetLatestBlockNum host (host_calls (client (events m))) = Inr latest \<and>
        CalcBootstrapIEndBlkNum latest (m_startBlockNum m) (checkpointSize (m_mConfig m)) = Inr (m_bootstrapIEndBlkNum m'))"
proof -
  obtain h m1 m2 c chk where h: "HeaderMgr_new b 0 = Inr h" "n = m_blkNum h"
    and m1: "check_genesis (BEnv net daa alloc host) h m = Inr m1" and m2: "OnHeaderValidated alloc host h m1 = Inr m2"
    and m3: "(if c then OnCheckpointComplete (BEnv net daa alloc host) (m2\<lparr>m_checkpoint := chk\<rparr>) else Inr (m2\<lparr>m_checkpoint := chk\<rparr>)) = Inr m'"
    using assms(1) by (auto simp: UpdateOnBootstrapI_def bindE_eq_Inr Let_def)
  have e1: "plan m1 = plan m" "events m1 = events m" "m_phase m1 = m_phase m" "m_mConfig m1 = m_mConfig m"
    using m1 by (auto simp: check_genesis_def bindE_eq_Inr plan_def split: if_splits)
  have p2: "m_phase m2 = BootstrapI" using frameD(3) [OF OnHeaderValidated_frame [OF m2]] e1 assms(2) by simp
  have "plan m' = plan m2 \<and> m_phase m' = m_phase m2"
    using m3 OnCheckpointComplete_plan [of net daa alloc host "m2\<lparr>m_checkpoint := chk\<rparr>" m']
      blockchain.OnCheckpointComplete_frame(2) [of net daa alloc host "m2\<lparr>m_checkpoint := chk\<rparr>" m'] by (cases c) (auto simp: plan_def)
  moreover have "m_startBlockNum m2 = m_startBlockNum m \<and>
     (n \<noteq> m_bootstrapIEndBlkNum m \<and> m_bootstrapIEndBlkNum m2 = m_bootstrapIEndBlkNum m \<or>
      n = m_bootstrapIEndBlkNum m \<and> (\<exists>latest. GetLatestBlockNum host (host_calls (client (events m))) = Inr latest \<and>
        CalcBootstrapIEndBlkNum latest (m_startBlockNum m) (checkpointSize (m_mConfig m)) = Inr (m_bootstrapIEndBlkNum m2)))"
  proof (rule OnHeaderValidated_cases [OF m2])
    fix ev
    let ?v = "(validating h m1)\<lparr>events := ev\<rparr>"
    have v: "m_startBlockNum ?v = m_startBlockNum m" "m_bootstrapIEndBlkNum ?v = m_bootstrapIEndBlkNum m"
      "m_phase ?v = BootstrapI" "m_mConfig ?v = m_mConfig m"
      using e1 assms(2) by (simp_all add: validating_def on_client_def plan_def)
    have r: "m_startBlockNum m2 = m_startBlockNum m \<and>
        CalcBootstrapIEndBlkNum latest (m_startBlockNum m) (checkpointSize (m_mConfig m)) = Inr (m_bootstrapIEndBlkNum m2)"
      if "RefreshBootstrapPlan latest None ?v = Inr m2" for latest
      using that v by (auto simp: RefreshBootstrapPlan_def bindE_eq_Inr)
    assume c: "m2 = ?v \<and> (m_phase m1 = BootstrapI \<longrightarrow> m_blkNum h \<noteq> m_bootstrapIEndBlkNum m1) \<or>
      (m_phase m1 = BootstrapI \<longrightarrow> m_blkNum h = m_bootstrapIEndBlkNum m1) \<and>
      (\<exists>b. GetLatestBlockNum host (host_calls (client (events m1))) = Inr b \<and> RefreshBootstrapPlan b None ?v = Inr m2)"
    show ?thesis
    proof (cases "n = m_bootstrapIEndBlkNum m")
      case True
      then show ?thesis using c r e1 h(2) assms(2) by (fastforce simp: plan_def)
    next
      case False
      with c e1 h(2) assms(2) have "m2 = ?v" by (auto simp: plan_def)
      then show ?thesis using False v by simp
    qed
  qed
  ultimately show thesis using h p2 that by (simp add: plan_def)
qed

lemma handover_plan:
  assumes A: "AppendBlock (BEnv net daa alloc host) plat b m = Inr m'" and "m_phase m = BootstrapI" and "m_phase m' \<noteq> BootstrapI"
  obtains h latest where "HeaderMgr_new b 0 = Inr h" and "m_blkNum h = m_bootstrapIEndBlkNum m"
    and "GetLatestBlockNum host (host_calls (client (events m))) = Inr latest"
    and "CalcBootstrapIEndBlkNum latest (m_startBlockNum m) (checkpointSize (m_mConfig m)) = Inr (m_blkNum h)"
proof -
  obtain n m1 m2 where m1: "UpdateOnBootstrapI (BEnv net daa alloc host) b m = Inr (n, m1)"
    and m2: "PhaseChangeCheck (BEnv net daa alloc host) plat n m1 = Inr m2"
    and m': "(if m_phase m2 \<noteq> BootstrapI then RuntimeMaintenance (BEnv net daa alloc host) plat m2 else Inr m2) = Inr m'"
    using A assms(2) by (auto simp: AppendBlock_def Update_def bindE_eq_Inr)
  obtain h where h: "HeaderMgr_new b 0 = Inr h" "n = m_blkNum h" "m_phase m1 = BootstrapI" "m_startBlockNum m1 = m_startBlockNum m"
    "n \<noteq> m_bootstrapIEndBlkNum m \<and> m_bootstrapIEndBlkNum m1 = m_bootstrapIEndBlkNum m \<or>
      n = m_bootstrapIEndBlkNum m \<and> (\<exists>latest. GetLatestBlockNum host (host_calls (client (events m))) = Inr latest \<and>
        CalcBootstrapIEndBlkNum latest (m_startBlockNum m) (checkpointSize (m_mConfig m)) = Inr (m_bootstrapIEndBlkNum m1))"
    by (rule UpdateOnBootstrapI_plan [OF m1 assms(2)])
  have "n = m_bootstrapIEndBlkNum m1"
  proof (rule ccontr)
    assume "n \<noteq> m_bootstrapIEndBlkNum m1"
    then have "m2 = m1" using m2 h(3) by (simp add: PhaseChangeCheck_def)
    then show False using m' h(3) assms(3) by simp
  qed
  then show thesis using h that by metis
qed

lemma AsList_Inr: "AsList x = Inr xs \<longleftrightarrow> x = RList xs"
  by (cases x) (simp_all add: AsList_def)

section \<open>Instances\<close>

text \<open>A filter of zeros passes no listener.\<close>

lemma zeros_pass: "\<not> AreHashesInBloom (replicate 256 0) (h # hs)"
proof -
  have "bloom_numbers h \<noteq> []" by (simp add: bloom_numbers_def)
  then obtain m where "m \<in> set (bloom_numbers h)" by (cases "bloom_numbers h") auto
  moreover have "\<not> bloom_bit (replicate 256 0) m" by (simp add: bloom_bit_def)
  ultimately have "\<not> CheckBloomBits (replicate 256 0) h" unfolding CheckBloomBits_iff by blast
  then show ?thesis by (simp add: AreHashesInBloom_iff)
qed

text \<open>The first block of a chain, a host that knows 3000 blocks, and a manager that starts at block 0.\<close>

definition first_header :: EthHeader where
  "first_header = (EthHeader_of [])\<lparr>LogsBloom := replicate 256 0\<rparr>"

definition first_block :: bytes where
  "first_block = WriteStaticDict (EthHeader_values first_header) 0"

definition first_mgr :: HeaderMgr where
  "first_mgr = \<lparr>m_rawHeader = first_header, m_trustedTime = 0, m_hash = Keccak256 first_block,
     m_blkNum = 0, m_time = 0, m_diff = 0, m_hasUncle = True\<rparr>"

lemma first_block_parse: "HeaderMgr_new first_block 0 = Inr first_mgr"
proof -
  have "length first_block = 281" by code_simp
  then have p: "EthHeaderParser first_block = Inr first_header"
    using EthHeaderParser_write [of first_header] unfolding first_block_def by simp
  have f: "FromBytes [] = Inr 0" by code_simp
  have u: "[] \<noteq> GetEmptyUncleHash" by (simp add: GetEmptyUncleHash_def)
  show ?thesis
    unfolding HeaderMgr_new_def p
    by (simp add: first_mgr_def first_header_def EthHeader_of_def dict_field_def guardE_def f u)
qed

definition demo_host :: HostBlockService where
  "demo_host = \<lparr>ocall_get_receipts = (\<lambda>n b. Inl (Exception ''no receipts'')), ocall_get_latest_blknum = (\<lambda>n. Inr 3000)\<rparr>"

abbreviation "demo_env \<equiv> BlockchainEnv MainnetConfig TestnetDAACalculator first_free demo_host"

definition demo_mgr :: BlockchainMonitor where
  "demo_mgr = (case BlockchainMgr_new demo_env demo_host BuildEthereumMonitorConfig (replicate 16 7) TestnetDAACalculator 0
       quiet_platform 0 [1] [2] demo_svc of Inr m \<Rightarrow> m)"

lemma demo_mgr_new:
  "BlockchainMgr_new demo_env demo_host BuildEthereumMonitorConfig (replicate 16 7) TestnetDAACalculator 0
     quiet_platform 0 [1] [2] demo_svc = Inr demo_mgr"
  "m_phase demo_mgr = BootstrapI" "m_checkpoint demo_mgr = CheckpointMgr_new BuildEthereumMonitorConfig"
  "m_bootstrapIEndBlkNum demo_mgr = 1719" "\<forall>(i, d)\<in>set (listeners (events demo_mgr)). m_hashes d \<noteq> []"
  "m_startBlockNum demo_mgr = 0" "m_activeNodes demo_mgr = []" "m_offlineNodes demo_mgr = []"
  "m_lastChkptIter (client (events demo_mgr)) = 0" "checkpointIter (m_mSecState demo_mgr) = 0"
  by (simp_all add: demo_mgr_def BlockchainMgr_new_def EclipseMonitor_new_def SyncMsgMgr_new_def GetSessIdFromVec_def
      RegisterSyncEvent_def Listen_def Let_def demo_host_def GetLatestBlockNum_def RefreshBootstrapPlan_def
      CalcBootstrapIEndBlkNum_def BuildEthereumMonitorConfig_def on_service_def Start_def map_emplace_def
      BuildDeployEventDescr_def EventDescription_new_def)

lemma first_no_events:
  assumes "\<forall>(i, d)\<in>set (listeners w). m_hashes d \<noteq> []"
  shows "CheckEvents ucb first_mgr g w = Inr w"
proof -
  have "\<not> AreHashesInBloom (replicate 256 0) (m_hashes d)" if "(i, d) \<in> set (listeners w)" for i d
    using assms that zeros_pass by (cases "m_hashes d") fastforce+
  then have "BloomEventDesc (LogsBloom (m_rawHeader first_mgr)) (listeners w) = []"
    by (auto simp: BloomEventDesc_def first_mgr_def first_header_def filter_empty_conv)
  then show ?thesis by (simp add: CheckEvents_def)
qed

lemma demo_append:
  "\<exists>m. AppendBlock demo_env quiet_platform first_block demo_mgr = Inr m \<and> m_mSecState m = (m_mSecState demo_mgr)\<lparr>genesisHash := m_hash first_mgr\<rparr>
     \<and> checkpoint_abs (m_checkpoint m) = ([], [first_mgr])"
proof -
  have e: "CheckEvents ucb first_mgr g (events (validating first_mgr m)) = Inr (events (validating first_mgr m))"
    if "listeners (events m) = listeners (events demo_mgr)" for ucb g m
    by (rule first_no_events) (use that demo_mgr_new(5) in \<open>simp add: validating_def on_client_def\<close>)
  have n: "m_blkNum first_mgr = 0" by (simp add: first_mgr_def)
  show ?thesis
    using demo_mgr_new(2-4) e
    by (simp add: AppendBlock_def Update_def UpdateOnBootstrapI_def first_block_parse check_genesis_def IsEmpty_def
        CheckpointMgr_new_def OnHeaderValidated_def validating_def on_client_def n AddHeader_def GetNumOfCandidates_def
        BuildEthereumMonitorConfig_def PhaseChangeCheck_def checkpoint_abs_def IterateCurrWindow_def Let_def)
qed

text \<open>A manager whose checkpoints have one header, a host that knows three blocks, and the first bootstrap phase planned to
  end with the block 0.\<close>

definition ending_mgr :: BlockchainMonitor where
  "ending_mgr = demo_mgr\<lparr>m_mConfig := BuildEthereumMonitorConfig\<lparr>checkpointSize := 1\<rparr>,
     m_checkpoint := CheckpointMgr_new (BuildEthereumMonitorConfig\<lparr>checkpointSize := 1\<rparr>), m_bootstrapIEndBlkNum := 0\<rparr>"

abbreviation "ending_host \<equiv> demo_host\<lparr>ocall_get_latest_blknum := \<lambda>n. Inr 2\<rparr>"

lemma ending_append:
  "\<exists>m. AppendBlock (BlockchainEnv MainnetConfig TestnetDAACalculator first_free ending_host) quiet_platform first_block ending_mgr = Inr m
     \<and> m_phase m = BootstrapII"
proof -
  have e: "CheckEvents ucb first_mgr g (events (validating first_mgr m)) = Inr (events (validating first_mgr m))"
    if "listeners (events m) = listeners (events demo_mgr)" for ucb g m
    by (rule first_no_events) (use that demo_mgr_new(5) in \<open>simp add: validating_def on_client_def\<close>)
  have n: "m_blkNum first_mgr = 0" by (simp add: first_mgr_def)
  show ?thesis
    using demo_mgr_new(2-4,6-10) e
    by (simp add: AppendBlock_def Update_def UpdateOnBootstrapI_def first_block_parse check_genesis_def IsEmpty_def
        CheckpointMgr_new_def OnHeaderValidated_def validating_def on_client_def n AddHeader_def GetNumOfCandidates_def
        BuildEthereumMonitorConfig_def PhaseChangeCheck_def checkpoint_abs_def IterateCurrWindow_def Let_def ending_mgr_def
        GetLatestBlockNum_def demo_host_def RefreshBootstrapPlan_def CalcBootstrapIEndBlkNum_def OnCheckpointComplete_def
        GetLastHeader_def DiffChecker_OnChkptUpd_def PoW_OnChkptUpd_def GetDiffMedian_def OnHeaderConfirmed_def EndBootstrapI_def
        EndBootstrapPhase_def GetLastNodePtr_def RuntimeMaintenance_def ReleaseChildHasNDesc_def HeaderNode_new_def
        GetCheckpointBlkNumRange_def map_assign_def)
qed

text \<open>The receipts of a block with one event of the event manager whose address is twenty threes, a host that delivers
  them, and a manager that records the event manager.\<close>

abbreviation "mgr_addr \<equiv> replicate 20 (3 :: byte)"
abbreviation "mgr_topic \<equiv> replicate 32 (8 :: byte)"

definition demo_log :: ReceiptLogEntry where
  "demo_log = \<lparr>log_contractAddr = mgr_addr, log_topics = [mgr_topic], log_logData = demo_data\<rparr>"

definition demo_receipt :: bytes where
  "demo_receipt = Write (RList [RBytes [], RBytes [], RBytes [],
     RList [RList [RBytes mgr_addr, RList [RBytes mgr_topic], RBytes demo_data]]])"

lemma demo_data_bytes: "demo_data = replicate 31 0 @ [32] @ replicate 31 0 @ [1] @ [5] @ replicate 31 0"
proof -
  have "abi_word 32 = replicate 31 0 @ [32]" "abi_word 1 = replicate 31 0 @ [1]"
    using abi_word_small [of 32 1] abi_word_small [of 1 1] by simp_all
  then show ?thesis by (simp add: abi_pad_def)
qed

lemma demo_receipt_loop:
  "receipts_loop [RBytes demo_receipt] 0 Null = Inr (Leaf [8, 0] demo_receipt, [[demo_log]])"
  unfolding demo_receipt_def demo_log_def demo_data_bytes by code_simp

definition demo_receipts_mgr :: ReceiptsMgr where
  "demo_receipts_mgr = \<lparr>m_receipts = [[demo_log]], m_rootHashBytes = trie_Hash (Leaf [8, 0] demo_receipt)\<rparr>"

lemma demo_receipt_new: "ReceiptsMgr_new [RBytes demo_receipt] = Inr demo_receipts_mgr"
  unfolding ReceiptsMgr_new_def demo_receipt_loop by (simp add: demo_receipts_mgr_def)

definition event_header :: HeaderMgr where
  "event_header = HeaderMgr_default\<lparr>m_rawHeader := (EthHeader_of [])\<lparr>LogsBloom := replicate 256 0xFF,
     ReceiptsRoot := trie_Hash (Leaf [8, 0] demo_receipt)\<rparr>\<rparr>"

definition event_host :: HostBlockService where
  "event_host = \<lparr>ocall_get_receipts = (\<lambda>n b. Inr (Write (RList [RBytes demo_receipt]))), ocall_get_latest_blknum = (\<lambda>n. Inr 3000)\<rparr>"

definition event_svc :: PubsubServiceStore where
  "event_svc = demo_svc\<lparr>m_notifyEvTopic := mgr_topic, m_evMgrAddrMap := [([2], mgr_addr)], m_pastEventStore := [(mgr_addr, [])]\<rparr>"

definition event_client :: BlockchainClient where
  "event_client = \<lparr>m_subSvc = \<lparr>m_svcStore = event_svc, eventQueues = [], receiptQueues = []\<rparr>,
     m_lastChkptIter = 0, m_lastValidatedBlkNum = [], host_calls = 1, status_log = []\<rparr>"

definition event_mgr :: BlockchainMonitor where
  "event_mgr = demo_mgr\<lparr>m_phase := Sync, events := \<lparr>listeners = [(0, BuildNotifyPastEventDescr mgr_addr event_svc)],
     sync_states = [], client = event_client\<rparr>\<rparr>"

lemma event_host_receipts: "GetReceiptsRlpByNum event_host n b = Inr (RList [RBytes demo_receipt])"
proof -
  have "length (Write (RList [RBytes demo_receipt])) < 1000"
    unfolding demo_receipt_def demo_data_bytes by code_simp
  then have "length (Write (RList [RBytes demo_receipt])) < 2 ^ 64" by simp
  then show ?thesis by (simp add: GetReceiptsRlpByNum_def event_host_def rlp_roundtrip_aux del: Write.simps)
qed

lemma event_notify:
  "\<exists>w. notify (blockchain_callback alloc) event_header
     (notifications (listeners (events (validating event_header event_mgr))) demo_receipts_mgr) (events (validating event_header event_mgr)) = Inr w"
  by (simp add: notifications_def validating_def on_client_def event_mgr_def demo_receipts_mgr_def demo_log_def desc_matches_def
      BuildNotifyPastEventDescr_def EventDescription_new_def blockchain_callback_def event_client_def event_svc_def demo_svc_def
      NotifyPastEventHandler_def demo_parse [unfolded One_nat_def] Let_def)

lemma event_validated: "\<exists>m. OnHeaderValidated alloc event_host event_header event_mgr = Inr m"
proof -
  let ?w = "events (validating event_header event_mgr)"
  have "receiptsMgrGetter event_host n b = Inr demo_receipts_mgr" for n b
    by (simp add: receiptsMgrGetter_def event_host_receipts AsList_Inr demo_receipt_new AsList_def)
  moreover have "m_rootHashBytes demo_receipts_mgr = ReceiptsRoot (m_rawHeader event_header)"
    by (simp add: demo_receipts_mgr_def event_header_def)
  moreover have "BloomEventDesc (LogsBloom (m_rawHeader event_header)) ls = ls" for ls :: PubsubEventManager
    by (simp add: BloomEventDesc_def event_header_def ones_pass)
  moreover obtain w where "notify (blockchain_callback alloc) event_header (notifications (listeners ?w) demo_receipts_mgr) ?w = Inr w"
    using event_notify by blast
  ultimately have "CheckEvents (blockchain_callback alloc) event_header (receiptsMgrGetter event_host n) ?w = Inr w" for n
    using CheckEvents_notify [of "receiptsMgrGetter event_host n" event_header demo_receipts_mgr "blockchain_callback alloc" ?w]
    by simp
  moreover have "m_phase event_mgr = Sync" by (simp add: event_mgr_def)
  ultimately show ?thesis by (simp add: OnHeaderValidated_def Let_def validating_def on_client_def)
qed

lemma event_facts:
  "block_ok event_header demo_receipts_mgr" "no_collision [RBytes demo_receipt] [RBytes demo_receipt]"
  "listeners_ok (service_view (events event_mgr))" "recorded (service_view (events event_mgr)) mgr_addr"
  "registrations event_svc demo_receipts_mgr = {}"
proof -
  have "receipts_trie [RBytes demo_receipt] = Leaf [8, 0] demo_receipt" unfolding receipts_trie_def demo_receipt_loop by simp
  moreover have "length (Write (Raw (Leaf [8, 0] demo_receipt))) < 1000"
    unfolding demo_receipt_def demo_data_bytes by code_simp
  ultimately show "no_collision [RBytes demo_receipt] [RBytes demo_receipt]"
    by (simp add: no_collision_def binding_def del: Raw.simps Write.simps)
  have t: "[7] \<noteq> mgr_topic" by (simp add: numeral_eq_Suc)
  show "block_ok event_header demo_receipts_mgr"
    by (simp add: block_ok_def event_header_def demo_receipts_mgr_def ones_cover)
  show "listeners_ok (service_view (events event_mgr))" "recorded (service_view (events event_mgr)) mgr_addr"
    by (simp_all add: listeners_ok_def recorded_def event_mgr_def event_client_def event_svc_def BuildNotifyPastEventDescr_def
        EventDescription_new_def)
  have a: "mgr_addr \<noteq> [1]" by (simp add: numeral_eq_Suc)
  show "registrations event_svc demo_receipts_mgr = {}"
    using a by (simp add: registrations_def demo_receipts_mgr_def event_svc_def demo_svc_def demo_log_def ReceiptsMgr_SearchEvents_def
        Receipt_SearchEvents_def IsEventEmitted_iff)
qed

section \<open>Properties\<close>

text \<open>C4. What the enclave reports is one chain. In every run of the manager, whatever the host answers and however
  blocks, subscriptions and heartbeats are interleaved: the headers confirmed so far and the candidates of the next
  checkpoint form a chain in which each header names the number and the hash of the one before it; the checkpoint
  window is its confirmed end; the security state reports the hash of the first header, hash and number of the last
  confirmed one, and the number of checkpoints, which is also the one the manager has noted; and the tree of
  unconfirmed headers grows from the end of the chain.\<close>

theorem blockchain_chain:
  assumes "blockchain_run (BlockchainEnv net daa alloc host) host conf startBlk m log" and "2 \<le> checkpointSize conf"
  shows "monitor_view conf m log (log @ snd (checkpoint_abs (m_checkpoint m)))
    \<and> m_lastChkptIter (client (events m)) = checkpointIter (m_mSecState m) \<and> m_phase m \<noteq> Runtime"
  using blockchain_run_inv [OF assms] monitor_inv_view [of m log conf] by (simp add: manager_inv_def iter_ok_def)

theorem blockchain_chain_witness:
  "\<exists>m. blockchain_run demo_env demo_host BuildEthereumMonitorConfig 0 m []
     \<and> monitor_view BuildEthereumMonitorConfig m [] [first_mgr] \<and> genesisHash (m_mSecState m) = Keccak256 first_block"
proof -
  obtain m where A: "AppendBlock demo_env quiet_platform first_block demo_mgr = Inr m"
    and s: "m_mSecState m = (m_mSecState demo_mgr)\<lparr>genesisHash := m_hash first_mgr\<rparr>"
    and c: "checkpoint_abs (m_checkpoint m) = ([], [first_mgr])" using demo_append by blast
  have n: "newly_confirmed demo_mgr m = []" using s by (simp add: newly_confirmed_def)
  have "blockchain_call demo_env (Append quiet_platform first_block) demo_mgr = Inr m" using A by simp
  from blockchain_run.step [OF blockchain_run.start [OF demo_mgr_new(1)] this]
  have r: "blockchain_run demo_env demo_host BuildEthereumMonitorConfig 0 m []" by (simp add: n)
  have "monitor_view BuildEthereumMonitorConfig m [] ([] @ snd (checkpoint_abs (m_checkpoint m)))"
    using blockchain_chain [OF r] by (simp add: BuildEthereumMonitorConfig_def)
  then show ?thesis using r s c by (auto simp: first_mgr_def)
qed



text \<open>C1. The host can neither forge events nor leave any out. When a header is accepted and \<open>rs\<close> are the receipts
  that its root hash commits to, then, whatever receipts the host sent, the past events of an event manager that is being
  recorded grow by exactly the events of \<open>rs\<close>, and so does the queue of each of its subscribers, unless Keccak-256
  collides on the encodings of the two tries of receipts.\<close>

theorem host_cannot_forge:
  assumes "OnHeaderValidated alloc host hdr m = Inr m'"
    and "ReceiptsMgr_new rs = Inr rm" and "block_ok hdr rm" and "length rs \<le> 2 ^ 64"
    and "\<forall>rs'. GetReceiptsRlpByNum host (host_calls (client (events m))) (m_blkNum hdr) = Inr (RList rs') \<longrightarrow>
           length rs' \<le> 2 ^ 64 \<and> no_collision rs rs'"
    and "listeners_ok (service_view (events m))" and "recorded (service_view (events m)) a"
  defines "svc \<equiv> m_svcStore (m_subSvc (client (events m)))" and "w' \<equiv> service_view (events m')"
  assumes "a \<notin> snd ` registrations svc rm"
  shows "listeners_ok w' \<and> recorded w' a
    \<and> GetPastEvents a (m_svcStore (client w')) = GetPastEvents a svc @ block_events svc a hdr rm
    \<and> (\<forall>em. subscribed (service_view (events m)) a em \<longrightarrow> subscribed w' a em \<and>
          eventQueues (client w') ! fst em = eventQueues (m_subSvc (client (events m))) ! fst em @ block_events svc a hdr rm)"
proof -
  let ?n = "host_calls (client (events m))"
  have root: "m_rootHashBytes rm = ReceiptsRoot (m_rawHeader hdr)" using assms(3) by (simp add: block_ok_def)
  have v: "service_view (events (validating hdr m)) = service_view (events m)"
    by (simp add: validating_def on_client_def service_view_def)
  have same: "rm' = rm" if g: "receiptsMgrGetter host ?n (m_blkNum hdr) = Inr rm'"
    and r: "m_rootHashBytes rm' = ReceiptsRoot (m_rawHeader hdr)" for rm'
  proof -
    obtain rs' where rs': "GetReceiptsRlpByNum host ?n (m_blkNum hdr) = Inr (RList rs')" "ReceiptsMgr_new rs' = Inr rm'"
      using g by (auto simp: receiptsMgrGetter_def bindE_eq_Inr AsList_Inr)
    then have "rs = rs'" using assms(4,5) root r by (intro receipts_same_root [OF assms(2)]) auto
    then show ?thesis using rs'(2) assms(2) by simp
  qed
  have C: "CheckEvents (pubsub_callback alloc) hdr (\<lambda>n. Inr rm) (service_view (events m)) = Inr (service_view (events m'))"
    unfolding v [symmetric] by (rule CheckEvents_lift [OF OnHeaderValidated_events [OF assms(1)] root same])
  note P = CheckEvents_pubsub [OF C assms(6,3)]
  have "a \<notin> snd ` registrations (m_svcStore (client (service_view (events m)))) rm" using assms(10) by (simp add: svc_def)
  note R = P(4) [OF assms(7) this]
  show ?thesis using P(2,3) R by (simp add: w'_def svc_def)
qed

theorem host_cannot_forge_witness:
  "\<exists>m. OnHeaderValidated first_free event_host event_header event_mgr = Inr m
     \<and> GetPastEvents mgr_addr (m_svcStore (m_subSvc (client (events m)))) = block_events event_svc mgr_addr event_header demo_receipts_mgr"
proof -
  obtain m where m: "OnHeaderValidated first_free event_host event_header event_mgr = Inr m" using event_validated by blast
  have svc: "m_svcStore (m_subSvc (client (events event_mgr))) = event_svc" by (simp add: event_mgr_def event_client_def)
  have p: "GetPastEvents mgr_addr event_svc = []" by (simp add: GetPastEvents_def event_svc_def)
  have "GetPastEvents mgr_addr (m_svcStore (client (service_view (events m))))
      = GetPastEvents mgr_addr event_svc @ block_events event_svc mgr_addr event_header demo_receipts_mgr"
    using host_cannot_forge [OF m demo_receipt_new event_facts(1) _ _ event_facts(3,4)] event_facts(2,5) event_host_receipts
    by (simp add: svc)
  with m p show ?thesis by simp
qed

end
