(* ===== verification/Utf8.thy ===== *)
theory Utf8
  imports Prelude
begin

text \<open>
  \<open>SimpleUtf\<close>, code points and UTF-8 (\<open>UtfCommon.hpp\<close>, \<open>Utf8.hpp\<close>). A string is the list of its code units, a decoder
  returns the code point and the rest of the input. After the first byte the UTF-8 decoder does not compare its iterator
  with the end: dereferencing the end is \<open>UtfUndefined\<close>. \<open>utf8\<close> gives the encoding as arithmetic on the code point; the
  decoder accepts exactly these encodings (\<open>utf8_dec_sound\<close>, \<open>utf8_dec_complete\<close>) and the encoder writes them.
\<close>

unbundle bit_operations_syntax

datatype UtfError =
    UtfConversionException string
  | UtfUndefined string

section \<open>Code points\<close>

definition IsReservedCodePt :: "u32 \<Rightarrow> bool" where
  "IsReservedCodePt val \<longleftrightarrow> 0xD800 \<le> val \<and> val \<le> 0xDFFF"

definition IsValidCodePt :: "u32 \<Rightarrow> bool" where
  "IsValidCodePt val \<longleftrightarrow> val \<le> 0x10FFFF \<and> \<not> IsReservedCodePt val"

definition invalid_code_point :: UtfError where
  "invalid_code_point = UtfConversionException ''Invalid UTF Code Point''"

text \<open>The loop of \<open>CountLZero\<close>, with the bit it tests.\<close>

function CountLZero_loop :: "u32 \<Rightarrow> u32 \<Rightarrow> nat" where
  "CountLZero_loop testBit x =
     (if testBit > 0 \<and> x AND testBit = 0 then Suc (CountLZero_loop (drop_bit 1 testBit) x) else 0)"
  by auto
termination
proof (relation "measure (\<lambda>(t, x). unat t)")
  fix t x :: u32
  assume "t > 0 \<and> x AND t = 0"
  then have "0 < unat t" by (simp add: unat_gt_0 word_gt_0)
  then show "((drop_bit 1 t, x), (t, x)) \<in> measure (\<lambda>(t, x). unat t)" by (simp add: drop_bit_eq_div unat_div)
qed simp

declare CountLZero_loop.simps [simp del]

definition CountLZero :: "u32 \<Rightarrow> nat" where
  "CountLZero x = CountLZero_loop (push_bit 31 1) x"

definition BitWidth :: "u32 \<Rightarrow> nat" where
  "BitWidth x = 32 - CountLZero x"

section \<open>UTF-8\<close>

definition CalcUtf8NumContNeeded :: "u32 \<Rightarrow> UtfError + nat" where
  "CalcUtf8NumContNeeded val =
     (if \<not> IsValidCodePt val then Inl invalid_code_point
      else
        let w = BitWidth val in
        Inr (if w \<le> 7 then 0 else if w \<le> 11 then 1 else if w \<le> 16 then 2 else 3))"

definition IsAsciiFast :: "u8 \<Rightarrow> bool" where
  "IsAsciiFast val \<longleftrightarrow> NOT (NOT val OR 0x7F) = 0"

definition Utf8ReadLeading :: "u8 \<Rightarrow> UtfError + (nat \<times> u8)" where
  "Utf8ReadLeading val =
     (if IsAsciiFast val then Inr (0, val AND 0x7F)
      else if val AND 0x40 \<noteq> 0 \<and> \<not> val AND 0x20 \<noteq> 0 \<and> val AND 0x1E \<noteq> 0 then Inr (1, val AND 0x1F)
      else if val AND 0x40 \<noteq> 0 \<and> val AND 0x20 \<noteq> 0 \<and> \<not> val AND 0x10 \<noteq> 0 then Inr (2, val AND 0x0F)
      else if val AND 0x40 \<noteq> 0 \<and> val AND 0x20 \<noteq> 0 \<and> val AND 0x10 \<noteq> 0 \<and> \<not> val AND 0x08 \<noteq> 0 then Inr (3, val AND 0x07)
      else Inl (UtfConversionException ''Invalid UTF-8 leading byte.''))"

definition Utf8ReadCont :: "u8 \<Rightarrow> UtfError + u8" where
  "Utf8ReadCont val =
     (if \<not> IsAsciiFast val \<and> \<not> val AND 0x40 \<noteq> 0 then Inr (val AND 0x3F)
      else Inl (UtfConversionException ''Invalid UTF-8 continuation byte.''))"

text \<open>The loop over the continuation bytes; the argument after \<open>numCont\<close> counts those left.\<close>

fun cont_loop :: "nat \<Rightarrow> nat \<Rightarrow> u32 \<Rightarrow> u8 list \<Rightarrow> UtfError + (u32 \<times> u8 list)" where
  "cont_loop numCont 0 res s = Inr (res, s)"
| "cont_loop numCont (Suc k) res [] = Inl (UtfUndefined ''dereference of the end iterator'')"
| "cont_loop numCont (Suc k) res (c # s) =
     bindE (Utf8ReadCont c) (\<lambda>b.
     let res = push_bit 6 res;
         res = res OR ucast b
     in if Suc k = numCont \<and> (numCont = 2 \<and> res < 0x20 \<or> numCont = 3 \<and> res < 0x10)
        then Inl (UtfConversionException ''Invalid UTF-8 continuation byte.'')
        else cont_loop numCont k res s)"

definition Utf8ToCodePtOnce :: "u8 list \<Rightarrow> UtfError + (u32 \<times> u8 list)" where
  "Utf8ToCodePtOnce s =
     (case s of
        [] \<Rightarrow> Inl (UtfConversionException ''Unexpected Ending'')
      | b # s \<Rightarrow>
          bindE (Utf8ReadLeading b) (\<lambda>(numCont, leading).
          bindE (cont_loop numCont numCont (0 OR ucast leading) s) (\<lambda>(res, s).
          if \<not> IsValidCodePt res then Inl (UtfConversionException ''Invalid Code Point'')
          else Inr (res, s))))"

text \<open>The continuation bytes are written from the last to the first.\<close>

fun write_conts :: "nat \<Rightarrow> u32 \<Rightarrow> u32 \<times> u8 list" where
  "write_conts 0 val = (val, [])"
| "write_conts (Suc i) val =
     (let tmp = 0x80 OR ucast (val AND 0x3F);
          (v, bs) = write_conts i (drop_bit 6 val)
      in (v, bs @ [tmp]))"

definition CodePtToUtf8Once :: "u32 \<Rightarrow> UtfError + u8 list" where
  "CodePtToUtf8Once val =
     bindE (CalcUtf8NumContNeeded val) (\<lambda>numCont.
     let (val, conts) = write_conts numCont val;
         lead = (if numCont = 0 then ucast (val AND 0x7F)
                 else if numCont = 1 then 0xC0 OR ucast (val AND 0x1F)
                 else if numCont = 2 then 0xE0 OR ucast (val AND 0x0F)
                 else 0xF0 OR ucast (val AND 0x07))
     in Inr (lead # conts))"

definition CodePtToUtf8OnceGetSize :: "u32 \<Rightarrow> UtfError + nat" where
  "CodePtToUtf8OnceGetSize val = bindE (CalcUtf8NumContNeeded val) (\<lambda>n. Inr (1 + n))"

section \<open>The encodings as arithmetic\<close>

definition utf8 :: "u32 \<Rightarrow> u8 list" where
  "utf8 c =
     (let n = unat c in
      map word_of_nat
        (if n < 0x80 then [n]
         else if n < 0x800 then [0xC0 + n div 64, 0x80 + n mod 64]
         else if n < 0x10000 then [0xE0 + n div 4096, 0x80 + n div 64 mod 64, 0x80 + n mod 64]
         else [0xF0 + n div 262144, 0x80 + n div 4096 mod 64, 0x80 + n div 64 mod 64, 0x80 + n mod 64]))"

lemma IsValidCodePt_iff: "IsValidCodePt c \<longleftrightarrow> unat c < 0x110000 \<and> (unat c < 0xD800 \<or> 0xE000 \<le> unat c)"
  by (auto simp: IsValidCodePt_def IsReservedCodePt_def word_le_nat_alt)

subsection \<open>Bits and numbers\<close>

lemma unat_u8_less [simp]: "unat (b::u8) < 256"
  by (rule order_less_le_trans [OF unsigned_less]) simp

lemma unat_u16_less [simp]: "unat (b::u16) < 65536"
  by (rule order_less_le_trans [OF unsigned_less]) simp

lemma unat_shift_or:
  fixes a y :: "'a::len word"
  assumes "unat y < 2 ^ k" "2 ^ k * unat a + unat y < 2 ^ LENGTH('a)"
  shows "unat (push_bit k a OR y) = 2 ^ k * unat a + unat y"
proof -
  have y: "take_bit k y = y" using assms(1)
    by (intro word_unat_eq_iff [THEN iffD2]) (simp add: unsigned_take_bit_eq take_bit_nat_eq_self)
  have "push_bit k a AND y = 0"
    by (subst y [symmetric]) (rule bit_word_eqI, auto simp: bit_simps)
  then have "push_bit k a OR y = push_bit k a + y" by (simp add: disjunctive_add_eq_or)
  moreover have "unat (push_bit k a) = 2 ^ k * unat a" using assms(2)
    by (simp add: unsigned_push_bit_eq take_bit_nat_eq_self push_bit_nat_def ac_simps)
  ultimately show ?thesis using assms(2) by (simp add: unat_word_ariths)
qed

lemma all_bytes: "list_all P (map word_of_nat [0..<256]) \<Longrightarrow> P (b::u8)"
proof -
  assume "list_all P (map word_of_nat [0..<256])"
  moreover have "b = word_of_nat (unat b)" "unat b \<in> set [0..<256]" by simp_all
  ultimately show ?thesis by (metis list_all_iff image_eqI list.set_map)
qed

lemma IsAsciiFast_iff: "IsAsciiFast b \<longleftrightarrow> unat b < 128"
  by (rule all_bytes) code_simp

definition leading_spec :: "u8 \<Rightarrow> UtfError + (nat \<times> u8)" where
  "leading_spec b =
     (let n = unat b in
      if n < 0x80 then Inr (0, b)
      else if 0xC2 \<le> n \<and> n < 0xE0 then Inr (1, b - 0xC0)
      else if 0xE0 \<le> n \<and> n < 0xF0 then Inr (2, b - 0xE0)
      else if 0xF0 \<le> n \<and> n < 0xF8 then Inr (3, b - 0xF0)
      else Inl (UtfConversionException ''Invalid UTF-8 leading byte.''))"

lemma Utf8ReadLeading_spec: "Utf8ReadLeading b = leading_spec b"
  by (rule all_bytes) code_simp

definition cont_spec :: "u8 \<Rightarrow> UtfError + u8" where
  "cont_spec b =
     (if 0x80 \<le> unat b \<and> unat b < 0xC0 then Inr (b - 0x80)
      else Inl (UtfConversionException ''Invalid UTF-8 continuation byte.''))"

lemma Utf8ReadCont_spec: "Utf8ReadCont b = cont_spec b"
  by (rule all_bytes) code_simp

lemma byte_tags:
  "unat b < 64 \<Longrightarrow> unat (0x80 OR b :: u8) = 0x80 + unat b"
  "unat b < 32 \<Longrightarrow> unat (0xC0 OR b :: u8) = 0xC0 + unat b"
  "unat b < 16 \<Longrightarrow> unat (0xE0 OR b :: u8) = 0xE0 + unat b"
  "unat b < 8 \<Longrightarrow> unat (0xF0 OR b :: u8) = 0xF0 + unat b"
  using unat_shift_or [of b 6 2] unat_shift_or [of b 5 6] unat_shift_or [of b 4 14] unat_shift_or [of b 3 30]
  by (simp_all add: push_bit_eq_mult)

lemma word_of_nat_byte: "unat (b::u8) = n \<Longrightarrow> word_of_nat n = b"
  by auto

lemma unat_sub_const: "unat k \<le> unat (b::u8) \<Longrightarrow> unat (b - k) = unat b - unat k"
  by (simp add: unat_sub word_le_nat_alt)

lemma leading_cases:
  "Utf8ReadLeading b = Inr (n, v) \<longleftrightarrow>
     n = 0 \<and> unat b < 0x80 \<and> v = b
   \<or> n = 1 \<and> 2 \<le> unat v \<and> unat v < 32 \<and> unat b = 0xC0 + unat v
   \<or> n = 2 \<and> unat v < 16 \<and> unat b = 0xE0 + unat v
   \<or> n = 3 \<and> unat v < 8 \<and> unat b = 0xF0 + unat v"
proof -
  have d: "b - k = v \<longleftrightarrow> unat b = unat k + unat v" if "unat k \<le> unat b" for k
    using that by (auto simp: word_unat_eq_iff unat_sub_const)
  show ?thesis
    using unat_u8_less [of b] d [of "0xC0"] d [of "0xE0"] d [of "0xF0"]
    by (auto simp: Utf8ReadLeading_spec leading_spec_def Let_def)
qed

lemma cont_cases: "Utf8ReadCont b = Inr v \<longleftrightarrow> unat v < 64 \<and> unat b = 0x80 + unat v"
  using unat_u8_less [of b]
  by (auto simp: Utf8ReadCont_spec cont_spec_def word_unat_eq_iff unat_sub_const)

lemma unat_ucast_byte: "unat (ucast (b::u8) :: u32) = unat b"
  by (simp add: unsigned_ucast_eq take_bit_nat_eq_self order_less_le_trans [OF unat_u8_less])

lemma unat_step:
  "unat v < 64 \<Longrightarrow> unat res < 2 ^ 26 \<Longrightarrow> unat (push_bit 6 res OR ucast (v::u8) :: u32) = 64 * unat res + unat v"
  using unat_shift_or [of "ucast v" 6 res] by (simp add: unat_ucast_byte)

subsection \<open>The UTF-8 decoder\<close>

lemma cont_loop_Suc:
  "cont_loop m (Suc k) res s = Inr cr \<longleftrightarrow>
     (\<exists>b v r. s = b # r \<and> Utf8ReadCont b = Inr v
        \<and> \<not> (Suc k = m \<and> (m = 2 \<and> push_bit 6 res OR ucast v < 0x20 \<or> m = 3 \<and> push_bit 6 res OR ucast v < 0x10))
        \<and> cont_loop m k (push_bit 6 res OR ucast v) r = Inr cr)"
  by (cases s) (auto simp: bindE_eq_Inr Let_def)

text \<open>What a successful decoding has read: one to four bytes that carry the payloads \<open>v\<close>, \<open>w\<close>, \<open>x\<close>, \<open>y\<close>.\<close>

lemma Utf8ToCodePtOnce_cases:
  assumes "Utf8ToCodePtOnce s = Inr (c, r)"
  obtains b where "s = b # r" "unat b < 0x80" "unat c = unat b"
  | b d v w where "s = [b, d] @ r" "2 \<le> v" "v < 32" "w < 64" "unat b = 0xC0 + v" "unat d = 0x80 + w"
      "unat c = 64 * v + w"
  | b d e v w x where "s = [b, d, e] @ r" "v < 16" "w < 64" "x < 64" "unat b = 0xE0 + v" "unat d = 0x80 + w"
      "unat e = 0x80 + x" "unat c = 64 * (64 * v + w) + x" "0x20 \<le> 64 * v + w"
  | b d e f v w x y where "s = [b, d, e, f] @ r" "v < 8" "w < 64" "x < 64" "y < 64" "unat b = 0xF0 + v"
      "unat d = 0x80 + w" "unat e = 0x80 + x" "unat f = 0x80 + y"
      "unat c = 64 * (64 * (64 * v + w) + x) + y" "0x10 \<le> 64 * v + w"
proof -
  obtain b t n v where s: "s = b # t" and l: "Utf8ReadLeading b = Inr (n, v)"
    and k: "cont_loop n n (ucast v) t = Inr (c, r)"
    using assms by (auto simp: Utf8ToCodePtOnce_def bindE_eq_Inr split: list.splits if_splits)
  consider (1) "n = 0" "unat b < 0x80" "v = b"
    | (2) "n = 1" "2 \<le> unat v" "unat v < 32" "unat b = 0xC0 + unat v"
    | (3) "n = 2" "unat v < 16" "unat b = 0xE0 + unat v"
    | (4) "n = 3" "unat v < 8" "unat b = 0xF0 + unat v"
    using l by (auto simp: leading_cases)
  then show thesis
  proof cases
    case 1
    then show thesis using that(1) [of b] k s by (auto simp: unat_ucast_byte)
  next
    case 2
    then obtain d and w :: u8 where d: "t = d # r" "unat w < 64" "unat d = 0x80 + unat w" "c = push_bit 6 (ucast v) OR ucast w"
      using k by (auto simp: cont_loop_Suc cont_cases)
    moreover have "unat c = 64 * unat v + unat w"
      unfolding d(4) using 2 d by (simp add: unat_step unat_ucast_byte)
    ultimately show thesis using that(2) [of b d "unat v" "unat w"] 2 s by simp
  next
    case 3
    then obtain d e and w x :: u8 where d: "t = [d, e] @ r" "unat w < 64" "unat d = 0x80 + unat w" "unat x < 64" "unat e = 0x80 + unat x"
        "c = push_bit 6 (push_bit 6 (ucast v) OR ucast w) OR ucast x" "\<not> push_bit 6 (ucast v) OR ucast w < (0x20 :: u32)"
      using k by (auto simp: numeral_2_eq_2 cont_loop_Suc cont_cases)
    have i: "unat (push_bit 6 (ucast v) OR ucast w :: u32) = 64 * unat v + unat w"
      using 3 d by (simp add: unat_step unat_ucast_byte)
    have "unat c = 64 * (64 * unat v + unat w) + unat x"
      unfolding d(6) by (subst unat_step) (use 3 d(2-5) i in simp_all)
    then show thesis using that(3) [of b d e "unat v" "unat w" "unat x"] 3 s d i by (simp add: word_less_nat_alt)
  next
    case 4
    then obtain d e f and w x y :: u8 where d: "t = [d, e, f] @ r" "unat w < 64" "unat d = 0x80 + unat w" "unat x < 64" "unat e = 0x80 + unat x"
        "unat y < 64" "unat f = 0x80 + unat y"
        "c = push_bit 6 (push_bit 6 (push_bit 6 (ucast v) OR ucast w) OR ucast x) OR ucast y"
        "\<not> push_bit 6 (ucast v) OR ucast w < (0x10 :: u32)"
      using k by (auto simp: numeral_3_eq_3 cont_loop_Suc cont_cases)
    have i: "unat (push_bit 6 (ucast v) OR ucast w :: u32) = 64 * unat v + unat w"
      using 4 d by (simp add: unat_step unat_ucast_byte)
    have j: "unat (push_bit 6 (push_bit 6 (ucast v) OR ucast w) OR ucast x :: u32) = 64 * (64 * unat v + unat w) + unat x"
      by (subst unat_step) (use 4 d(2-7) i in simp_all)
    have "unat c = 64 * (64 * (64 * unat v + unat w) + unat x) + unat y"
      unfolding d(8) by (subst unat_step) (use 4 d(2-7) j in simp_all)
    then show thesis using that(4) [of b d e f "unat v" "unat w" "unat x" "unat y"] 4 s d i by (simp add: word_less_nat_alt)
  qed
qed

lemma utf8_dec_sound:
  assumes "Utf8ToCodePtOnce s = Inr (c, r)"
  shows "IsValidCodePt c \<and> s = utf8 c @ r"
proof
  show "IsValidCodePt c"
    using assms by (auto simp: Utf8ToCodePtOnce_def bindE_eq_Inr split: list.splits if_splits)
  have split: "n div 4096 = n div 64 div 64" "n div 262144 = n div 64 div 64 div 64" for n :: nat
    using div_mult2_eq [of n 64 64] div_mult2_eq [of n 4096 64] by simp_all
  have digits: "(64 * a + w) div 64 = a" "(64 * a + w) mod 64 = w" if "w < 64" for a w :: nat
    using that by simp_all
  from assms show "s = utf8 c @ r"
  proof (cases rule: Utf8ToCodePtOnce_cases)
    case (1 b)
    then show ?thesis by (simp add: utf8_def)
  next
    case (2 b d v w)
    then have "b = word_of_nat (0xC0 + v)" "d = word_of_nat (0x80 + w)" by (simp_all only: word_of_nat_byte)
    then show ?thesis using 2 by (simp add: utf8_def digits)
  next
    case (3 b d e v w x)
    then have "b = word_of_nat (0xE0 + v)" "d = word_of_nat (0x80 + w)" "e = word_of_nat (0x80 + x)"
      by (simp_all only: word_of_nat_byte)
    moreover have "unat c div 4096 = v" "unat c div 64 mod 64 = w" "unat c mod 64 = x" "0x800 \<le> unat c" "unat c < 0x10000"
      using 3(2-4,8,9) by (simp_all only: split digits) simp_all
    ultimately show ?thesis using 3(1) by (simp add: utf8_def)
  next
    case (4 b d e f v w x y)
    then have "b = word_of_nat (0xF0 + v)" "d = word_of_nat (0x80 + w)" "e = word_of_nat (0x80 + x)" "f = word_of_nat (0x80 + y)"
      by (simp_all only: word_of_nat_byte)
    moreover have "unat c div 262144 = v" "unat c div 4096 mod 64 = w" "unat c div 64 mod 64 = x" "unat c mod 64 = y"
      "0x10000 \<le> unat c"
      using 4(2-5,10,11) by (simp_all only: split digits) simp_all
    ultimately show ?thesis using 4(1) by (simp add: utf8_def)
  qed
qed

lemma Utf8ReadLeading_Inr:
  "n < 0x80 \<Longrightarrow> Utf8ReadLeading (word_of_nat n) = Inr (0, word_of_nat n)"
  "2 \<le> n \<Longrightarrow> n < 32 \<Longrightarrow> Utf8ReadLeading (word_of_nat (0xC0 + n)) = Inr (1, word_of_nat n)"
  "n < 16 \<Longrightarrow> Utf8ReadLeading (word_of_nat (0xE0 + n)) = Inr (2, word_of_nat n)"
  "n < 8 \<Longrightarrow> Utf8ReadLeading (word_of_nat (0xF0 + n)) = Inr (3, word_of_nat n)"
  unfolding leading_cases by (auto simp: unat_of_nat simp del: of_nat_add)

lemma Utf8ReadCont_Inr: "n < 64 \<Longrightarrow> Utf8ReadCont (word_of_nat (0x80 + n)) = Inr (word_of_nat n)"
  unfolding cont_cases by (auto simp: unat_of_nat simp del: of_nat_add)

lemma shift_in: "w < 64 \<Longrightarrow> a < 2 ^ 26 \<Longrightarrow>
   push_bit 6 (word_of_nat a) OR ucast (word_of_nat w :: u8) = (word_of_nat (64 * a + w) :: u32)"
  using unat_step [of "word_of_nat w" "word_of_nat a"] by (simp add: word_unat_eq_iff unat_of_nat del: of_nat_add of_nat_mult)

lemma ucast_of_byte: "n < 256 \<Longrightarrow> ucast (word_of_nat n :: u8) = (word_of_nat n :: u32)"
  by (simp add: word_unat_eq_iff unat_ucast_byte unat_of_nat)

lemma cont_loop_step:
  assumes "n = Suc k" "w < 64" "a < 2 ^ 20" "n = m \<longrightarrow> (m = 2 \<longrightarrow> 0x20 \<le> 64 * a + w) \<and> (m = 3 \<longrightarrow> 0x10 \<le> 64 * a + w)"
  shows "cont_loop m n (word_of_nat a) (word_of_nat (0x80 + w) # s) = cont_loop m k (word_of_nat (64 * a + w)) s"
proof -
  have "unat (word_of_nat (64 * a + w) :: u32) = 64 * a + w"
    using assms(2,3) by (simp add: unat_of_nat del: of_nat_add of_nat_mult)
  moreover have "push_bit 6 (word_of_nat a) OR ucast (word_of_nat w :: u8) = (word_of_nat (64 * a + w) :: u32)"
    using assms(2,3) by (simp add: shift_in del: of_nat_add of_nat_mult)
  ultimately show ?thesis
    using assms(1,2,4) by (auto simp: Utf8ReadCont_Inr Let_def word_less_nat_alt simp del: of_nat_add of_nat_mult)
qed

lemma utf8_dec_complete:
  assumes "IsValidCodePt c"
  shows "Utf8ToCodePtOnce (utf8 c @ r) = Inr (c, r)"
proof -
  define n where "n = unat c"
  have c: "c = word_of_nat n" by (simp add: n_def)
  have n: "n < 0x110000" using assms by (simp add: IsValidCodePt_iff n_def)
  have once: "Utf8ToCodePtOnce (word_of_nat k # s) = Inr (c, r)"
    if "Utf8ReadLeading (word_of_nat k) = Inr (m, word_of_nat a)" "a < 256" "cont_loop m m (word_of_nat a) s = Inr (c, r)" for k m a s
    using that assms by (simp add: Utf8ToCodePtOnce_def ucast_of_byte)
  note [simp del] = of_nat_add of_nat_mult
  consider "n < 0x80" | "0x80 \<le> n" "n < 0x800" | "0x800 \<le> n" "n < 0x10000" | "0x10000 \<le> n" by linarith
  then show ?thesis
  proof cases
    case 1
    then show ?thesis using once [OF Utf8ReadLeading_Inr(1) [OF 1]] by (simp add: utf8_def n_def [symmetric] c [symmetric])
  next
    case 2
    then have "Utf8ReadLeading (word_of_nat (0xC0 + n div 64)) = Inr (1, word_of_nat (n div 64))"
      by (intro Utf8ReadLeading_Inr(2)) auto
    moreover have "cont_loop 1 1 (word_of_nat (n div 64)) (word_of_nat (0x80 + n mod 64) # r) = Inr (c, r)"
      using cont_loop_step [of 1 0 "n mod 64" "n div 64" 1 r] 2 by (simp add: c)
    moreover have "n div 64 < 256" using 2 by auto
    ultimately show ?thesis
      using 2 once [of "0xC0 + n div 64" 1 "n div 64"] by (simp add: utf8_def n_def [symmetric])
  next
    case 3
    then have "Utf8ReadLeading (word_of_nat (0xE0 + n div 4096)) = Inr (2, word_of_nat (n div 4096))"
      by (intro Utf8ReadLeading_Inr(3)) auto
    moreover have a: "64 * (n div 4096) + n div 64 mod 64 = n div 64"
      using div_mult2_eq [of n 64 64] by simp
    moreover from a have "cont_loop 2 2 (word_of_nat (n div 4096))
        (word_of_nat (0x80 + n div 64 mod 64) # word_of_nat (0x80 + n mod 64) # r) = Inr (c, r)"
      using cont_loop_step [of 2 1 "n div 64 mod 64" "n div 4096" 2 "word_of_nat (0x80 + n mod 64) # r"]
        cont_loop_step [of 1 0 "n mod 64" "n div 64" 2 r] 3 by (simp add: c del: cont_loop.simps(3))
    moreover have "n div 4096 < 256" using 3 by auto
    ultimately show ?thesis
      using 3 once [of "0xE0 + n div 4096" 2 "n div 4096"] by (simp add: utf8_def n_def [symmetric])
  next
    case 4
    then have "Utf8ReadLeading (word_of_nat (0xF0 + n div 262144)) = Inr (3, word_of_nat (n div 262144))"
      using n by (intro Utf8ReadLeading_Inr(4)) auto
    moreover have a: "64 * (n div 4096) + n div 64 mod 64 = n div 64" "64 * (n div 262144) + n div 4096 mod 64 = n div 4096"
      using div_mult2_eq [of n 64 64] div_mult2_eq [of n 4096 64] by simp_all
    moreover have "cont_loop 3 3 (word_of_nat (n div 262144))
        (word_of_nat (0x80 + n div 4096 mod 64) # word_of_nat (0x80 + n div 64 mod 64) # word_of_nat (0x80 + n mod 64) # r)
          = cont_loop 3 2 (word_of_nat (n div 4096)) (word_of_nat (0x80 + n div 64 mod 64) # word_of_nat (0x80 + n mod 64) # r)"
      using cont_loop_step [of 3 2 "n div 4096 mod 64" "n div 262144" 3] 4 n unfolding a by auto
    moreover have "\<dots> = cont_loop 3 1 (word_of_nat (n div 64)) (word_of_nat (0x80 + n mod 64) # r)"
      using cont_loop_step [of 2 1 "n div 64 mod 64" "n div 4096" 3] n unfolding a by auto
    moreover have "\<dots> = Inr (c, r)"
      using cont_loop_step [of 1 0 "n mod 64" "n div 64" 3 r] n by (simp add: c)
    moreover have "n div 262144 < 256" using n by auto
    ultimately show ?thesis
      using 4 once [of "0xF0 + n div 262144" 3 "n div 262144"] by (simp add: utf8_def n_def [symmetric])
  qed
qed

subsection \<open>The UTF-8 encoder\<close>

lemma CountLZero_loop_step:
  "0 < t \<Longrightarrow> x AND t = 0 \<Longrightarrow> CountLZero_loop t x = Suc (CountLZero_loop (drop_bit 1 t) x)"
  "x AND t \<noteq> 0 \<Longrightarrow> CountLZero_loop t x = 0"
  by (simp_all add: CountLZero_loop.simps [of t])

lemma CountLZero_push_bit:
  assumes "k < 32" "unat x < 2 ^ Suc k"
  shows "CountLZero_loop (push_bit k 1) x \<le> Suc k
    \<and> (\<forall>w. Suc k - CountLZero_loop (push_bit k 1) x \<le> w \<longleftrightarrow> unat x < 2 ^ w)"
  using assms
proof (induction k)
  case 0
  then have "x = 0 \<or> x = 1" by (auto simp: word_unat_eq_iff less_2_cases_iff)
  then show ?case
  proof
    assume x: "x = 1"
    have "Suc 0 - 0 \<le> w \<longleftrightarrow> unat (1 :: u32) < 2 ^ w" for w
      using power_strict_increasing_iff [of "2::nat" 0 w] by auto
    then show ?thesis by (simp add: CountLZero_loop.simps [of 1] x)
  qed (simp add: CountLZero_loop.simps [of 1] CountLZero_loop.simps [of 0])
next
  case (Suc k)
  have b: "x AND push_bit (Suc k) 1 = 0 \<longleftrightarrow> unat x < 2 ^ Suc k"
  proof -
    have "x AND push_bit (Suc k) 1 = 0 \<longleftrightarrow> \<not> odd (unat x div 2 ^ Suc k)"
      unfolding push_bit_of_1 and_exp_eq_0_iff_not_bit
      using bit_unsigned_iff [of x "Suc k", where 'a=nat] Suc.prems(1) by (simp add: bit_iff_odd)
    moreover have "unat x div 2 ^ Suc k < 2" using Suc.prems(2) by (simp add: less_mult_imp_div_less)
    ultimately show ?thesis by (auto simp: less_2_cases_iff div_eq_0_iff)
  qed
  have "bit (push_bit (Suc k) 1 :: u32) (Suc k)" using Suc.prems(1) by (simp add: bit_simps del: push_bit_Suc)
  then have p: "0 < (push_bit (Suc k) 1 :: u32)" by (auto simp: word_gt_0 simp del: push_bit_Suc)
  have d: "drop_bit 1 (push_bit (Suc k) 1) = (push_bit k 1 :: u32)"
    using Suc.prems(1) by (intro bit_word_eqI) (auto simp: bit_simps)
  show ?case
  proof (cases "x AND push_bit (Suc k) 1 = 0")
    case True
    then have "CountLZero_loop (push_bit (Suc k) 1) x = Suc (CountLZero_loop (push_bit k 1) x)"
      by (simp only: CountLZero_loop_step(1) [OF p] d)
    then show ?thesis using Suc.IH b True Suc.prems(1) by simp
  next
    case False
    then have "CountLZero_loop (push_bit (Suc k) 1) x = 0"
      by (rule CountLZero_loop_step)
    moreover have "Suc (Suc k) \<le> w \<longleftrightarrow> unat x < 2 ^ w" for w
    proof
      assume "Suc (Suc k) \<le> w"
      then have "2 ^ Suc (Suc k) \<le> (2 :: nat) ^ w" by (intro power_increasing) auto
      then show "unat x < 2 ^ w" using Suc.prems(2) by linarith
    next
      assume "unat x < 2 ^ w"
      then have "2 ^ Suc k < (2 :: nat) ^ w" using False b by linarith
      then show "Suc (Suc k) \<le> w" by (metis Suc_le_eq one_less_numeral_iff power_strict_increasing_iff semiring_norm(76))
    qed
    ultimately show ?thesis by simp
  qed
qed

lemma BitWidth_le: "BitWidth x \<le> w \<longleftrightarrow> unat x < 2 ^ w"
proof -
  have "unat x < 2 ^ Suc 31" by (rule order_less_le_trans [OF unsigned_less]) simp
  from CountLZero_push_bit [OF _ this] show ?thesis
    by (simp add: BitWidth_def CountLZero_def)
qed

lemma unat_ucast_small: "unat (x::u32) < 256 \<Longrightarrow> unat (ucast x :: u8) = unat x"
  by (simp add: unsigned_ucast_eq take_bit_nat_eq_self)

lemma and_low:
  "unat (x AND 0x7F :: u32) = unat x mod 128" "unat (x AND 0x1F :: u32) = unat x mod 32"
  "unat (x AND 0x0F :: u32) = unat x mod 16" "unat (x AND 0x07 :: u32) = unat x mod 8"
  using unat_and_mask [of x 7] unat_and_mask [of x 5] unat_and_mask [of x 4] unat_and_mask [of x 3]
  by (simp_all add: mask_eq_exp_minus_1)

lemma tagged_bytes:
  "0x80 OR ucast (x AND 0x3F :: u32) = (word_of_nat (0x80 + unat x mod 64) :: u8)"
  "ucast (x AND 0x7F :: u32) = (word_of_nat (unat x mod 128) :: u8)"
  "0xC0 OR ucast (x AND 0x1F :: u32) = (word_of_nat (0xC0 + unat x mod 32) :: u8)"
  "0xE0 OR ucast (x AND 0x0F :: u32) = (word_of_nat (0xE0 + unat x mod 16) :: u8)"
  "0xF0 OR ucast (x AND 0x07 :: u32) = (word_of_nat (0xF0 + unat x mod 8) :: u8)"
  by (rule word_of_nat_byte [symmetric], simp add: byte_tags unat_ucast_small and_low unat_and_0x3F)+

lemma CodePtToUtf8Once_eq:
  "CodePtToUtf8Once c = (if IsValidCodePt c then Inr (utf8 c) else Inl invalid_code_point)"
proof (cases "IsValidCodePt c")
  case True
  then have n: "unat c < 0x110000" by (simp add: IsValidCodePt_iff)
  have d: "unat (drop_bit 6 x) = unat x div 64" for x :: u32 by (simp add: drop_bit_eq_div unat_div)
  have s: "unat c div 64 div 64 = unat c div 4096" "unat c div 4096 div 64 = unat c div 262144"
    using div_mult2_eq [of "unat c" 64 64] div_mult2_eq [of "unat c" 4096 64] by simp_all
  have w: "write_conts 2 = write_conts (Suc (Suc 0))" "write_conts 3 = write_conts (Suc (Suc (Suc 0)))"
    by (simp_all add: numeral_2_eq_2 numeral_3_eq_3)
  note [simp del] = of_nat_add drop_bit_drop_bit
  consider "unat c < 0x80" | "0x80 \<le> unat c" "unat c < 0x800" | "0x800 \<le> unat c" "unat c < 0x10000" | "0x10000 \<le> unat c"
    by linarith
  then show ?thesis
    using True n
    by cases (simp_all add: CodePtToUtf8Once_def CalcUtf8NumContNeeded_def BitWidth_le utf8_def tagged_bytes d s
        w Let_def)
qed (simp add: CodePtToUtf8Once_def CalcUtf8NumContNeeded_def)

lemma CodePtToUtf8OnceGetSize_eq:
  "CodePtToUtf8OnceGetSize c = (if IsValidCodePt c then Inr (length (utf8 c)) else Inl invalid_code_point)"
  by (simp add: CodePtToUtf8OnceGetSize_def CalcUtf8NumContNeeded_def BitWidth_le utf8_def Let_def)

end
