(* ===== verification/Utf.thy ===== *)
theory Utf
  imports Utf8
begin

text \<open>
  \<open>SimpleUtf\<close>, UTF-16, UTF-32 and the conversions (\<open>Utf16.hpp\<close>, \<open>Utf32.hpp\<close>, \<open>Utf.hpp\<close>). The conversion loop is a
  \<open>partial_function\<close>, in which not returning is \<open>None\<close>; that it returns is a theorem. Its facts are proved once, in the
  locales \<open>utf_decoder\<close> and \<open>utf_conversion\<close>, and hold for the six conversions by interpretation.
\<close>

unbundle bit_operations_syntax

section \<open>UTF-16 and UTF-32\<close>

definition IsUtf16Surrogate :: "u16 \<Rightarrow> bool" where
  "IsUtf16Surrogate val \<longleftrightarrow>
     val AND 0x8000 \<noteq> 0 \<and> val AND 0x4000 \<noteq> 0 \<and> \<not> val AND 0x2000 \<noteq> 0 \<and> val AND 0x1000 \<noteq> 0 \<and> val AND 0x0800 \<noteq> 0"

definition IsUtf16SurrogateFirst :: "u16 \<Rightarrow> bool" where
  "IsUtf16SurrogateFirst val \<longleftrightarrow> IsUtf16Surrogate val \<and> \<not> val AND 0x0400 \<noteq> 0"

definition IsUtf16SurrogateSecond :: "u16 \<Rightarrow> bool" where
  "IsUtf16SurrogateSecond val \<longleftrightarrow> IsUtf16Surrogate val \<and> val AND 0x0400 \<noteq> 0"

definition Utf16ToCodePtOnce :: "u16 list \<Rightarrow> UtfError + (u32 \<times> u16 list)" where
  "Utf16ToCodePtOnce s =
     (let invalid = Inl (UtfConversionException ''Invalid UTF-16 leading bytes.'') in
      case s of
        [] \<Rightarrow> Inl (UtfConversionException ''Unexpected Ending'')
      | uval1 # s \<Rightarrow>
          if IsUtf16SurrogateFirst uval1 then
            (case s of
               [] \<Rightarrow> Inl (UtfConversionException ''Unexpected Ending'')
             | uval2 # s \<Rightarrow>
                 if IsUtf16SurrogateSecond uval2 then
                   let res = 0x10000;
                       res = res + push_bit 10 (ucast (uval1 AND 0x03FF));
                       res = res + ucast (uval2 AND 0x03FF)
                   in if \<not> IsValidCodePt res then Inl (UtfConversionException ''Invalid Code Point'')
                      else Inr (res, s)
                 else invalid)
          else if \<not> IsUtf16SurrogateSecond uval1 then
            let res = ucast uval1 in
            if \<not> IsValidCodePt res then Inl (UtfConversionException ''Invalid Code Point'')
            else Inr (res, s)
          else invalid)"

definition CodePtToUtf16Once :: "u32 \<Rightarrow> UtfError + u16 list" where
  "CodePtToUtf16Once val =
     (if \<not> IsValidCodePt val then Inl invalid_code_point
      else if val \<le> 0xD7FF \<or> 0xE000 \<le> val \<and> val \<le> 0xFFFF then Inr [ucast val]
      else
        let code = val - 0x10000
        in Inr [ucast (0xD800 OR drop_bit 10 code), ucast (0xDC00 OR code AND 0x3FF)])"

definition CodePtToUtf16OnceGetSize :: "u32 \<Rightarrow> UtfError + nat" where
  "CodePtToUtf16OnceGetSize val =
     (if \<not> IsValidCodePt val then Inl invalid_code_point
      else Inr (if val \<le> 0xD7FF \<or> 0xE000 \<le> val \<and> val \<le> 0xFFFF then 1 else 2))"

definition Utf32ToCodePtOnce :: "u32 list \<Rightarrow> UtfError + (u32 \<times> u32 list)" where
  "Utf32ToCodePtOnce s =
     (case s of
        [] \<Rightarrow> Inl (UtfConversionException ''Unexpected Ending'')
      | uval4B # s \<Rightarrow>
          if \<not> IsValidCodePt uval4B then Inl (UtfConversionException ''Invalid UTF-32 bytes.'')
          else Inr (uval4B, s))"

definition CodePtToUtf32Once :: "u32 \<Rightarrow> UtfError + u32 list" where
  "CodePtToUtf32Once val = (if \<not> IsValidCodePt val then Inl invalid_code_point else Inr [val])"

definition CodePtToUtf32OnceGetSize :: "u32 \<Rightarrow> UtfError + nat" where
  "CodePtToUtf32OnceGetSize val = (if \<not> IsValidCodePt val then Inl invalid_code_point else Inr 1)"

section \<open>Conversions\<close>

definition UtfConvertOnce :: "('a list \<Rightarrow> UtfError + (u32 \<times> 'a list)) \<Rightarrow> (u32 \<Rightarrow> UtfError + 'b list) \<Rightarrow> 'a list \<Rightarrow> 'b list
    \<Rightarrow> UtfError + ('a list \<times> 'b list)" where
  "UtfConvertOnce inFunc outFunc s dest =
     bindE (inFunc s) (\<lambda>(c, s). bindE (outFunc c) (\<lambda>out. Inr (s, dest @ out)))"

partial_function (option) UtfConvert :: "('a list \<Rightarrow> UtfError + (u32 \<times> 'a list)) \<Rightarrow> (u32 \<Rightarrow> UtfError + 'b list) \<Rightarrow> 'a list \<Rightarrow> 'b list
    \<Rightarrow> (UtfError + 'b list) option" where
  "UtfConvert inFunc outFunc s dest =
     (if s = [] then Some (Inr dest)
      else
        case UtfConvertOnce inFunc outFunc s dest of
          Inl e \<Rightarrow> Some (Inl e)
        | Inr (s, dest) \<Rightarrow> UtfConvert inFunc outFunc s dest)"

definition UtfConvertOnceGetSize :: "('a list \<Rightarrow> UtfError + (u32 \<times> 'a list)) \<Rightarrow> (u32 \<Rightarrow> UtfError + nat) \<Rightarrow> 'a list
    \<Rightarrow> UtfError + (nat \<times> 'a list)" where
  "UtfConvertOnceGetSize inFunc outFunc s =
     bindE (inFunc s) (\<lambda>(c, s). bindE (outFunc c) (\<lambda>n. Inr (n, s)))"

partial_function (option) UtfConvertGetSize :: "('a list \<Rightarrow> UtfError + (u32 \<times> 'a list)) \<Rightarrow> (u32 \<Rightarrow> UtfError + nat) \<Rightarrow> 'a list \<Rightarrow> nat
    \<Rightarrow> (UtfError + nat) option" where
  "UtfConvertGetSize inFunc outFunc s n =
     (if s = [] then Some (Inr n)
      else
        case UtfConvertOnceGetSize inFunc outFunc s of
          Inl e \<Rightarrow> Some (Inl e)
        | Inr (tmp, s) \<Rightarrow> UtfConvertGetSize inFunc outFunc s (n + tmp))"

declare UtfConvert.simps [code] UtfConvertGetSize.simps [code]

definition Utf8ToUtf16 :: "u8 list \<Rightarrow> (UtfError + u16 list) option" where
  "Utf8ToUtf16 s = UtfConvert Utf8ToCodePtOnce CodePtToUtf16Once s []"
definition Utf8ToUtf32 :: "u8 list \<Rightarrow> (UtfError + u32 list) option" where
  "Utf8ToUtf32 s = UtfConvert Utf8ToCodePtOnce CodePtToUtf32Once s []"
definition Utf16ToUtf8 :: "u16 list \<Rightarrow> (UtfError + u8 list) option" where
  "Utf16ToUtf8 s = UtfConvert Utf16ToCodePtOnce CodePtToUtf8Once s []"
definition Utf16ToUtf32 :: "u16 list \<Rightarrow> (UtfError + u32 list) option" where
  "Utf16ToUtf32 s = UtfConvert Utf16ToCodePtOnce CodePtToUtf32Once s []"
definition Utf32ToUtf8 :: "u32 list \<Rightarrow> (UtfError + u8 list) option" where
  "Utf32ToUtf8 s = UtfConvert Utf32ToCodePtOnce CodePtToUtf8Once s []"
definition Utf32ToUtf16 :: "u32 list \<Rightarrow> (UtfError + u16 list) option" where
  "Utf32ToUtf16 s = UtfConvert Utf32ToCodePtOnce CodePtToUtf16Once s []"

definition Utf8ToUtf16GetSize :: "u8 list \<Rightarrow> (UtfError + nat) option" where
  "Utf8ToUtf16GetSize s = UtfConvertGetSize Utf8ToCodePtOnce CodePtToUtf16OnceGetSize s 0"
definition Utf8ToUtf32GetSize :: "u8 list \<Rightarrow> (UtfError + nat) option" where
  "Utf8ToUtf32GetSize s = UtfConvertGetSize Utf8ToCodePtOnce CodePtToUtf32OnceGetSize s 0"
definition Utf16ToUtf8GetSize :: "u16 list \<Rightarrow> (UtfError + nat) option" where
  "Utf16ToUtf8GetSize s = UtfConvertGetSize Utf16ToCodePtOnce CodePtToUtf8OnceGetSize s 0"
definition Utf16ToUtf32GetSize :: "u16 list \<Rightarrow> (UtfError + nat) option" where
  "Utf16ToUtf32GetSize s = UtfConvertGetSize Utf16ToCodePtOnce CodePtToUtf32OnceGetSize s 0"
definition Utf32ToUtf8GetSize :: "u32 list \<Rightarrow> (UtfError + nat) option" where
  "Utf32ToUtf8GetSize s = UtfConvertGetSize Utf32ToCodePtOnce CodePtToUtf8OnceGetSize s 0"
definition Utf32ToUtf16GetSize :: "u32 list \<Rightarrow> (UtfError + nat) option" where
  "Utf32ToUtf16GetSize s = UtfConvertGetSize Utf32ToCodePtOnce CodePtToUtf16OnceGetSize s 0"

section \<open>The encodings as arithmetic\<close>

definition utf16 :: "u32 \<Rightarrow> u16 list" where
  "utf16 c =
     (let n = unat c in
      map word_of_nat
        (if n < 0x10000 then [n]
         else [0xD800 + (n - 0x10000) div 1024, 0xDC00 + (n - 0x10000) mod 1024]))"

definition utf32 :: "u32 \<Rightarrow> u32 list" where
  "utf32 c = [c]"

subsection \<open>UTF-16\<close>

lemma and_power_eq_0: "(v::u16) AND 2 ^ k = 0 \<longleftrightarrow> even (unat v div 2 ^ k)"
  using bit_unsigned_iff [of v k, where 'a=nat] bit_imp_le_length [of v k]
  by (auto simp: and_exp_eq_0_iff_not_bit bit_iff_odd possible_bit_def)

lemma surrogate_bits:
  assumes "m < 64"
  shows "odd (m div 32) \<and> odd (m div 16) \<and> even (m div 8) \<and> odd (m div 4) \<and> odd (m div 2) \<longleftrightarrow> m = 54 \<or> m = (55 :: nat)"
proof -
  have "list_all (\<lambda>m. (odd (m div 32) \<and> odd (m div 16) \<and> even (m div 8) \<and> odd (m div 4) \<and> odd (m div 2))
      = (m = 54 \<or> m = (55 :: nat))) [0..<64]"
    by code_simp
  then show ?thesis using assms by (auto simp: list_all_iff)
qed

lemma IsUtf16Surrogate_iff: "IsUtf16Surrogate v \<longleftrightarrow> unat v div 1024 = 54 \<or> unat v div 1024 = 55"
proof -
  have "unat v div 1024 < 64" by (rule less_mult_imp_div_less) simp
  moreover have "unat v div 32768 = unat v div 1024 div 32" "unat v div 16384 = unat v div 1024 div 16"
    "unat v div 8192 = unat v div 1024 div 8" "unat v div 4096 = unat v div 1024 div 4"
    "unat v div 2048 = unat v div 1024 div 2"
    by (simp_all flip: div_mult2_eq)
  ultimately show ?thesis
    using and_power_eq_0 [of v 15] and_power_eq_0 [of v 14] and_power_eq_0 [of v 13] and_power_eq_0 [of v 12]
      and_power_eq_0 [of v 11] surrogate_bits [of "unat v div 1024"]
    by (simp add: IsUtf16Surrogate_def)
qed

lemma surrogate_iff:
  "IsUtf16SurrogateFirst v \<longleftrightarrow> unat v div 1024 = 54"
  "IsUtf16SurrogateSecond v \<longleftrightarrow> unat v div 1024 = 55"
  using and_power_eq_0 [of v 10]
  by (auto simp: IsUtf16SurrogateFirst_def IsUtf16SurrogateSecond_def IsUtf16Surrogate_iff)

lemma unat_ucast_u16: "unat (ucast (v::u16) :: u32) = unat v"
  by (simp add: unsigned_ucast_eq take_bit_nat_eq_self order_less_le_trans [OF unat_u16_less])

lemma unat_low10: "unat (ucast (v AND 0x3FF :: u16) :: u32) = unat v mod 1024"
  using unat_and_mask [of v 10] by (simp add: unat_ucast_u16 mask_eq_exp_minus_1)

lemma unat_pair_sum:
  "unat a < 1024 \<Longrightarrow> unat b < 1024 \<Longrightarrow> unat (0x10000 + push_bit 10 a + b :: u32) = 0x10000 + 1024 * unat a + unat b"
  by (simp add: push_bit_eq_mult unat_word_ariths)

lemma unat_surrogate_pair:
  "unat (0x10000 + push_bit 10 (ucast (u AND 0x3FF :: u16)) + ucast (v AND 0x3FF :: u16) :: u32)
     = 0x10000 + 1024 * (unat u mod 1024) + unat v mod 1024"
  by (simp only: unat_pair_sum unat_low10 mod_less_divisor zero_less_numeral)

lemma utf16_dec_sound:
  assumes "Utf16ToCodePtOnce s = Inr (c, r)"
  shows "IsValidCodePt c \<and> s = utf16 c @ r"
proof -
  consider (1) u where "s = u # r" "c = ucast u" "IsValidCodePt c"
    | (2) u v where "s = u # v # r" "unat u div 1024 = 54" "unat v div 1024 = 55" "IsValidCodePt c"
      "c = 0x10000 + push_bit 10 (ucast (u AND 0x3FF)) + ucast (v AND 0x3FF)"
    using assms by (auto simp: Utf16ToCodePtOnce_def surrogate_iff Let_def split: list.splits if_splits)
  then show ?thesis
  proof cases
    case (1 u)
    then show ?thesis by (simp add: utf16_def unat_ucast_u16)
  next
    case (2 u v)
    have c: "unat c - 0x10000 = 1024 * (unat u mod 1024) + unat v mod 1024" "0x10000 \<le> unat c"
      unfolding 2(5) unat_surrogate_pair by simp_all
    have u: "u = word_of_nat (0xD800 + unat u mod 1024)" "v = word_of_nat (0xDC00 + unat v mod 1024)"
      using 2(2,3) div_mult_mod_eq [of "unat u" 1024] div_mult_mod_eq [of "unat v" 1024] 
      by (simp_all add: word_unat_eq_iff unat_of_nat del: of_nat_add)
    have "utf16 c = [word_of_nat (0xD800 + unat u mod 1024), word_of_nat (0xDC00 + unat v mod 1024)]"
      using c by (simp add: utf16_def del: of_nat_add)
    also have "\<dots> = [u, v]" by (simp only: u [symmetric])
    finally show ?thesis using 2(1,4) by simp
  qed
qed

lemma utf16_dec_complete:
  assumes "IsValidCodePt c"
  shows "Utf16ToCodePtOnce (utf16 c @ r) = Inr (c, r)"
proof (cases "unat c < 0x10000")
  case True
  have u: "unat (word_of_nat (unat c) :: u16) = unat c" using True by (simp only: unat_of_nat) simp
  have "unat c div 1024 \<noteq> 54" "unat c div 1024 \<noteq> 55" using assms by (auto simp: IsValidCodePt_iff)
  moreover have "ucast (word_of_nat (unat c) :: u16) = c" by (simp only: word_unat_eq_iff unat_ucast_u16 u)
  ultimately show ?thesis
    using True assms u by (simp add: utf16_def Utf16ToCodePtOnce_def surrogate_iff Let_def)
next
  case False
  define n where "n = unat c - 0x10000"
  have n: "unat c = 0x10000 + n" "n < 1024 * 1024" using assms False by (auto simp: n_def IsValidCodePt_iff)
  let ?u = "word_of_nat (0xD800 + n div 1024) :: u16" and ?v = "word_of_nat (0xDC00 + n mod 1024) :: u16"
  have d: "n div 1024 < 1024" using n(2) by (simp add: less_mult_imp_div_less)
  have uv: "unat ?u = 0xD800 + n div 1024" "unat ?v = 0xDC00 + n mod 1024"
    using d by (simp_all add: unat_of_nat del: of_nat_add)
  have "(0xD800 + a) div 1024 = 54" "(0xDC00 + a) div 1024 = 55" "(0xD800 + a) mod 1024 = a" "(0xDC00 + a) mod 1024 = a"
    if "a < 1024" for a :: nat
    using that by (auto intro: div_nat_eqI mod_nat_eqI)
  note div = this [OF d] this [of "n mod 1024", simplified]
  have f: "IsUtf16SurrogateFirst ?u" "IsUtf16SurrogateSecond ?v"
    unfolding surrogate_iff uv by (simp_all only: div)
  have c: "0x10000 + push_bit 10 (ucast (?u AND 0x3FF)) + ucast (?v AND 0x3FF) = c"
    unfolding word_unat_eq_iff unat_surrogate_pair uv n(1) div by simp
  have "utf16 c = [?u, ?v]" using False by (simp add: utf16_def n_def Let_def del: of_nat_add)
  then show ?thesis using assms f by (simp add: Utf16ToCodePtOnce_def Let_def c del: of_nat_add)
qed

lemma CodePtToUtf16Once_eq:
  "CodePtToUtf16Once c = (if IsValidCodePt c then Inr (utf16 c) else Inl invalid_code_point)"
proof (cases "IsValidCodePt c")
  case True
  have single: "c \<le> 0xD7FF \<or> 0xE000 \<le> c \<and> c \<le> 0xFFFF \<longleftrightarrow> unat c < 0x10000"
    using True by (auto simp: IsValidCodePt_iff word_le_nat_alt)
  show ?thesis
  proof (cases "unat c < 0x10000")
    case True
    then show ?thesis using \<open>IsValidCodePt c\<close>
      by (simp add: CodePtToUtf16Once_def single utf16_def)
  next
    case False
    define n where "n = unat c - 0x10000"
    have n: "unat (c - 0x10000) = n" "n < 1024 * 1024"
      using True False by (auto simp: n_def IsValidCodePt_iff unat_sub word_le_nat_alt)
    have d: "n div 1024 < 1024" using n(2) by (simp add: less_mult_imp_div_less)
    have h: "unat (drop_bit 10 (c - 0x10000)) = n div 1024" by (simp add: drop_bit_eq_div unat_div n(1))
    have l: "unat ((c - 0x10000) AND 0x3FF) = n mod 1024"
      using unat_and_mask [of "c - 0x10000" 10] n(1) by (simp add: mask_eq_exp_minus_1)
    have "unat (0xD800 OR drop_bit 10 (c - 0x10000)) = 0xD800 + n div 1024"
      "unat (0xDC00 OR (c - 0x10000) AND 0x3FF) = 0xDC00 + n mod 1024"
      using unat_shift_or [of "drop_bit 10 (c - 0x10000)" 10 54] unat_shift_or [of "(c - 0x10000) AND 0x3FF" 10 55] d h l
      by (simp_all add: push_bit_eq_mult)
    then have "ucast (0xD800 OR drop_bit 10 (c - 0x10000)) = (word_of_nat (0xD800 + n div 1024) :: u16)"
      "ucast (0xDC00 OR (c - 0x10000) AND 0x3FF) = (word_of_nat (0xDC00 + n mod 1024) :: u16)"
      using d by (simp_all add: word_unat_eq_iff unsigned_ucast_eq unat_of_nat take_bit_nat_eq_self del: of_nat_add)
    then show ?thesis using True False n_def
      by (simp add: CodePtToUtf16Once_def single utf16_def Let_def del: of_nat_add)
  qed
qed (simp add: CodePtToUtf16Once_def)

lemma CodePtToUtf16OnceGetSize_eq:
  "CodePtToUtf16OnceGetSize c = (if IsValidCodePt c then Inr (length (utf16 c)) else Inl invalid_code_point)"
  by (auto simp: CodePtToUtf16OnceGetSize_def utf16_def Let_def IsValidCodePt_iff word_le_nat_alt)

subsection \<open>UTF-32\<close>

lemma utf32_dec: "Utf32ToCodePtOnce s = Inr (c, r) \<longleftrightarrow> IsValidCodePt c \<and> s = utf32 c @ r"
  by (auto simp: Utf32ToCodePtOnce_def utf32_def split: list.splits)

lemma CodePtToUtf32Once_eq:
  "CodePtToUtf32Once c = (if IsValidCodePt c then Inr (utf32 c) else Inl invalid_code_point)"
  "CodePtToUtf32OnceGetSize c = (if IsValidCodePt c then Inr (length (utf32 c)) else Inl invalid_code_point)"
  by (simp_all add: CodePtToUtf32Once_def CodePtToUtf32OnceGetSize_def utf32_def)

section \<open>The interface of a conversion\<close>

text \<open>A decoder takes exactly the encoding of one valid code point off its input; encodings are not empty.\<close>

locale utf_decoder =
  fixes dec :: "'a list \<Rightarrow> UtfError + (u32 \<times> 'a list)"
    and enc :: "u32 \<Rightarrow> 'a list"
  assumes dec_iff: "dec s = Inr (c, r) \<longleftrightarrow> IsValidCodePt c \<and> s = enc c @ r"
    and enc_nonempty: "enc c \<noteq> []"
begin

lemma dec_enc: "IsValidCodePt c \<Longrightarrow> dec (enc c @ r) = Inr (c, r)"
  by (simp add: dec_iff)

lemma decodes: "dec s = Inr (c, r) \<Longrightarrow> s \<noteq> [] \<and> IsValidCodePt c \<and> length r < length s"
  using enc_nonempty [of c] by (auto simp: dec_iff)

lemma encodes_inj:
  "list_all IsValidCodePt cs \<Longrightarrow> list_all IsValidCodePt ds \<Longrightarrow> concat (map enc cs) = concat (map enc ds) \<Longrightarrow> cs = ds"
proof (induction cs arbitrary: ds)
  case Nil
  then show ?case using enc_nonempty by (cases ds) auto
next
  case (Cons c cs)
  then obtain d es where ds: "ds = d # es" using Cons.prems(3) enc_nonempty [of c] by (cases ds) simp_all
  have eq: "enc c @ concat (map enc cs) = enc d @ concat (map enc es)" using Cons.prems(3) ds by simp
  have "dec (enc c @ concat (map enc cs)) = Inr (c, concat (map enc cs))"
    "dec (enc d @ concat (map enc es)) = Inr (d, concat (map enc es))"
    using Cons.prems(1,2) ds by (simp_all add: dec_enc)
  then have "c = d" "concat (map enc cs) = concat (map enc es)" unfolding eq by simp_all
  moreover have "cs = es" using Cons.prems(1,2) ds by (intro Cons.IH) (simp_all add: calculation)
  ultimately show ?case using ds by simp
qed

end

text \<open>The writer encodes every valid code point, and the size function announces its length.\<close>

locale utf_conversion = utf_decoder dec enc for dec :: "'a list \<Rightarrow> UtfError + (u32 \<times> 'a list)" and enc +
  fixes out :: "u32 \<Rightarrow> UtfError + 'b list" and size :: "u32 \<Rightarrow> UtfError + nat" and target :: "u32 \<Rightarrow> 'b list"
  assumes out_valid: "IsValidCodePt c \<Longrightarrow> out c = Inr (target c)"
    and size_valid: "IsValidCodePt c \<Longrightarrow> size c = Inr (length (target c))"
begin

lemma convert_nil: "UtfConvert dec out [] dest = Some (Inr dest)"
  by (simp add: UtfConvert.simps [of _ _ "[]"])

lemma convert_error: "s \<noteq> [] \<Longrightarrow> dec s = Inl e \<Longrightarrow> UtfConvert dec out s dest = Some (Inl e)"
  by (simp add: UtfConvert.simps [of _ _ s] UtfConvertOnce_def)

lemma convert_step: "dec s = Inr (c, r) \<Longrightarrow> UtfConvert dec out s dest = UtfConvert dec out r (dest @ target c)"
  using decodes [of s c r]
  by (simp add: UtfConvert.simps [of _ _ s] UtfConvertOnce_def out_valid)

text \<open>Whatever the input, the conversion returns; it succeeds on the encoded texts, and then writes the same text.\<close>

lemma convert_outcome:
  "\<exists>res. UtfConvert dec out s dest = Some res
     \<and> (\<forall>t. res = Inr t \<longleftrightarrow> (\<exists>cs. list_all IsValidCodePt cs \<and> s = concat (map enc cs) \<and> t = dest @ concat (map target cs)))"
proof (induction s arbitrary: dest rule: length_induct)
  case (1 s)
  consider (nil) "s = []" | (bad) e where "s \<noteq> []" "dec s = Inl e" | (good) c r where "dec s = Inr (c, r)"
    by (metis sumE surj_pair)
  then show ?case
  proof cases
    case nil
    have "concat (map enc cs) = [] \<longleftrightarrow> cs = []" for cs using enc_nonempty by (cases cs) auto
    then show ?thesis using nil by (auto simp: convert_nil)
  next
    case bad
    have "s \<noteq> concat (map enc cs)" if "list_all IsValidCodePt cs" for cs
      using bad that dec_enc by (cases cs) auto
    then show ?thesis using bad by (auto simp: convert_error)
  next
    case good
    then have s: "IsValidCodePt c" "s = enc c @ r" by (simp_all add: dec_iff)
    have step: "(\<exists>cs. list_all IsValidCodePt cs \<and> s = concat (map enc cs) \<and> t = dest @ concat (map target cs))
      \<longleftrightarrow> (\<exists>cs. list_all IsValidCodePt cs \<and> r = concat (map enc cs) \<and> t = (dest @ target c) @ concat (map target cs))" (is "?l \<longleftrightarrow> ?r") for t
    proof
      assume ?l
      then obtain cs where cs: "list_all IsValidCodePt cs" "s = concat (map enc cs)" "t = dest @ concat (map target cs)" by blast
      then obtain d ds where d: "cs = d # ds" using s enc_nonempty [of c] by (cases cs) auto
      then have "d = c \<and> concat (map enc ds) = r" using cs good dec_enc [of d "concat (map enc ds)"] by simp
      then show ?r using cs d by auto
    next
      assume ?r
      then obtain cs where "list_all IsValidCodePt cs" "r = concat (map enc cs)" "t = (dest @ target c) @ concat (map target cs)"
        by blast
      then show ?l using s by (intro exI [of _ "c # cs"]) simp
    qed
    have "length r < length s" using s enc_nonempty [of c] by simp
    then show ?thesis unfolding convert_step [OF good] step using 1 by blast
  qed
qed

lemma convert_returns: "\<exists>r. UtfConvert dec out s dest = Some r"
  using convert_outcome [of s dest] by blast

lemma convert_Inr:
  "UtfConvert dec out s dest = Some (Inr t) \<longleftrightarrow>
     (\<exists>cs. list_all IsValidCodePt cs \<and> s = concat (map enc cs) \<and> t = dest @ concat (map target cs))"
  using convert_outcome [of s dest] by (metis option.inject)

text \<open>The size function reads the same input and fails where the conversion fails.\<close>

lemma size_of_convert:
  "UtfConvertGetSize dec size s (length dest) = map_option (map_sum id length) (UtfConvert dec out s dest)"
proof (induction s arbitrary: dest rule: length_induct)
  case (1 s)
  consider (nil) "s = []" | (bad) e where "s \<noteq> []" "dec s = Inl e" | (good) c r where "dec s = Inr (c, r)"
    by (metis sumE surj_pair)
  then show ?case
  proof cases
    case good
    note s = decodes [OF good]
    then have "UtfConvertGetSize dec size r (length (dest @ target c)) = map_option (map_sum id length) (UtfConvert dec out r (dest @ target c))"
      using 1 by blast
    then show ?thesis using s
      by (simp add: convert_step [OF good] UtfConvertGetSize.simps [of _ _ s] UtfConvertOnceGetSize_def good size_valid id_def)
  qed (simp_all add: convert_nil convert_error UtfConvertGetSize.simps [of _ _ s] UtfConvertGetSize.simps [of _ _ "[]"]
      UtfConvertOnceGetSize_def)
qed

end

section \<open>The three formats\<close>

lemma utf8_dec: "Utf8ToCodePtOnce s = Inr (c, r) \<longleftrightarrow> IsValidCodePt c \<and> s = utf8 c @ r"
  using utf8_dec_sound utf8_dec_complete by blast

lemma utf16_dec: "Utf16ToCodePtOnce s = Inr (c, r) \<longleftrightarrow> IsValidCodePt c \<and> s = utf16 c @ r"
  using utf16_dec_sound utf16_dec_complete by blast

lemma utf_nonempty: "utf8 c \<noteq> []" "utf16 c \<noteq> []" "utf32 c \<noteq> []"
  by (simp_all add: utf8_def utf16_def utf32_def Let_def)

lemmas utf_writers = CodePtToUtf8Once_eq CodePtToUtf8OnceGetSize_eq CodePtToUtf16Once_eq CodePtToUtf16OnceGetSize_eq
  CodePtToUtf32Once_eq

lemmas utf_laws = utf8_dec utf16_dec utf32_dec utf_nonempty utf_writers

interpretation c8_16: utf_conversion Utf8ToCodePtOnce utf8 CodePtToUtf16Once CodePtToUtf16OnceGetSize utf16
  by unfold_locales (simp_all add: utf_laws)

interpretation c8_32: utf_conversion Utf8ToCodePtOnce utf8 CodePtToUtf32Once CodePtToUtf32OnceGetSize utf32
  by unfold_locales (simp_all add: utf_laws)

interpretation c16_8: utf_conversion Utf16ToCodePtOnce utf16 CodePtToUtf8Once CodePtToUtf8OnceGetSize utf8
  by unfold_locales (simp_all add: utf_laws)

interpretation c16_32: utf_conversion Utf16ToCodePtOnce utf16 CodePtToUtf32Once CodePtToUtf32OnceGetSize utf32
  by unfold_locales (simp_all add: utf_laws)

interpretation c32_8: utf_conversion Utf32ToCodePtOnce utf32 CodePtToUtf8Once CodePtToUtf8OnceGetSize utf8
  by unfold_locales (simp_all add: utf_laws)

interpretation c32_16: utf_conversion Utf32ToCodePtOnce utf32 CodePtToUtf16Once CodePtToUtf16OnceGetSize utf16
  by unfold_locales (simp_all add: utf_laws)

section \<open>Truncated input\<close>

text \<open>What the UTF-8 decoder does on an input it also does on every longer one, unless it has reached the end.\<close>

lemma cont_loop_extend:
  "cont_loop m k res s = Inr (c, r) \<Longrightarrow> cont_loop m k res (s @ q) = Inr (c, r @ q)"
proof (induction k arbitrary: res s)
  case (Suc k)
  then show ?case by (cases s) (auto simp: bindE_eq_Inr Let_def split: if_splits)
qed simp

lemma cont_loop_extend_error:
  "cont_loop m k res s = Inl e \<Longrightarrow> e \<noteq> UtfUndefined ''dereference of the end iterator'' \<Longrightarrow> cont_loop m k res (s @ q) = Inl e"
proof (induction k arbitrary: res s)
  case (Suc k)
  then show ?case by (cases s) (auto simp: bindE_eq_Inl Let_def split: if_splits)
qed simp

lemma Utf8ToCodePtOnce_extend:
  assumes "p \<noteq> []"
  obtains (undefined) "Utf8ToCodePtOnce p = Inl (UtfUndefined ''dereference of the end iterator'')"
  | (refused) e where "Utf8ToCodePtOnce (p @ q) = Inl e"
  | (read) c r where "Utf8ToCodePtOnce (p @ q) = Inr (c, r @ q)"
proof -
  obtain b s where p: "p = b # s" using assms by (cases p) auto
  show thesis
  proof (cases "Utf8ReadLeading b")
    case (Inl e)
    then show ?thesis using p by (intro refused) (simp add: Utf8ToCodePtOnce_def)
  next
    case (Inr nv)
    obtain n v where nv: "Utf8ReadLeading b = Inr (n, v)" using Inr by (cases nv) simp
    show ?thesis
    proof (cases "cont_loop n n (ucast v) s")
      case (Inl e)
      then show ?thesis using cont_loop_extend_error [OF Inl, of q] nv p undefined refused
        by (cases "e = UtfUndefined ''dereference of the end iterator''") (auto simp: Utf8ToCodePtOnce_def)
    next
      case (Inr cr)
      obtain c r where cr: "cont_loop n n (ucast v) s = Inr (c, r)" using Inr by (cases cr) simp
      show ?thesis using cont_loop_extend [OF cr, of q] nv p refused read
        by (cases "IsValidCodePt c") (auto simp: Utf8ToCodePtOnce_def)
    qed
  qed
qed

text \<open>The UTF-16 decoder compares the iterator before each unit.\<close>

lemma utf16_truncated:
  assumes "IsValidCodePt c" "utf16 c = p @ q" "q \<noteq> []"
  shows "Utf16ToCodePtOnce p = Inl (UtfConversionException ''Unexpected Ending'')"
proof (cases p)
  case Nil
  then show ?thesis by (simp add: Utf16ToCodePtOnce_def)
next
  case (Cons u p')
  then have "p' = []" using assms(2,3) by (cases p') (auto simp: utf16_def Let_def split: if_splits)
  moreover have "Utf16ToCodePtOnce (u # q) = Inr (c, [])" using assms(1,2) Cons calculation by (simp add: utf16_dec)
  then have "IsUtf16SurrogateFirst u"
    using assms(3) by (auto simp: Utf16ToCodePtOnce_def Let_def split: if_splits)
  ultimately show ?thesis using Cons by (simp add: Utf16ToCodePtOnce_def Let_def)
qed

section \<open>Properties\<close>

text \<open>
  C32. The UTF-8 decoder accepts exactly what the encoder writes: it returns a code point and the rest of the input when,
  and only when, the input starts with the encoding of that code point. So overlong forms, encoded surrogates and values
  above the last code point are all refused.
\<close>

theorem utf8_exact:
  "Utf8ToCodePtOnce s = Inr (c, r) \<longleftrightarrow> (\<exists>e. CodePtToUtf8Once c = Inr e \<and> s = e @ r)"
  by (auto simp: utf8_dec CodePtToUtf8Once_eq)


text \<open>
  C34. Converting from UTF-8 to UTF-16 and converting back are inverse to each other: one succeeds with \<open>t\<close> exactly when
  the other takes \<open>t\<close> back to the same input. The announced size is the number of units written.
\<close>

theorem utf8_utf16_inverse:
  "(Utf8ToUtf16 s = Some (Inr t) \<longleftrightarrow> Utf16ToUtf8 t = Some (Inr s))
   \<and> Utf8ToUtf16GetSize s = map_option (map_sum id length) (Utf8ToUtf16 s)"
  using c8_16.size_of_convert [of s "[]"]
  by (auto simp: Utf8ToUtf16_def Utf16ToUtf8_def Utf8ToUtf16GetSize_def c8_16.convert_Inr c16_8.convert_Inr)

text \<open>
  C33. Input that ends inside the UTF-8 encoding of a code point makes the decoder dereference the end of the input, for
  every code point and every place it is cut at, where the UTF-16 decoder throws (\<open>utf16_truncated\<close>).
\<close>

theorem utf8_truncated:
  assumes "IsValidCodePt c" "utf8 c = p @ q" "p \<noteq> []" "q \<noteq> []"
  shows "Utf8ToCodePtOnce p = Inl (UtfUndefined ''dereference of the end iterator'')
    \<and> Utf8ToUtf16 p = Some (Inl (UtfUndefined ''dereference of the end iterator''))"
proof -
  have d: "Utf8ToCodePtOnce (p @ q) = Inr (c, [])" using assms(1,2) by (simp add: utf8_dec)
  have "Utf8ToCodePtOnce p = Inl (UtfUndefined ''dereference of the end iterator'')"
    using assms(3) by (rule Utf8ToCodePtOnce_extend [where q = q]) (use d assms(4) in simp_all)
  then show ?thesis using assms(3) by (simp add: Utf8ToUtf16_def c8_16.convert_error)
qed

corollary utf8_truncated_witness:
  "Utf8ToCodePtOnce [0xE2, 0x82] = Inl (UtfUndefined ''dereference of the end iterator'')"
proof -
  have "utf8 0x20AC = [0xE2, 0x82] @ [0xAC]" "IsValidCodePt 0x20AC"
    by (simp_all add: utf8_def IsValidCodePt_def IsReservedCodePt_def)
  then show ?thesis using utf8_truncated [of "0x20AC" "[0xE2, 0x82]" "[0xAC]"] by simp
qed

end
