(* ===== verification/AdvRlp.thy ===== *)
theory AdvRlp
  imports Rlp Utf "HOL-Library.Multiset"
begin

text \<open>
  \<open>SimpleRlp/include/AdvancedRlp\<close>: typed objects on top of RLP. Every object is an RLP list whose first item, the specs,
  names its category; \<open>GenericWriter\<close> writes any object, \<open>GenericParser\<close> reads any but the static dicts, which have parsers of
  their own. The objects and their order are those of \<open>SimpleObjects\<close> without its floating types, which the writers refuse.
  A dict is the list of its entries in the order the hash map iterates over them. \<open>char\<close> is signed, as on the x86-64 the
  enclaves run on. The text loop that never ends would be \<open>AdvLoops\<close>; it does not happen (\<open>CatText_returns\<close>).
\<close>

unbundle bit_operations_syntax

datatype AdvError =
    AdvParseError string
  | UnknownCatId byte
  | AdvTypeError string
  | UnsupportedOperation string
  | IndexError
  | SerializeTypeError string
  | AdvUndefined string
  | AdvUtf UtfError
  | AdvRlpError ParseError
  | AdvLoops

definition lift_rlp :: "ParseError + 'a \<Rightarrow> AdvError + 'a" where
  "lift_rlp m = (case m of Inl e \<Rightarrow> Inl (AdvRlpError e) | Inr a \<Rightarrow> Inr a)"

lemma lift_rlp_simps [simp]: "lift_rlp (Inr a) = Inr a" "lift_rlp (Inl e) = Inl (AdvRlpError e)"
  by (simp_all add: lift_rlp_def)

lemma lift_rlp_eq_Inr [simp]: "lift_rlp m = Inr a \<longleftrightarrow> m = Inr a"
  by (cases m) simp_all

text \<open>Running a fallible function over a list, and concatenating what it returns.\<close>

fun mapE :: "('a \<Rightarrow> 'e + 'b) \<Rightarrow> 'a list \<Rightarrow> 'e + 'b list" where
  "mapE f [] = Inr []"
| "mapE f (x # xs) = bindE (f x) (\<lambda>y. bindE (mapE f xs) (\<lambda>ys. Inr (y # ys)))"

lemma mapE_cong [fundef_cong]:
  "xs = ys \<Longrightarrow> (\<And>x. x \<in> set ys \<Longrightarrow> f x = g x) \<Longrightarrow> mapE f xs = mapE g ys"
proof (induction xs arbitrary: ys)
  case (Cons x xs)
  then show ?case by (cases ys) auto
qed auto

section \<open>Categories\<close>

datatype CatId = CatBytes | CatNull | CatFalse | CatTrue | CatInteger | CatFloat | CatString | CatArray | CatDict | CatStaticDict

fun SerializeCatId :: "CatId \<Rightarrow> byte" where
  "SerializeCatId CatBytes = 0x00"
| "SerializeCatId CatNull = 0x01"
| "SerializeCatId CatFalse = 0x02"
| "SerializeCatId CatTrue = 0x03"
| "SerializeCatId CatInteger = 0x04"
| "SerializeCatId CatFloat = 0x05"
| "SerializeCatId CatString = 0x08"
| "SerializeCatId CatArray = 0x20"
| "SerializeCatId CatDict = 0x22"
| "SerializeCatId CatStaticDict = 0x23"

definition GetCatIdFromByte :: "byte \<Rightarrow> AdvError + CatId" where
  "GetCatIdFromByte idByte =
     (if idByte = 0x00 then Inr CatBytes
      else if idByte = 0x01 then Inr CatNull
      else if idByte = 0x02 then Inr CatFalse
      else if idByte = 0x03 then Inr CatTrue
      else if idByte = 0x04 then Inr CatInteger
      else if idByte = 0x05 then Inr CatFloat
      else if idByte = 0x08 then Inr CatString
      else if idByte = 0x20 then Inr CatArray
      else if idByte = 0x22 then Inr CatDict
      else if idByte = 0x23 then Inr CatStaticDict
      else Inl (UnknownCatId idByte))"

section \<open>Objects\<close>

datatype IntType = Int8 | Int16 | Int32 | Int64 | UInt8 | UInt16 | UInt32 | UInt64

datatype Obj =
    OBytes bytes
  | ONull
  | OBool bool
  | OInt IntType int
  | OString "u8 list"
  | OList "Obj list"
  | ODict "(Obj \<times> Obj) list"
  | OStaticDict "Obj list"

definition ObjAsBytes :: "Obj \<Rightarrow> AdvError + bytes" where
  "ObjAsBytes x = (case x of OBytes b \<Rightarrow> Inr b | _ \<Rightarrow> Inl (AdvTypeError ''Bytes''))"

definition ObjAsList :: "Obj \<Rightarrow> AdvError + Obj list" where
  "ObjAsList x = (case x of OList xs \<Rightarrow> Inr xs | _ \<Rightarrow> Inl (AdvTypeError ''List''))"

definition ObjAsDict :: "Obj \<Rightarrow> AdvError + (Obj \<times> Obj) list" where
  "ObjAsDict x = (case x of ODict kvs \<Rightarrow> Inr kvs | _ \<Rightarrow> Inl (AdvTypeError ''Dict''))"

definition AsHashable :: "Obj \<Rightarrow> AdvError + Obj" where
  "AsHashable x = (case x of OList _ \<Rightarrow> Inl (AdvTypeError ''Hashable'') | ODict _ \<Rightarrow> Inl (AdvTypeError ''Hashable'')
     | OStaticDict _ \<Rightarrow> Inl (AdvTypeError ''Hashable'') | _ \<Rightarrow> Inr x)"

text \<open>The value of a number, of whatever type.\<close>

definition real_val :: "Obj \<Rightarrow> int option" where
  "real_val x = (case x of OBool b \<Rightarrow> Some (of_bool b) | OInt _ v \<Rightarrow> Some v | _ \<Rightarrow> None)"

text \<open>\<open>LexicographicalCompareThreeWay\<close>, on the values the elements have as numbers.\<close>

fun lex_compare :: "('a \<Rightarrow> int) \<Rightarrow> 'a list \<Rightarrow> 'a list \<Rightarrow> int" where
  "lex_compare val (x # xs) (y # ys) =
     (if val x < val y then - 1 else if val y < val x then 1 else lex_compare val xs ys)"
| "lex_compare val (x # xs) [] = 1"
| "lex_compare val [] (y # ys) = - 1"
| "lex_compare val [] [] = 0"

text \<open>\<open>operator<\<close> and \<open>operator==\<close> of the hashable objects.\<close>

definition obj_less :: "Obj \<Rightarrow> Obj \<Rightarrow> AdvError + bool" where
  "obj_less x y =
     (case (x, y) of
        (OBytes b, OBytes c) \<Rightarrow> Inr (lex_compare uint b c < 0)
      | (OString s, OString t) \<Rightarrow> Inr (lex_compare sint s t < 0)
      | _ \<Rightarrow>
          (case (real_val x, real_val y) of
             (Some v, Some w) \<Rightarrow> Inr (v < w)
           | _ \<Rightarrow> Inl (UnsupportedOperation ''<'')))"

definition obj_eq :: "Obj \<Rightarrow> Obj \<Rightarrow> bool" where
  "obj_eq x y =
     (case (x, y) of
        (OBytes b, OBytes c) \<Rightarrow> b = c
      | (OString s, OString t) \<Rightarrow> s = t
      | (ONull, ONull) \<Rightarrow> True
      | _ \<Rightarrow> (case (real_val x, real_val y) of (Some v, Some w) \<Rightarrow> v = w | _ \<Rightarrow> False))"

definition HasKey :: "(Obj \<times> Obj) list \<Rightarrow> Obj \<Rightarrow> bool" where
  "HasKey d k \<longleftrightarrow> list_ex (\<lambda>(k', v). obj_eq k' k) d"

fun GetItem :: "(Obj \<times> Obj) list \<Rightarrow> Obj \<Rightarrow> Obj option" where
  "GetItem [] k = None"
| "GetItem ((k', v) # d) k = (if obj_eq k' k then Some v else GetItem d k)"

text \<open>\<open>std::sort\<close> of the entries by key. Keys of a dict are different, so there is one sorted order, whatever the
  algorithm; when two keys have no order, every sorting must come to compare two such keys, and throws.\<close>

fun insert_entry :: "Obj \<times> Obj \<Rightarrow> (Obj \<times> Obj) list \<Rightarrow> AdvError + (Obj \<times> Obj) list" where
  "insert_entry e [] = Inr [e]"
| "insert_entry e (f # fs) =
     bindE (obj_less (fst e) (fst f)) (\<lambda>less.
     if less then Inr (e # f # fs)
     else bindE (insert_entry e fs) (\<lambda>gs. Inr (f # gs)))"

fun sort_entries :: "(Obj \<times> Obj) list \<Rightarrow> AdvError + (Obj \<times> Obj) list" where
  "sort_entries [] = Inr []"
| "sort_entries (e # es) = bindE (sort_entries es) (insert_entry e)"

lemma set_insert_entry: "insert_entry e fs = Inr gs \<Longrightarrow> mset gs = add_mset e (mset fs)"
  by (induction fs arbitrary: gs) (auto simp: bindE_eq_Inr split: if_splits)

lemma mset_sort_entries: "sort_entries es = Inr fs \<Longrightarrow> mset fs = mset es"
  by (induction es arbitrary: fs) (auto simp: bindE_eq_Inr set_insert_entry)

lemma set_sort_entries: "sort_entries es = Inr fs \<Longrightarrow> set fs = set es"
  by (metis mset_sort_entries set_mset_mset)

section \<open>Integers\<close>

fun int_bytes :: "IntType \<Rightarrow> nat" where
  "int_bytes Int8 = 1" | "int_bytes UInt8 = 1"
| "int_bytes Int16 = 2" | "int_bytes UInt16 = 2"
| "int_bytes Int32 = 4" | "int_bytes UInt32 = 4"
| "int_bytes Int64 = 8" | "int_bytes UInt64 = 8"

definition is_signed :: "IntType \<Rightarrow> bool" where
  "is_signed t \<longleftrightarrow> t \<in> {Int8, Int16, Int32, Int64}"

fun width_byte :: "IntType \<Rightarrow> byte" where
  "width_byte Int8 = 0" | "width_byte UInt8 = 0"
| "width_byte Int16 = 1" | "width_byte UInt16 = 1"
| "width_byte Int32 = 2" | "width_byte UInt32 = 2"
| "width_byte Int64 = 3" | "width_byte UInt64 = 3"

text \<open>The bytes of an unsigned integer in the little-endian memory, and back.\<close>

definition FromInt :: "nat \<Rightarrow> nat \<Rightarrow> bytes" where
  "FromInt sz val = map (\<lambda>i. word_of_nat (val div 256 ^ i)) [0..<sz]"

definition ToInt :: "nat \<Rightarrow> bytes \<Rightarrow> AdvError + nat" where
  "ToInt sz src =
     (if length src \<noteq> sz
      then Inl (AdvParseError ''The given raw data size does not match the size of the targeting type'')
      else Inr (foldr (\<lambda>b n. unat b + 256 * n) src 0))"

text \<open>The raw data of an integer and its sign byte. The negation is done in \<open>int\<close> for the narrow types, and in the type
  itself for the wide ones, where it overflows for the smallest value.\<close>

definition BuildIntRawData :: "IntType \<Rightarrow> int \<Rightarrow> AdvError + (bytes \<times> byte)" where
  "BuildIntRawData t val =
     (let sz = int_bytes t in
      if \<not> is_signed t then Inr (FromInt sz (nat val), 0x00)
      else if val \<ge> 0 then Inr (FromInt sz (nat val), 0x10)
      else if sz \<ge> 4 \<and> val = - (2 ^ (8 * sz - 1)) then Inl (AdvUndefined ''signed integer overflow'')
      else Inr (FromInt sz (nat (- 1 * val)), 0x11))"

definition CatIntegerWriter :: "IntType \<Rightarrow> int \<Rightarrow> AdvError + bytes" where
  "CatIntegerWriter t val =
     bindE (BuildIntRawData t val) (\<lambda>(rawData, signByte).
     let specs = SerializeBytes [SerializeCatId CatInteger, width_byte t, signByte];
         rawData = SerializeBytes rawData
     in Inr (SerializeList (specs @ rawData)))"

section \<open>Writers\<close>

definition CatNullWriter :: bytes where
  "CatNullWriter = SerializeList [SerializeCatId CatNull]"

definition CatBooleanWriter :: "bool \<Rightarrow> bytes" where
  "CatBooleanWriter val = SerializeList [if val then SerializeCatId CatTrue else SerializeCatId CatFalse]"

definition CatBytesWriter :: "bytes \<Rightarrow> bytes" where
  "CatBytesWriter inBytes = SerializeList (SerializeCatId CatBytes # SerializeBytes inBytes)"

text \<open>Text is copied through the UTF-8 decoder and encoder.\<close>

definition CatText :: "u8 list \<Rightarrow> AdvError + u8 list" where
  "CatText s =
     (case UtfConvert Utf8ToCodePtOnce CodePtToUtf8Once s [] of
        None \<Rightarrow> Inl AdvLoops
      | Some (Inl e) \<Rightarrow> Inl (AdvUtf e)
      | Some (Inr t) \<Rightarrow> Inr t)"

definition CatStringWriter :: "u8 list \<Rightarrow> AdvError + bytes" where
  "CatStringWriter val =
     bindE (CatText val) (\<lambda>rawData.
     let specs = SerializeBytes [SerializeCatId CatString, 0x00];
         rawData = SerializeBytes rawData
     in Inr (SerializeList (specs @ rawData)))"

definition GenericRealNumWriter :: "Obj \<Rightarrow> AdvError + bytes" where
  "GenericRealNumWriter val =
     (case val of
        OBool b \<Rightarrow> Inr (CatBooleanWriter b)
      | OInt t v \<Rightarrow> CatIntegerWriter t v
      | _ \<Rightarrow> Inl (SerializeTypeError ''GenericRealNumWriter''))"

lemma size_entry:
  assumes "sort_entries d = Inr f" "e \<in> set f"
  shows "size (fst e) < size (ODict d)" "size (snd e) < size (ODict d)"
proof -
  have "e \<in> set d" using assms set_sort_entries by blast
  then have "Suc (size (fst e) + size (snd e)) \<le> size_list (size_prod size size) d"
    by (rule size_list_estimation') (simp add: size_prod_simp)
  then show "size (fst e) < size (ODict d)" "size (snd e) < size (ODict d)" by (simp_all del: size_list_conv_sum_list)
qed

lemma size_item: "x \<in> set xs \<Longrightarrow> size x < size (OList xs)" "x \<in> set xs \<Longrightarrow> size x < size (OStaticDict xs)"
  using size_list_estimation' [of x xs "size x" size] by simp_all

function GenericWriter :: "Obj \<Rightarrow> AdvError + bytes" where
  "GenericWriter (OBytes b) = Inr (CatBytesWriter b)"
| "GenericWriter ONull = Inr CatNullWriter"
| "GenericWriter (OBool b) = GenericRealNumWriter (OBool b)"
| "GenericWriter (OInt t v) = GenericRealNumWriter (OInt t v)"
| "GenericWriter (OString s) = CatStringWriter s"
| "GenericWriter (OList xs) =
     bindE (mapE GenericWriter xs) (\<lambda>items.
     Inr (SerializeList (SerializeCatId CatArray # concat items)))"
| "GenericWriter (ODict d) =
     bindE (sort_entries d) (\<lambda>itVec.
     bindE (mapE (\<lambda>e. bindE (GenericWriter (fst e)) (\<lambda>k. bindE (GenericWriter (snd e)) (\<lambda>v. Inr (k @ v)))) itVec) (\<lambda>items.
     Inr (SerializeList (SerializeCatId CatDict # concat items))))"
| "GenericWriter (OStaticDict xs) =
     bindE (mapE GenericWriter xs) (\<lambda>items.
     Inr (SerializeList (SerializeCatId CatStaticDict # concat items)))"
  by pat_completeness auto

termination
  by (relation "measure size") (auto simp del: Obj.size intro: size_item size_entry)

section \<open>Transforms of a parsed list\<close>

text \<open>\<open>CheckRlpListTypeSizeEq\<close> and \<open>CheckRlpListTypeSizeLe\<close>: the number of items, and that the first \<open>n\<close> are byte strings.\<close>

definition is_bytes :: "Obj \<Rightarrow> bool" where
  "is_bytes x = (case x of OBytes _ \<Rightarrow> True | _ \<Rightarrow> False)"

definition CheckObjCat :: "nat \<Rightarrow> Obj list \<Rightarrow> AdvError + unit" where
  "CheckObjCat n l = guardE (list_all is_bytes (take n l)) (AdvParseError ''item should be type of Bytes'')"

definition CheckRlpListTypeSizeEq :: "nat \<Rightarrow> Obj list \<Rightarrow> AdvError + unit" where
  "CheckRlpListTypeSizeEq n l =
     (if n \<noteq> length l then Inl (AdvParseError ''requires exactly that many items in the RLP list'')
      else CheckObjCat n l)"

definition CheckRlpListTypeSizeLe :: "nat \<Rightarrow> Obj list \<Rightarrow> AdvError + unit" where
  "CheckRlpListTypeSizeLe n l =
     (if n > length l then Inl (AdvParseError ''requires at least that many items in the RLP list'')
      else CheckObjCat n l)"

text \<open>The specs are the first item; their number of bytes and the category they name.\<close>

definition CheckSpecs :: "nat \<Rightarrow> CatId set \<Rightarrow> Obj list \<Rightarrow> AdvError + (bytes \<times> CatId)" where
  "CheckSpecs n cats l =
     bindE (ObjAsBytes (l ! 0)) (\<lambda>specs.
     if length specs \<noteq> n then Inl (AdvParseError ''wrong number of specs bytes'')
     else
       bindE (GetCatIdFromByte (specs ! 0)) (\<lambda>catId.
       if catId \<notin> cats then Inl (AdvParseError ''The given RLP list is not in this CAT'')
       else Inr (specs, catId)))"

definition TransformCatBytes :: "Obj list \<Rightarrow> AdvError + Obj" where
  "TransformCatBytes l =
     bindE (CheckRlpListTypeSizeEq 2 l) (\<lambda>_.
     bindE (CheckSpecs 1 {CatBytes} l) (\<lambda>_.
     bindE (ObjAsBytes (l ! 1)) (\<lambda>rawData. Inr (OBytes rawData))))"

definition TransformCatNull :: "Obj list \<Rightarrow> AdvError + Obj" where
  "TransformCatNull l =
     bindE (CheckRlpListTypeSizeEq 1 l) (\<lambda>_.
     bindE (CheckSpecs 1 {CatNull} l) (\<lambda>_. Inr ONull))"

definition TransformCatBoolean :: "Obj list \<Rightarrow> AdvError + Obj" where
  "TransformCatBoolean l =
     bindE (CheckRlpListTypeSizeEq 1 l) (\<lambda>_.
     bindE (CheckSpecs 1 {CatTrue, CatFalse} l) (\<lambda>(_, catId). Inr (OBool (catId = CatTrue))))"

definition SolveSignedness :: "IntType \<Rightarrow> IntType \<Rightarrow> byte \<Rightarrow> nat \<Rightarrow> AdvError + Obj" where
  "SolveSignedness ut it sigByte val =
     (let range = guardE (\<not> val > 2 ^ (8 * int_bytes it - 1) - 1)
            (AdvParseError ''The integer received exceeds the range of the targeting signed integer'')
      in if sigByte = 0x00 then Inr (OInt ut (int val))
      else if sigByte = 0x10 then bindE range (\<lambda>_. Inr (OInt it (int val)))
      else if sigByte = 0x11 then bindE range (\<lambda>_. Inr (OInt it (- 1 * int val)))
      else Inl (AdvParseError ''Invalid signedness byte''))"

definition TransformCatInteger :: "Obj list \<Rightarrow> AdvError + Obj" where
  "TransformCatInteger l =
     bindE (CheckRlpListTypeSizeEq 2 l) (\<lambda>_.
     bindE (CheckSpecs 3 {CatInteger} l) (\<lambda>(specs, _).
     bindE (ObjAsBytes (l ! 1)) (\<lambda>rawData.
     let widthByte = specs ! 1; sigByte = specs ! 2 in
     if widthByte = 0x00 then bindE (ToInt 1 rawData) (SolveSignedness UInt8 Int8 sigByte)
     else if widthByte = 0x01 then bindE (ToInt 2 rawData) (SolveSignedness UInt16 Int16 sigByte)
     else if widthByte = 0x02 then bindE (ToInt 4 rawData) (SolveSignedness UInt32 Int32 sigByte)
     else if widthByte = 0x03 then bindE (ToInt 8 rawData) (SolveSignedness UInt64 Int64 sigByte)
     else Inl (AdvParseError ''Invalid integer width byte''))))"

text \<open>\<open>SpecificIntConverter\<close>: only one type of integer is accepted.\<close>

definition TransformCatIntegerT :: "IntType \<Rightarrow> Obj list \<Rightarrow> AdvError + Obj" where
  "TransformCatIntegerT t l =
     bindE (TransformCatInteger l) (\<lambda>x.
     case x of OInt t' v \<Rightarrow> if t' = t then Inr x else Inl (AdvParseError ''Expecting another integer type'')
     | _ \<Rightarrow> Inr x)"

definition TransformCatString :: "Obj list \<Rightarrow> AdvError + Obj" where
  "TransformCatString l =
     bindE (CheckRlpListTypeSizeEq 2 l) (\<lambda>_.
     bindE (CheckSpecs 2 {CatString} l) (\<lambda>(specs, _).
     bindE (ObjAsBytes (l ! 1)) (\<lambda>rawData.
     if specs ! 1 = 0x00 then bindE (CatText rawData) (\<lambda>s. Inr (OString s))
     else Inl (AdvParseError ''The given char width value is unknown''))))"

definition TransformCatArray :: "Obj list \<Rightarrow> AdvError + Obj" where
  "TransformCatArray l =
     bindE (CheckRlpListTypeSizeLe 1 l) (\<lambda>_.
     bindE (CheckSpecs 1 {CatArray} l) (\<lambda>_. Inr (OList (tl l))))"

text \<open>\<open>CatDictInsertRest\<close> from the second pair on: the key must be new and not before the previous one.\<close>

fun CatDictInsertRest :: "(Obj \<times> Obj) list \<Rightarrow> Obj \<Rightarrow> Obj list \<Rightarrow> AdvError + (Obj \<times> Obj) list" where
  "CatDictInsertRest d prevKey (keyObj # val # l) =
     bindE (AsHashable keyObj) (\<lambda>keyHashable.
     if HasKey d keyHashable then Inl (AdvParseError ''The given dictionary has duplicated key'')
     else
       bindE (obj_less keyObj prevKey) (\<lambda>less.
       if less then Inl (AdvParseError ''The key in given dictionary is out of order'')
       else CatDictInsertRest (d @ [(keyHashable, val)]) keyObj l))"
| "CatDictInsertRest d prevKey [keyObj] = Inl IndexError"
| "CatDictInsertRest d prevKey [] = Inr d"

definition TransformCatDict :: "Obj list \<Rightarrow> AdvError + Obj" where
  "TransformCatDict l =
     bindE (CheckRlpListTypeSizeLe 1 l) (\<lambda>_.
     bindE (CheckSpecs 1 {CatDict} l) (\<lambda>_.
     let numOfItems = length l - 1 in
     if numOfItems mod 2 \<noteq> 0
     then Inl (AdvParseError ''The number of given items cannot form key-value pairs for a dictionary'')
     else if length l > 2 then
       bindE (AsHashable (l ! 1)) (\<lambda>key.
       bindE (CatDictInsertRest [(key, l ! 2)] (l ! 1) (drop 3 l)) (\<lambda>d. Inr (ODict d)))
     else Inr (ODict [])))"

definition TransformGeneric :: "Obj list \<Rightarrow> AdvError + Obj" where
  "TransformGeneric l =
     bindE (CheckRlpListTypeSizeLe 1 l) (\<lambda>_.
     bindE (ObjAsBytes (l ! 0)) (\<lambda>specs.
     if specs = [] then Inl IndexError
     else
       bindE (GetCatIdFromByte (specs ! 0)) (\<lambda>cid.
       case cid of
         CatBytes \<Rightarrow> TransformCatBytes l
       | CatNull \<Rightarrow> TransformCatNull l
       | CatFalse \<Rightarrow> TransformCatBoolean l
       | CatTrue \<Rightarrow> TransformCatBoolean l
       | CatInteger \<Rightarrow> TransformCatInteger l
       | CatString \<Rightarrow> TransformCatString l
       | CatArray \<Rightarrow> TransformCatArray l
       | CatDict \<Rightarrow> TransformCatDict l
       | _ \<Rightarrow> Inl (AdvParseError ''Unsupported CAT ID value''))))"

section \<open>Parsers\<close>

type_synonym ObjParser = "ism \<Rightarrow> RlpEncodeType \<Rightarrow> byte \<Rightarrow> nat \<Rightarrow> AdvError + (Obj \<times> ism \<times> nat)"

text \<open>The item loop of the composite parsers: byte strings are kept, inner lists go through the generic transform.\<close>

function AdvItems :: "ism \<Rightarrow> nat \<Rightarrow> AdvError + (Obj list \<times> ism)" where
  "AdvItems s left =
     (if left = 0 then Inr ([], s)
      else bindE (lift_rlp (GetByteAndAdv s)) (\<lambda>(nextByte, s).
        let left = left - 1;
            (nextType, nextVal) = DecodeRlpLeadingByte nextByte
        in if nextType \<in> {Byte, BytesShort, BytesLong} then
             bindE (lift_rlp (BytesParser s nextType nextVal left)) (\<lambda>(obj, s, left).
             bindE (AdvItems s left) (\<lambda>(objs, s). Inr (OBytes obj # objs, s)))
           else
             bindE (lift_rlp (ProcRlpListHeader s nextType nextVal left)) (\<lambda>(inner, s, left).
             bindE (lift_rlp (CheckByteLeft left inner)) (\<lambda>left2.
             bindE (AdvItems s inner) (\<lambda>(sub, s).
             bindE (TransformGeneric sub) (\<lambda>x.
             bindE (AdvItems s left2) (\<lambda>(objs, s). Inr (x # objs, s))))))))"
  by pat_completeness auto
termination
  by (relation "measure snd")
    (auto dest!: CheckByteLeft_le ProcRlpListHeader_le BytesParser_le)

declare AdvItems.simps [simp del]

text \<open>The item loop of the primitive parsers, which refuse inner lists.\<close>

function PrimItems :: "ism \<Rightarrow> nat \<Rightarrow> AdvError + (Obj list \<times> ism)" where
  "PrimItems s left =
     (if left = 0 then Inr ([], s)
      else bindE (lift_rlp (GetByteAndAdv s)) (\<lambda>(nextByte, s).
        let left = left - 1;
            (nextType, nextVal) = DecodeRlpLeadingByte nextByte
        in if nextType \<in> {Byte, BytesShort, BytesLong} then
             bindE (lift_rlp (BytesParser s nextType nextVal left)) (\<lambda>(obj, s, left).
             bindE (PrimItems s left) (\<lambda>(objs, s). Inr (OBytes obj # objs, s)))
           else Inl (AdvRlpError (ParseError ''RLP List is not allowed in current context''))))"
  by pat_completeness auto
termination
  by (relation "measure snd") (auto dest!: BytesParser_le)

declare PrimItems.simps [simp del]

definition CompositeParser :: "(Obj list \<Rightarrow> AdvError + Obj) \<Rightarrow> ObjParser" where
  "CompositeParser transform s rlpType rlpVal byteLeft =
     bindE (lift_rlp (ProcRlpListHeader s rlpType rlpVal byteLeft)) (\<lambda>(left, s, byteLeft).
     bindE (lift_rlp (CheckByteLeft byteLeft left)) (\<lambda>byteLeft.
     bindE (AdvItems s left) (\<lambda>(objs, s).
     bindE (transform objs) (\<lambda>x. Inr (x, s, byteLeft)))))"

definition PrimitiveParser :: "(Obj list \<Rightarrow> AdvError + Obj) \<Rightarrow> ObjParser" where
  "PrimitiveParser transform s rlpType rlpVal byteLeft =
     bindE (lift_rlp (ProcRlpListHeader s rlpType rlpVal byteLeft)) (\<lambda>(left, s, byteLeft).
     bindE (lift_rlp (CheckByteLeft byteLeft left)) (\<lambda>byteLeft.
     bindE (PrimItems s left) (\<lambda>(objs, s).
     bindE (transform objs) (\<lambda>x. Inr (x, s, byteLeft)))))"

definition GenericParser :: ObjParser where
  "GenericParser = CompositeParser TransformGeneric"

text \<open>The fields of a static dict, in order; what is left of the list when all have been read.\<close>

fun ProcDictItems :: "bool \<Rightarrow> bool \<Rightarrow> (ObjParser \<times> Obj) list \<Rightarrow> ism \<Rightarrow> nat \<Rightarrow> AdvError + (Obj list \<times> ism)" where
  "ProcDictItems allowMissing allowExtra [] s left =
     (if left = 0 then Inr ([], s)
      else if allowExtra then bindE (lift_rlp (ListItems s left)) (\<lambda>(_, s). Inr ([], s))
      else bindE (lift_rlp (GetByteAndAdv s)) (\<lambda>_.
        Inl (AdvRlpError (ParseError ''The static dict parser encounters more items than expected''))))"
| "ProcDictItems allowMissing allowExtra ((parser, deflt) # fields) s left =
     (if left = 0 then
        (if allowMissing then Inr (deflt # map snd fields, s)
         else Inl (AdvRlpError (ParseError ''The static dict parser is expecting more items to parse'')))
      else bindE (lift_rlp (GetByteAndAdv s)) (\<lambda>(nextByte, s).
        let left = left - 1;
            (nextType, nextVal) = DecodeRlpLeadingByte nextByte
        in bindE (parser s nextType nextVal left) (\<lambda>(x, s, left).
           bindE (ProcDictItems allowMissing allowExtra fields s left) (\<lambda>(xs, s). Inr (x # xs, s)))))"

definition CatStaticDictParser :: "bool \<Rightarrow> bool \<Rightarrow> (ObjParser \<times> Obj) list \<Rightarrow> ObjParser" where
  "CatStaticDictParser allowMissing allowExtra fields s rlpType rlpVal byteLeft =
     bindE (lift_rlp (ProcRlpListHeader s rlpType rlpVal byteLeft)) (\<lambda>(size', s, byteLeft).
     bindE (lift_rlp (CheckByteLeft byteLeft size')) (\<lambda>byteLeft.
     bindE (lift_rlp (CheckByteLeft size' 1)) (\<lambda>size'.
     bindE (lift_rlp (GetByteAndAdv s)) (\<lambda>(b, s).
     let (t, v) = DecodeRlpLeadingByte b in
     bindE (lift_rlp (BytesParser s t v size')) (\<lambda>(specs, s, size').
     if length specs \<noteq> 1 then Inl (AdvParseError ''CAT StaticDict's specs bytes should be exactly 1 byte'')
     else
       bindE (GetCatIdFromByte (specs ! 0)) (\<lambda>catId.
       if catId \<noteq> CatStaticDict then Inl (AdvParseError ''The given RLP list is not in CAT StaticDict'')
       else
         bindE (ProcDictItems allowMissing allowExtra fields s size') (\<lambda>(xs, s). Inr (OStaticDict xs, s, byteLeft))))))))"

text \<open>Parsing a container.\<close>

definition AdvParse :: "ObjParser \<Rightarrow> bytes \<Rightarrow> AdvError + Obj" where
  "AdvParse parser ctn =
     bindE (lift_rlp (CheckByteLeft (length ctn) 1)) (\<lambda>left.
     bindE (lift_rlp (GetByteAndAdv ctn)) (\<lambda>(rlpByte, s).
     let (rlpType, rlpVal) = DecodeRlpLeadingByte rlpByte in
     bindE (parser s rlpType rlpVal left) (\<lambda>(res, s, left).
     if left \<noteq> 0 then Inl (AdvRlpError (ParseError ''Extra data found at the end of input data''))
     else Inr res)))"

section \<open>The parser works on the RLP tree\<close>

fun tr :: "rlp \<Rightarrow> AdvError + Obj" where
  "tr (RBytes b) = Inr (OBytes b)"
| "tr (RList xs) = bindE (mapE tr xs) TransformGeneric"

lemma AdvItems_tr: "ListItems s n = Inr (xs, s') \<Longrightarrow> AdvItems s n = bindE (mapE tr xs) (\<lambda>ys. Inr (ys, s'))"
proof (induction s n arbitrary: xs s' rule: ListItems.induct)
  case (1 s left)
  show ?case
  proof (cases "left = 0")
    case True
    then show ?thesis using 1(4) by (simp add: ListItems.simps [of s] AdvItems.simps [of _ 0])
  next
    case False
    obtain b t where b: "GetByteAndAdv s = Inr (b, t)"
      using 1(4) False by (subst (asm) ListItems.simps) (auto simp: bindE_eq_Inr)
    obtain ty v where ty: "DecodeRlpLeadingByte b = (ty, v)" by fastforce
    show ?thesis
    proof (cases "ty \<in> {Byte, BytesShort, BytesLong}")
      case True
      then obtain ob t1 l1 ys where p: "BytesParser t ty v (left - 1) = Inr (ob, t1, l1)"
        "ListItems t1 l1 = Inr (ys, s')" "xs = RBytes ob # ys"
        using 1(4) False b ty by (subst (asm) ListItems.simps) (auto simp: bindE_eq_Inr)
      note IH = 1(1) [OF False b refl refl refl ty [symmetric] True p(1) refl refl p(2)]
      show ?thesis using IH p True False b ty by (subst AdvItems.simps) (simp add: bindE_assoc)
    next
      case lst: False
      then obtain inner t1 l1 l2 sub t2 ys where p: "ProcRlpListHeader t ty v (left - 1) = Inr (inner, t1, l1)"
        "CheckByteLeft l1 inner = Inr l2" "ListItems t1 inner = Inr (sub, t2)" "ListItems t2 l2 = Inr (ys, s')"
        "xs = RList sub # ys"
        using 1(4) False b ty by (subst (asm) ListItems.simps) (auto simp: bindE_eq_Inr)
      note IH1 = 1(2) [OF False b refl refl refl ty [symmetric] lst p(1) refl refl p(2,3)]
      note IH2 = 1(3) [OF False b refl refl refl ty [symmetric] lst p(1) refl refl p(2,3) refl p(4)]
      show ?thesis using IH1 IH2 p lst False b ty
        by (subst AdvItems.simps) (simp add: bindE_assoc)
    qed
  qed
qed

lemma bindE_right: "bindE m (\<lambda>x. Inr x) = m"
  by (cases m) simp_all

lemma AdvParse_tr:
  assumes "length (Write (RList xs)) < 2 ^ 64"
  shows "AdvParse GenericParser (Write (RList xs)) = tr (RList xs)"
proof -
  obtain b s where w: "Write (RList xs) = b # s" using Write_pos [of "RList xs"] by (cases "Write (RList xs)") auto
  obtain ty v where ty: "DecodeRlpLeadingByte b = (ty, v)" by fastforce
  have "ParserBase_Parse GeneralParser (b # s) True = Inr (RList xs)" using rlp_roundtrip_aux [OF assms] w by simp
  then obtain s' where g: "GeneralParser s ty v (length s) = Inr (RList xs, s', 0)"
    by (auto simp: ParserBase_Parse_def CheckByteLeft_ok ty bindE_eq_Inr split: if_splits)
  then obtain n s1 l1 where p: "ProcRlpListHeader s ty v (length s) = Inr (n, s1, l1)" "CheckByteLeft l1 n = Inr 0"
    "ListItems s1 n = Inr (xs, s')"
    by (auto simp: GeneralParser_def ListParser_def bindE_eq_Inr split: if_splits)
  show ?thesis
    unfolding w using p AdvItems_tr [OF p(3)]
    by (simp add: AdvParse_def CheckByteLeft_ok ty GenericParser_def CompositeParser_def bindE_assoc bindE_right)
qed

section \<open>What is written can be read\<close>

text \<open>The objects a round trip is claimed for: integers within their type, the smallest one of a signed type excepted; keys of
  dicts hashable and different; no static dicts, which the generic parser does not know.\<close>

definition int_ok :: "IntType \<Rightarrow> int \<Rightarrow> bool" where
  "int_ok t v \<longleftrightarrow>
     (if is_signed t then \<bar>v\<bar> < 2 ^ (8 * int_bytes t - 1) else 0 \<le> v \<and> v < 2 ^ (8 * int_bytes t))"

primrec wf_obj :: "Obj \<Rightarrow> bool" where
  "wf_obj (OBytes b) = True"
| "wf_obj ONull = True"
| "wf_obj (OBool b) = True"
| "wf_obj (OInt t v) = int_ok t v"
| "wf_obj (OString s) = True"
| "wf_obj (OList xs) = list_all id (map wf_obj xs)"
| "wf_obj (ODict d) =
     (list_all (\<lambda>(a, b). a \<and> b) (map (map_prod wf_obj wf_obj) d)
      \<and> list_all (\<lambda>e. AsHashable (fst e) = Inr (fst e)) d
      \<and> sorted_wrt (\<lambda>e f. \<not> obj_eq (fst e) (fst f)) d)"
| "wf_obj (OStaticDict xs) = False"

text \<open>The object with the entries of every dict in the order of their keys.\<close>

definition sorted_dict :: "(Obj \<times> Obj) list \<Rightarrow> (Obj \<times> Obj) list" where
  "sorted_dict d = (case sort_entries d of Inl e \<Rightarrow> d | Inr f \<Rightarrow> f)"

primrec canon :: "Obj \<Rightarrow> Obj" where
  "canon (OBytes b) = OBytes b"
| "canon ONull = ONull"
| "canon (OBool b) = OBool b"
| "canon (OInt t v) = OInt t v"
| "canon (OString s) = OString s"
| "canon (OList xs) = OList (map canon xs)"
| "canon (ODict d) = ODict (sorted_dict (map (map_prod canon canon) d))"
| "canon (OStaticDict xs) = OStaticDict (map canon xs)"

lemma mset_sorted_dict: "mset (sorted_dict d) = mset d"
  by (auto simp: sorted_dict_def mset_sort_entries split: sum.splits)

lemma canon_key: "AsHashable k = Inr k \<Longrightarrow> canon k = k"
  by (cases k) (auto simp: AsHashable_def)

lemma mapE_append: "mapE f (xs @ ys) = bindE (mapE f xs) (\<lambda>as. bindE (mapE f ys) (\<lambda>bs. Inr (as @ bs)))"
  by (induction xs) (auto simp: bindE_assoc bindE_right)

subsection \<open>Integers\<close>

lemma foldr_FromInt: "val < 256 ^ n \<Longrightarrow> foldr (\<lambda>b k. unat b + 256 * k) (FromInt n val) 0 = val"
proof (induction n arbitrary: val)
  case (Suc n)
  have "FromInt (Suc n) val = word_of_nat val # FromInt n (val div 256)"
    by (simp add: FromInt_def upt_conv_Cons map_Suc_upt [symmetric] div_mult2_eq del: upt_Suc)
  moreover have "val div 256 < 256 ^ n" using Suc.prems by (simp add: less_mult_imp_div_less mult.commute)
  ultimately show ?case using Suc.IH by (simp add: unat_of_nat)
qed (simp add: FromInt_def)

lemma ToInt_FromInt: "val < 256 ^ n \<Longrightarrow> ToInt n (FromInt n val) = Inr val"
  by (simp add: ToInt_def foldr_FromInt) (simp add: FromInt_def)

fun unsigned_of :: "IntType \<Rightarrow> IntType" where
  "unsigned_of Int8 = UInt8" | "unsigned_of Int16 = UInt16" | "unsigned_of Int32 = UInt32" | "unsigned_of Int64 = UInt64"
| "unsigned_of t = t"

fun signed_of :: "IntType \<Rightarrow> IntType" where
  "signed_of UInt8 = Int8" | "signed_of UInt16 = Int16" | "signed_of UInt32 = Int32" | "signed_of UInt64 = Int64"
| "signed_of t = t"

lemma TransformCatInteger_eq:
  "TransformCatInteger [OBytes [0x04, width_byte t, sb], OBytes raw]
     = bindE (ToInt (int_bytes t) raw) (SolveSignedness (unsigned_of t) (signed_of t) sb)"
  by (cases t) (simp_all add: TransformCatInteger_def CheckRlpListTypeSizeEq_def CheckObjCat_def CheckSpecs_def
      ObjAsBytes_def is_bytes_def GetCatIdFromByte_def)

lemma signed_of_self: "is_signed t \<Longrightarrow> signed_of t = t" "\<not> is_signed t \<Longrightarrow> unsigned_of t = t"
  "int_bytes (signed_of t) = int_bytes t"
  by (cases t; simp add: is_signed_def)+

lemma int_bytes_pos: "0 < int_bytes t"
  by (cases t) simp_all

lemma int_read_back:
  assumes ok: "int_ok t v" and raw: "BuildIntRawData t v = Inr (raw, sb)"
  shows "TransformCatInteger [OBytes [0x04, width_byte t, sb], OBytes raw] = Inr (OInt t v)"
proof -
  let ?n = "int_bytes t"
  have pow: "(256 :: nat) ^ ?n = 2 ^ (8 * ?n)" "(2 :: nat) ^ (8 * ?n) = 2 * 2 ^ (8 * ?n - 1)"
    using int_bytes_pos [of t] by (simp_all add: power_mult flip: power_Suc)
  consider (u) "\<not> is_signed t" "nat v < 2 ^ (8 * ?n)" "0 \<le> v" | (p) "is_signed t" "0 \<le> v" "nat v < 2 ^ (8 * ?n - 1)"
    | (n) "is_signed t" "v < 0" "nat (- v) < 2 ^ (8 * ?n - 1)"
    using ok by (cases "is_signed t"; cases "0 \<le> v") (auto simp: int_ok_def nat_less_iff)
  then show ?thesis
  proof cases
    case u
    then have "raw = FromInt ?n (nat v)" "sb = 0" using raw by (auto simp: BuildIntRawData_def Let_def)
    moreover have "nat v < 256 ^ ?n" using u(2) unfolding pow(1) by simp
    ultimately show ?thesis using u by (simp add: TransformCatInteger_eq ToInt_FromInt SolveSignedness_def signed_of_self)
  next
    case p
    then have "raw = FromInt ?n (nat v)" "sb = 0x10" using raw by (auto simp: BuildIntRawData_def Let_def)
    moreover have "nat v < 256 ^ ?n" "nat v \<le> 2 ^ (8 * ?n - 1) - 1" using p(3) unfolding pow by linarith+
    ultimately show ?thesis using p
      by (simp add: TransformCatInteger_eq ToInt_FromInt SolveSignedness_def signed_of_self not_less) 
  next
    case n
    then have "raw = FromInt ?n (nat (- v))" "sb = 0x11" using raw by (auto simp: BuildIntRawData_def Let_def split: if_splits)
    moreover have "nat (- v) < 256 ^ ?n" "nat (- v) \<le> 2 ^ (8 * ?n - 1) - 1" using n(3) unfolding pow by linarith+
    ultimately show ?thesis using n
      by (simp add: TransformCatInteger_eq ToInt_FromInt SolveSignedness_def signed_of_self not_less)
  qed
qed

subsection \<open>Text\<close>

interpretation c8_8: utf_conversion Utf8ToCodePtOnce utf8 CodePtToUtf8Once CodePtToUtf8OnceGetSize utf8
  by unfold_locales (simp_all add: utf_laws)

lemma CatText_returns: "CatText s \<noteq> Inl AdvLoops"
  using c8_8.convert_returns [of s "[]"] by (auto simp: CatText_def split: sum.splits)

lemma CatText_Inr: "CatText s = Inr t \<longleftrightarrow> t = s \<and> (\<exists>cs. list_all IsValidCodePt cs \<and> s = concat (map utf8 cs))"
  using c8_8.convert_Inr [of s "[]"] by (auto simp: CatText_def split: option.splits sum.splits)

subsection \<open>Dicts\<close>

lemma lex_compare_sym: "lex_compare val x y = - lex_compare val y x"
  by (induction val x y rule: lex_compare.induct) auto

lemma lex_compare_asym: "lex_compare val x y < 0 \<Longrightarrow> \<not> lex_compare val y x < 0"
  using lex_compare_sym [of val x y] by linarith

lemma obj_less_asym: "obj_less x y = Inr True \<Longrightarrow> obj_less y x = Inr False"
  by (cases x; cases y) (auto simp: obj_less_def real_val_def lex_compare_asym)

lemma obj_eq_sym: "obj_eq x y = obj_eq y x"
  by (cases x; cases y) (auto simp: obj_eq_def real_val_def)

text \<open>No entry of a sorted list comes before its predecessor, and each still differs from all others.\<close>

definition in_order :: "(Obj \<times> Obj) list \<Rightarrow> bool" where
  "in_order fs \<longleftrightarrow> (\<forall>i. Suc i < length fs \<longrightarrow> obj_less (fst (fs ! Suc i)) (fst (fs ! i)) = Inr False)"

lemma in_order_Cons: "in_order (e # f # fs) \<longleftrightarrow> obj_less (fst f) (fst e) = Inr False \<and> in_order (f # fs)"
  unfolding in_order_def by (auto simp: nth_Cons split: nat.splits) 

lemma in_order_short [simp]: "in_order []" "in_order [e]"
  by (simp_all add: in_order_def)

lemma insert_in_order:
  "insert_entry e fs = Inr gs \<Longrightarrow> in_order fs \<Longrightarrow> in_order gs \<and> (hd gs = e \<or> fs \<noteq> [] \<and> hd gs = hd fs) \<and> gs \<noteq> []"
proof (induction fs arbitrary: gs)
  case (Cons f fs)
  then obtain less where l: "obj_less (fst e) (fst f) = Inr less" by (auto simp: bindE_eq_Inr)
  show ?case
  proof (cases less)
    case True
    then show ?thesis using Cons.prems l obj_less_asym by (auto simp: in_order_Cons)
  next
    case False
    then obtain hs where hs: "insert_entry e fs = Inr hs" "gs = f # hs" using Cons.prems l by (auto simp: bindE_eq_Inr)
    have "in_order fs" using Cons.prems(2) by (cases fs) (simp_all add: in_order_Cons)
    from Cons.IH [OF hs(1) this] obtain h hs' where h: "hs = h # hs'" "in_order hs" "h = e \<or> fs \<noteq> [] \<and> h = hd fs"
      by (cases hs) auto
    have "obj_less (fst h) (fst f) = Inr False"
      using h(3) l False Cons.prems(2) by (cases fs) (auto simp: in_order_Cons)
    then show ?thesis using hs(2) h(1,2) by (simp add: in_order_Cons)
  qed
qed simp

lemma sort_in_order: "sort_entries es = Inr fs \<Longrightarrow> in_order fs"
  by (induction es arbitrary: fs) (auto simp: bindE_eq_Inr dest: insert_in_order)

abbreviation different :: "(Obj \<times> Obj) list \<Rightarrow> bool" where
  "different \<equiv> sorted_wrt (\<lambda>e f. \<not> obj_eq (fst e) (fst f))"

lemma insert_different:
  "insert_entry e fs = Inr gs \<Longrightarrow> different (e # fs) \<Longrightarrow> different gs"
proof (induction fs arbitrary: gs)
  case (Cons f fs)
  then obtain less where l: "obj_less (fst e) (fst f) = Inr less" by (auto simp: bindE_eq_Inr)
  show ?case
  proof (cases less)
    case False
    then obtain hs where hs: "insert_entry e fs = Inr hs" "gs = f # hs" using Cons.prems l by (auto simp: bindE_eq_Inr)
    have "set hs = insert e (set fs)" using set_insert_entry [OF hs(1)] by (metis set_mset_add_mset_insert set_mset_mset)
    then show ?thesis using Cons hs obj_eq_sym by auto
  qed (use Cons.prems l in auto)
qed simp

lemma sort_different: "sort_entries es = Inr fs \<Longrightarrow> different es \<Longrightarrow> different fs"
proof (induction es arbitrary: fs)
  case (Cons e es)
  then obtain gs where gs: "sort_entries es = Inr gs" "insert_entry e gs = Inr fs" by (auto simp: bindE_eq_Inr)
  have "different (e # gs)" using Cons gs set_sort_entries [OF gs(1)] by auto
  then show ?case using insert_different gs(2) by blast
qed simp

text \<open>Sorting looks at the keys only.\<close>

lemma insert_map:
  "insert_entry (fst e, f (snd e)) (map (\<lambda>e. (fst e, f (snd e))) fs)
     = bindE (insert_entry e fs) (\<lambda>gs. Inr (map (\<lambda>e. (fst e, f (snd e))) gs))"
  by (induction fs) (auto simp: bindE_def split: sum.splits)

lemma sort_map:
  "sort_entries (map (\<lambda>e. (fst e, f (snd e))) es)
     = bindE (sort_entries es) (\<lambda>gs. Inr (map (\<lambda>e. (fst e, f (snd e))) gs))"
  by (induction es) (simp_all add: bindE_assoc insert_map)

text \<open>The items of a dict, and what the parser makes of them.\<close>

definition flat :: "('a \<times> 'a) list \<Rightarrow> 'a list" where
  "flat d = concat (map (\<lambda>e. [fst e, snd e]) d)"

lemma flat_simps [simp]: "flat [] = []" "flat (e # d) = fst e # snd e # flat d"
  by (simp_all add: flat_def)

lemma length_flat: "length (flat d) = 2 * length d"
  by (induction d) simp_all

lemma insert_rest_flat:
  assumes "in_order (p # fs)" "different (d @ fs)" "list_all (\<lambda>e. AsHashable (fst e) = Inr (fst e)) fs"
  shows "CatDictInsertRest d (fst p) (flat fs) = Inr (d @ fs)"
  using assms
proof (induction fs arbitrary: d p)
  case (Cons f fs)
  have "\<not> HasKey d (fst f)" using Cons.prems(2) by (auto simp: HasKey_def list_ex_iff sorted_wrt_append)
  moreover have "CatDictInsertRest (d @ [f]) (fst f) (flat fs) = Inr ((d @ [f]) @ fs)"
    using Cons.prems by (intro Cons.IH) (auto simp: in_order_Cons)
  ultimately show ?case using Cons.prems(1,3) by (simp add: in_order_Cons)
qed simp

lemma TransformCatDict_flat:
  assumes "in_order fs" "different fs" "list_all (\<lambda>e. AsHashable (fst e) = Inr (fst e)) fs"
  shows "TransformGeneric (OBytes [SerializeCatId CatDict] # flat fs) = Inr (ODict fs)"
proof -
  have g: "TransformGeneric (OBytes [SerializeCatId CatDict] # flat fs) = TransformCatDict (OBytes [SerializeCatId CatDict] # flat fs)"
    by (simp add: TransformGeneric_def CheckRlpListTypeSizeLe_def CheckObjCat_def ObjAsBytes_def is_bytes_def GetCatIdFromByte_def)
  show ?thesis
  proof (cases fs)
    case Nil
    then show ?thesis unfolding g
      by (simp add: TransformCatDict_def CheckRlpListTypeSizeLe_def CheckObjCat_def CheckSpecs_def ObjAsBytes_def is_bytes_def GetCatIdFromByte_def)
  next
    case (Cons f gs)
    then have "CatDictInsertRest [f] (fst f) (flat gs) = Inr fs" using insert_rest_flat [of f gs "[f]"] assms by simp
    then show ?thesis unfolding g using assms(3) Cons
      by (simp add: TransformCatDict_def CheckRlpListTypeSizeLe_def CheckObjCat_def CheckSpecs_def ObjAsBytes_def is_bytes_def
          GetCatIdFromByte_def length_flat)
  qed
qed

lemma TransformCatArray_items:
  "TransformGeneric (OBytes [SerializeCatId CatArray] # xs) = Inr (OList xs)"
  by (simp add: TransformGeneric_def TransformCatArray_def CheckRlpListTypeSizeLe_def CheckObjCat_def CheckSpecs_def ObjAsBytes_def is_bytes_def
      GetCatIdFromByte_def)

lemma scalar_transforms:
  "TransformGeneric [OBytes [SerializeCatId CatBytes], OBytes b] = Inr (OBytes b)"
  "TransformGeneric [OBytes [SerializeCatId CatNull]] = Inr ONull"
  "TransformGeneric [OBytes [SerializeCatId (if v then CatTrue else CatFalse)]] = Inr (OBool v)"
  "TransformGeneric [OBytes [SerializeCatId CatInteger, w, sb], OBytes b] = TransformCatInteger [OBytes [SerializeCatId CatInteger, w, sb], OBytes b]"
  "TransformGeneric [OBytes [SerializeCatId CatString, 0], OBytes b] = bindE (CatText b) (\<lambda>s. Inr (OString s))"
  by (simp_all add: TransformGeneric_def TransformCatBytes_def TransformCatNull_def TransformCatBoolean_def TransformCatString_def
      CheckRlpListTypeSizeLe_def CheckRlpListTypeSizeEq_def CheckObjCat_def CheckSpecs_def ObjAsBytes_def is_bytes_def GetCatIdFromByte_def)

subsection \<open>Every object\<close>

definition reads :: "bytes \<Rightarrow> Obj \<Rightarrow> bool" where
  "reads bs y \<longleftrightarrow> (\<exists>ts. bs = Write (RList ts) \<and> tr (RList ts) = Inr y)"

lemma spec_byte: "SerializeBytes [SerializeCatId c] = [SerializeCatId c]"
  by (cases c) (simp_all add: SerializeBytes_def)

lemma reads_list:
  assumes "bs = SerializeList (SerializeCatId c # concat (map Write ts))" "mapE tr ts = Inr ys"
    "TransformGeneric (OBytes [SerializeCatId c] # ys) = Inr y"
  shows "reads bs y"
  unfolding reads_def
  by (rule exI [of _ "RBytes [SerializeCatId c] # ts"]) (use assms in \<open>simp add: spec_byte\<close>)

lemma reads_pair:
  assumes "bs = SerializeList (SerializeBytes b @ SerializeBytes b')" "TransformGeneric [OBytes b, OBytes b'] = Inr y"
  shows "reads bs y"
  unfolding reads_def by (rule exI [of _ "[RBytes b, RBytes b']"]) (use assms in simp)

lemma items_read:
  assumes "mapE GenericWriter xs = Inr items" "\<And>x bs. x \<in> set xs \<Longrightarrow> GenericWriter x = Inr bs \<Longrightarrow> reads bs (canon x)"
  shows "\<exists>ts. concat items = concat (map Write ts) \<and> mapE tr ts = Inr (map canon xs)"
  using assms
proof (induction xs arbitrary: items)
  case Nil
  then show ?case by (intro exI [of _ "[]"]) simp
next
  case (Cons x xs)
  then obtain b bs where b: "GenericWriter x = Inr b" "mapE GenericWriter xs = Inr bs" "items = b # bs"
    by (auto simp: bindE_eq_Inr)
  obtain us where us: "b = Write (RList us)" "tr (RList us) = Inr (canon x)"
    using Cons.prems(2) [OF _ b(1)] by (auto simp: reads_def)
  obtain ts where "concat bs = concat (map Write ts)" "mapE tr ts = Inr (map canon xs)"
    using Cons.IH [OF b(2)] Cons.prems(2) by auto
  then show ?case using b us by (intro exI [of _ "RList us # ts"]) simp
qed

lemma entries_flat:
  "mapE (\<lambda>e. bindE (GenericWriter (fst e)) (\<lambda>k. bindE (GenericWriter (snd e)) (\<lambda>v. Inr (k @ v)))) d = Inr items
   \<Longrightarrow> \<exists>items'. mapE GenericWriter (flat d) = Inr items' \<and> concat items' = concat items"
proof (induction d arbitrary: items)
  case (Cons e d)
  then obtain k v bs where "GenericWriter (fst e) = Inr k" "GenericWriter (snd e) = Inr v" "items = (k @ v) # bs"
    "mapE (\<lambda>e. bindE (GenericWriter (fst e)) (\<lambda>k. bindE (GenericWriter (snd e)) (\<lambda>v. Inr (k @ v)))) d = Inr bs"
    by (auto simp: bindE_eq_Inr)
  then show ?case using Cons.IH by fastforce
qed simp

lemma entries_written:
  "mapE (\<lambda>e. bindE (GenericWriter (fst e)) (\<lambda>k. bindE (GenericWriter (snd e)) (\<lambda>v. Inr (k @ v)))) d = Inr items
   \<Longrightarrow> e \<in> set d \<Longrightarrow> \<exists>k. GenericWriter (fst e) = Inr k"
  by (induction d arbitrary: items) (auto simp: bindE_eq_Inr)

lemma in_order_map: "in_order (map (\<lambda>e. (fst e, f (snd e))) fs) \<longleftrightarrow> in_order fs"
  by (simp add: in_order_def)

lemma different_map: "different (map (\<lambda>e. (fst e, f (snd e))) fs) \<longleftrightarrow> different fs"
  by (simp add: sorted_wrt_map)

lemma written_is_read: "GenericWriter x = Inr bs \<Longrightarrow> wf_obj x \<Longrightarrow> reads bs (canon x)"
proof (induction x arbitrary: bs rule: GenericWriter.induct)
  case (1 b)
  have "bs = SerializeList (SerializeCatId CatBytes # concat (map Write [RBytes b]))"
    using 1 by (simp add: CatBytesWriter_def)
  then show ?case by (rule reads_list [where ys = "[OBytes b]"]) (simp_all only: mapE.simps tr.simps bindE_Inr canon.simps scalar_transforms)
next
  case 2
  then have "bs = SerializeList (SerializeCatId CatNull # concat (map Write []))" by (simp add: CatNullWriter_def)
  then show ?case by (rule reads_list [where ys = "[]"]) (simp_all only: mapE.simps tr.simps bindE_Inr canon.simps scalar_transforms)
next
  case (3 b)
  then have "bs = SerializeList (SerializeCatId (if b then CatTrue else CatFalse) # concat (map Write []))"
    by (auto simp: GenericRealNumWriter_def CatBooleanWriter_def)
  then show ?case by (rule reads_list [where ys = "[]"]) (simp_all only: mapE.simps tr.simps bindE_Inr canon.simps scalar_transforms)
next
  case (4 t v)
  then obtain raw sb where "BuildIntRawData t v = Inr (raw, sb)"
    "bs = SerializeList (SerializeBytes [SerializeCatId CatInteger, width_byte t, sb] @ SerializeBytes raw)"
    by (auto simp: GenericRealNumWriter_def CatIntegerWriter_def bindE_eq_Inr Let_def)
  moreover have "TransformGeneric [OBytes [SerializeCatId CatInteger, width_byte t, sb], OBytes raw] = Inr (OInt t v)"
    using int_read_back [of t v raw sb] 4 calculation(1) by (simp only: scalar_transforms) simp
  ultimately show ?case by (intro reads_pair) simp_all
next
  case (5 s)
  then obtain t where "CatText s = Inr t" "bs = SerializeList (SerializeBytes [SerializeCatId CatString, 0] @ SerializeBytes t)"
    by (auto simp: CatStringWriter_def bindE_eq_Inr)
  moreover have "t = s" using calculation(1) by (simp add: CatText_Inr)
  moreover have "TransformGeneric [OBytes [SerializeCatId CatString, 0], OBytes s] = Inr (OString s)"
    using calculation(1,3) by (simp only: scalar_transforms bindE_Inr)
  ultimately show ?case by (intro reads_pair) simp_all
next
  case (6 xs)
  then obtain items where i: "mapE GenericWriter xs = Inr items" "bs = SerializeList (SerializeCatId CatArray # concat items)"
    by (auto simp: bindE_eq_Inr)
  obtain ts where "concat items = concat (map Write ts)" "mapE tr ts = Inr (map canon xs)"
    using items_read [OF i(1)] 6 by (auto simp: list_all_iff)
  then show ?case using i(2) TransformCatArray_items by (intro reads_list [where c = CatArray and ts = ts and ys = "map canon xs"]) simp_all
next
  case (7 d)
  then obtain fs items where f: "sort_entries d = Inr fs" "bs = SerializeList (SerializeCatId CatDict # concat items)"
    "mapE (\<lambda>e. bindE (GenericWriter (fst e)) (\<lambda>k. bindE (GenericWriter (snd e)) (\<lambda>v. Inr (k @ v)))) fs = Inr items"
    by (auto simp: bindE_eq_Inr)
  obtain items' where i: "mapE GenericWriter (flat fs) = Inr items'" "concat items' = concat items"
    using entries_flat [OF f(3)] by blast
  have key: "canon (fst e) = fst e" "AsHashable (fst e) = Inr (fst e)" if "e \<in> set d" for e
    using 7(4) that by (auto simp: list_all_iff canon_key)
  have set: "set fs = set d" using f(1) by (rule set_sort_entries)
  have "reads b (canon x)" if x: "x \<in> set (flat fs)" "GenericWriter x = Inr b" for x b
  proof -
    obtain e where e: "e \<in> set fs" "x = fst e \<or> x = snd e" using x(1) by (auto simp: flat_def)
    then have "wf_obj (fst e)" "wf_obj (snd e)" using 7(4) set by (auto simp: list_all_iff case_prod_beta)
    moreover obtain k where "GenericWriter (fst e) = Inr k" using entries_written [OF f(3) e(1)] by blast
    ultimately show ?thesis using 7(1) [OF f(1) e(1)] 7(2) [OF f(1) e(1)] e(2) x(2) by auto
  qed
  then obtain ts where ts: "concat items' = concat (map Write ts)" "mapE tr ts = Inr (map canon (flat fs))"
    using items_read [OF i(1)] by blast
  let ?c = "map (\<lambda>e. (fst e, canon (snd e)))"
  have "map canon (flat fs) = flat (?c fs)" using key(1) unfolding set [symmetric] by (induction fs) auto
  moreover have "canon (ODict d) = ODict (?c fs)"
  proof -
    have m: "map (map_prod canon canon) d = ?c d" using key(1) by (auto simp: map_prod_def split: prod.splits)
    show ?thesis unfolding canon.simps m sorted_dict_def sort_map f(1) by simp
  qed
  moreover have "TransformGeneric (OBytes [SerializeCatId CatDict] # flat (?c fs)) = Inr (ODict (?c fs))"
    using 7(4) f(1) key(2) set
    by (intro TransformCatDict_flat) (auto simp: in_order_map different_map sort_in_order sort_different list_all_iff)
  ultimately show ?case using f(2) i(2) ts
    by (intro reads_list [where c = CatDict and ts = ts and ys = "flat (?c fs)"]) (simp_all only:)
qed simp

lemma written_roundtrip:
  assumes "GenericWriter x = Inr bs" "wf_obj x" "length bs < 2 ^ 64"
  shows "AdvParse GenericParser bs = Inr (canon x)"
  using written_is_read [OF assms(1,2)] assms(3) AdvParse_tr unfolding reads_def by force

section \<open>Typed parsers\<close>

text \<open>A parser that takes exactly the bytes \<open>bs\<close> off the front of any input, and returns \<open>y\<close> for them.\<close>

definition takes :: "ObjParser \<Rightarrow> bytes \<Rightarrow> Obj \<Rightarrow> bool" where
  "takes parser bs y \<longleftrightarrow>
     (\<forall>rest left. length bs \<le> left \<longrightarrow>
        (\<exists>b s. bs = b # s \<and> (case DecodeRlpLeadingByte b of (t, v) \<Rightarrow>
           parser (s @ rest) t v (left - 1) = Inr (y, rest, left - length bs))))"

lemma takes_parse: "takes parser bs y \<Longrightarrow> AdvParse parser bs = Inr y"
  unfolding takes_def
  by (drule spec [of _ "[]"], drule spec [of _ "length bs"]) (auto simp: AdvParse_def CheckByteLeft_ok)

text \<open>The header of a written list, read back.\<close>

lemma list_header:
  assumes n: "length c < 2 ^ 64" and l: "length (SerializeList c) \<le> left"
  obtains b s t v l' where "SerializeList c = b # s" "DecodeRlpLeadingByte b = (t, v)"
    "ProcRlpListHeader (s @ rest) t v (left - 1) = Inr (length c, c @ rest, l')"
    "CheckByteLeft l' (length c) = Inr (left - length (SerializeList c))"
proof (cases "length c \<le> 55")
  case True
  then have s: "SerializeList c = of_nat (0xC0 + length c) # c"
    unfolding SerializeList_def GenLeadingBytes_List_def by (simp only: if_True append_Cons append_Nil)
  have "unat (of_nat (length c) :: byte) = length c" using True by (intro unat_of_nat_byte) simp
  then show ?thesis
    using l True unfolding s
    by (intro that [OF s decode_lead(4)], use l in \<open>auto simp: s ProcRlpListHeader_def CheckByteLeft_def\<close>)
next
  case False
  then have long: "55 < length c" by simp
  let ?w = "EncodedWidth (of_nat (length c))"
  let ?e = "EncodePrimitiveIntValue (of_nat (length c))"
  have w: "0 < ?w" "?w \<le> 8" using lead_length [OF n long] by auto
  have s: "SerializeList c = of_nat (0xF7 + ?w) # (?e @ c)"
    using long by (simp add: SerializeList_def GenLeadingBytes_List_def Let_def)
  have u: "unat (of_nat ?w :: byte) = ?w" using w(2) by (intro unat_of_nat_byte) simp
  show ?thesis
    using l size_back [OF n] unfolding s
    by (intro that [OF s decode_lead(5) [OF w]])
      (auto simp add: ProcRlpListHeader_def CheckByteLeft_def u ParseSize_back [OF n] s)
qed

text \<open>A list of byte strings goes through a primitive parser.\<close>

lemma PrimItems_bytes: "ListItems s n = Inr (map RBytes bs, s') \<Longrightarrow> PrimItems s n = Inr (map OBytes bs, s')"
proof (induction bs arbitrary: s n)
  case Nil
  then have "n = 0"
    by (cases "n = 0") (auto simp: ListItems_next bindE_eq_Inr)
  then show ?case using Nil by (simp add: ListItems.simps [of _ 0] PrimItems.simps [of _ 0])
next
  case (Cons b bs)
  then have n: "n \<noteq> 0" by (cases "n = 0") (auto simp: ListItems.simps [of _ 0])
  obtain c t where c: "GetByteAndAdv s = Inr (c, t)"
    using Cons.prems [unfolded ListItems.simps [of s n]] n by (auto simp: bindE_eq_Inr)
  obtain ty v where ty: "DecodeRlpLeadingByte c = (ty, v)" by fastforce
  obtain t1 l1 where p: "ty \<in> {Byte, BytesShort, BytesLong}" "BytesParser t ty v (n - 1) = Inr (b, t1, l1)"
    "ListItems t1 l1 = Inr (map RBytes bs, s')"
    using Cons.prems [unfolded ListItems.simps [of s n]] n c ty
    by (auto simp: bindE_eq_Inr Let_def split: if_splits)
  show ?case using Cons.IH [OF p(3)] n c ty p by (subst PrimItems.simps) simp
qed

lemma ListItems_Write:
  assumes "length (concat (map Write ts)) < 2 ^ 64"
  shows "ListItems (concat (map Write ts) @ rest) (length (concat (map Write ts))) = Inr (ts, rest)"
proof (rule ListItems_concat)
  fix x rest and left :: nat
  assume x: "x \<in> set ts" "length (Write x) \<le> left"
  then have "length (Write x) \<le> length (concat (map Write ts))"
    by (simp add: length_concat member_le_sum_list)
  then show "parse_next (Write x @ rest) left = Inr (x, rest, left - length (Write x))"
    using assms x(2) by (intro parse_next_Write) linarith+
qed

lemma takes_primitive:
  assumes "bs = SerializeList (concat (map SerializeBytes cs))" "length bs < 2 ^ 64" "transform (map OBytes cs) = Inr y"
  shows "takes (PrimitiveParser transform) bs y"
  unfolding takes_def
proof (intro allI impI)
  fix rest left
  let ?c = "concat (map SerializeBytes cs)"
  assume left: "length bs \<le> (left :: nat)"
  have c: "concat (map Write (map RBytes cs)) = ?c" by (simp add: comp_def)
  have n: "length ?c < 2 ^ 64" using assms(2) length_Serialize(1) [of ?c] unfolding assms(1) by linarith
  obtain b s t v l' where h: "SerializeList ?c = b # s" "DecodeRlpLeadingByte b = (t, v)"
    "ProcRlpListHeader (s @ rest) t v (left - 1) = Inr (length ?c, ?c @ rest, l')"
    "CheckByteLeft l' (length ?c) = Inr (left - length (SerializeList ?c))"
    using list_header [OF n] left assms(1) by metis
  have "PrimItems (?c @ rest) (length ?c) = Inr (map OBytes cs, rest)"
    using ListItems_Write [of "map RBytes cs" rest] n unfolding c by (intro PrimItems_bytes) simp
  then show "\<exists>b s. bs = b # s \<and> (case DecodeRlpLeadingByte b of (t, v) \<Rightarrow>
      PrimitiveParser transform (s @ rest) t v (left - 1) = Inr (y, rest, left - length bs))"
    using h assms(1,3) by (simp add: PrimitiveParser_def)
qed

text \<open>The fields of a static dict, each taken by its parser.\<close>

lemma takes_fields:
  assumes "list_all2 (\<lambda>f (bs, y). takes (fst f) bs y) fields items"
  shows "ProcDictItems am ae fields (concat (map fst items) @ rest) (length (concat (map fst items))) = Inr (map snd items, rest)"
  using assms
proof (induction fields items rule: list_all2_induct)
  case (Cons f fields i items)
  obtain p d bs y where fi: "f = (p, d)" "i = (bs, y)" by (cases f, cases i)
  let ?c = "concat (map fst items)"
  have "takes p bs y" using Cons.hyps(1) fi by simp
  then have "\<exists>b s. bs = b # s \<and> (case DecodeRlpLeadingByte b of (t, v) \<Rightarrow>
      p (s @ ?c @ rest) t v (length (bs @ ?c) - 1) = Inr (y, ?c @ rest, length (bs @ ?c) - length bs))"
    unfolding takes_def by (elim allE [of _ "?c @ rest"] allE [of _ "length (bs @ ?c)"]) simp
  then obtain b s where "bs = b # s" "case DecodeRlpLeadingByte b of (t, v) \<Rightarrow>
      p (s @ ?c @ rest) t v (length (bs @ ?c) - 1) = Inr (y, ?c @ rest, length ?c)"
    by auto
  then show ?case using Cons.IH fi by (auto split: prod.splits)
qed simp

lemma takes_static_dict:
  assumes "bs = SerializeList (SerializeCatId CatStaticDict # concat (map fst items))" "length bs < 2 ^ 64"
    "list_all2 (\<lambda>f (bs, y). takes (fst f) bs y) fields items"
  shows "takes (CatStaticDictParser am ae fields) bs (OStaticDict (map snd items))"
  unfolding takes_def
proof (intro allI impI)
  fix rest left
  let ?i = "concat (map fst items)" and ?c = "SerializeCatId CatStaticDict # concat (map fst items)"
  assume left: "length bs \<le> (left :: nat)"
  have n: "length ?c < 2 ^ 64" using assms(2) length_Serialize(1) [of ?c] unfolding assms(1) by linarith
  obtain b s t v l' where h: "SerializeList ?c = b # s" "DecodeRlpLeadingByte b = (t, v)"
    "ProcRlpListHeader (s @ rest) t v (left - 1) = Inr (length ?c, ?c @ rest, l')"
    "CheckByteLeft l' (length ?c) = Inr (left - length (SerializeList ?c))"
    using list_header [OF n] left assms(1) by metis
  have "DecodeRlpLeadingByte (SerializeCatId CatStaticDict) = (Byte, SerializeCatId CatStaticDict)"
    by (simp add: DecodeRlpLeadingByte_def)
  then show "\<exists>b s. bs = b # s \<and> (case DecodeRlpLeadingByte b of (t, v) \<Rightarrow>
      CatStaticDictParser am ae fields (s @ rest) t v (left - 1) = Inr (OStaticDict (map snd items), rest, left - length bs))"
    using h assms(1) takes_fields [OF assms(3), of am ae rest]
    by (simp add: CatStaticDictParser_def BytesParser_def GetCatIdFromByte_def CheckByteLeft_ok)
qed

section \<open>What is read\<close>

text \<open>Every dict the parser returns, at any depth: hashable keys, all different, none before its predecessor.\<close>

primrec dicts_ok :: "Obj \<Rightarrow> bool" where
  "dicts_ok (OBytes b) = True"
| "dicts_ok ONull = True"
| "dicts_ok (OBool b) = True"
| "dicts_ok (OInt t v) = True"
| "dicts_ok (OString s) = True"
| "dicts_ok (OList xs) = list_all id (map dicts_ok xs)"
| "dicts_ok (ODict d) =
     (list_all (\<lambda>(a, b). a \<and> b) (map (map_prod dicts_ok dicts_ok) d)
      \<and> list_all (\<lambda>e. AsHashable (fst e) = Inr (fst e)) d \<and> different d \<and> in_order d)"
| "dicts_ok (OStaticDict xs) = list_all id (map dicts_ok xs)"

lemma AsHashable_Inr: "AsHashable k = Inr k' \<Longrightarrow> k' = k"
  by (cases k) (auto simp: AsHashable_def)

lemma in_order_snoc: "in_order (d @ [e, f]) \<longleftrightarrow> in_order (d @ [e]) \<and> obj_less (fst f) (fst e) = Inr False"
proof (induction d)
  case (Cons a d)
  then show ?case by (cases d) (auto simp: in_order_Cons)
qed (simp add: in_order_Cons)

lemma CatDictInsertRest_ok:
  assumes "CatDictInsertRest (d @ [(k, v)]) k l = Inr d'" "dicts_ok (ODict (d @ [(k, v)]))" "list_all dicts_ok l"
  shows "dicts_ok (ODict d')"
  using assms
proof (induction "d @ [(k, v)]" k l arbitrary: d v rule: CatDictInsertRest.induct)
  case (1 k q w l)
  obtain less where p: "AsHashable q = Inr q" "\<not> HasKey (d @ [(k, v)]) q" "obj_less q k = Inr less" "\<not> less"
    "CatDictInsertRest ((d @ [(k, v)]) @ [(q, w)]) q l = Inr d'"
    using 1(2) by (auto simp: bindE_eq_Inr dest: AsHashable_Inr split: if_splits)
  have "different ((d @ [(k, v)]) @ [(q, w)])"
    using 1(3) p(2) by (auto simp: HasKey_def list_ex_iff sorted_wrt_append simp del: append_assoc)
  moreover have "in_order ((d @ [(k, v)]) @ [(q, w)])" using 1(3) p(3,4) in_order_snoc [of d "(k, v)" "(q, w)"] by simp
  ultimately have "dicts_ok (ODict ((d @ [(k, v)]) @ [(q, w)]))" using 1(3,4) p(1) by simp
  then show ?case using 1(1) [OF p(1) p(2) p(3,4) refl p(5)] 1(4) by simp
qed auto

lemma TransformCatDict_ok:
  assumes "TransformCatDict l = Inr x" "list_all dicts_ok l"
  shows "dicts_ok x"
proof (cases "length l > 2")
  case True
  then obtain a k v r where l: "l = a # k # v # r" by (cases l rule: remdups_adj.cases; cases "tl (tl l)") auto
  obtain d where d: "AsHashable k = Inr k" "CatDictInsertRest ([] @ [(k, v)]) k r = Inr d" "x = ODict d"
    using assms(1) unfolding l TransformCatDict_def by (auto simp: bindE_eq_Inr Let_def dest: AsHashable_Inr split: if_splits)
  show ?thesis unfolding d(3) by (rule CatDictInsertRest_ok [OF d(2)]) (use assms(2) d(1) in \<open>simp_all add: l\<close>)
next
  case False
  then show ?thesis using assms(1) by (auto simp: TransformCatDict_def bindE_eq_Inr Let_def split: if_splits)
qed

lemma SolveSignedness_ok: "SolveSignedness ut it sb n = Inr x \<Longrightarrow> dicts_ok x"
  by (auto simp: SolveSignedness_def Let_def bindE_eq_Inr split: if_splits)

lemma scalar_ok:
  "TransformCatBytes l = Inr x \<Longrightarrow> dicts_ok x"
  "TransformCatNull l = Inr x \<Longrightarrow> dicts_ok x"
  "TransformCatBoolean l = Inr x \<Longrightarrow> dicts_ok x"
  "TransformCatInteger l = Inr x \<Longrightarrow> dicts_ok x"
  "TransformCatString l = Inr x \<Longrightarrow> dicts_ok x"
  by (auto simp: TransformCatBytes_def TransformCatNull_def TransformCatBoolean_def TransformCatInteger_def TransformCatString_def
      bindE_eq_Inr Let_def split: if_splits prod.splits dest: SolveSignedness_ok)

lemma TransformCatArray_ok: "TransformCatArray l = Inr x \<Longrightarrow> list_all dicts_ok l \<Longrightarrow> dicts_ok x"
  by (cases l) (auto simp: TransformCatArray_def bindE_eq_Inr list_all_iff)

lemma TransformGeneric_ok: "TransformGeneric l = Inr x \<Longrightarrow> list_all dicts_ok l \<Longrightarrow> dicts_ok x"
  unfolding TransformGeneric_def
  by (auto simp: bindE_eq_Inr split: if_splits CatId.splits
      dest: scalar_ok TransformCatArray_ok intro: TransformCatDict_ok) (metis CatId.exhaust)

lemma AdvItems_ok: "AdvItems s n = Inr (xs, s') \<Longrightarrow> list_all dicts_ok xs"
proof (induction s n arbitrary: xs s' rule: AdvItems.induct)
  case (1 s left)
  show ?case
  proof (cases "left = 0")
    case True
    then show ?thesis using 1(4) by (simp add: AdvItems.simps [of _ 0])
  next
    case False
    obtain b t where b: "GetByteAndAdv s = Inr (b, t)"
      using 1(4) False by (subst (asm) AdvItems.simps) (auto simp: bindE_eq_Inr)
    obtain ty v where ty: "DecodeRlpLeadingByte b = (ty, v)" by fastforce
    show ?thesis
    proof (cases "ty \<in> {Byte, BytesShort, BytesLong}")
      case True
      then obtain ob t1 l1 ys where p: "BytesParser t ty v (left - 1) = Inr (ob, t1, l1)"
        "AdvItems t1 l1 = Inr (ys, s')" "xs = OBytes ob # ys"
        using 1(4) False b ty by (subst (asm) AdvItems.simps) (auto simp: bindE_eq_Inr)
      have "lift_rlp (GetByteAndAdv s) = Inr (b, t)" "lift_rlp (BytesParser t ty v (left - 1)) = Inr (ob, t1, l1)"
        using b p(1) by simp_all
      from 1(1) [OF False this(1) refl refl refl ty [symmetric] True this(2) refl refl p(2)] show ?thesis using p(3) by simp
    next
      case lst: False
      then obtain inner t1 l1 l2 sub t2 x ys where p: "ProcRlpListHeader t ty v (left - 1) = Inr (inner, t1, l1)"
        "CheckByteLeft l1 inner = Inr l2" "AdvItems t1 inner = Inr (sub, t2)" "TransformGeneric sub = Inr x"
        "AdvItems t2 l2 = Inr (ys, s')" "xs = x # ys"
        using 1(4) False b ty by (subst (asm) AdvItems.simps) (auto simp: bindE_eq_Inr)
      have q: "lift_rlp (GetByteAndAdv s) = Inr (b, t)" "lift_rlp (ProcRlpListHeader t ty v (left - 1)) = Inr (inner, t1, l1)"
        "lift_rlp (CheckByteLeft l1 inner) = Inr l2"
        using b p(1,2) by simp_all
      note IH = 1(2) [OF False q(1) refl refl refl ty [symmetric] lst q(2) refl refl q(3) p(3)]
        1(3) [OF False q(1) refl refl refl ty [symmetric] lst q(2) refl refl q(3) p(3) refl p(4,5)]
      show ?thesis using IH p(4,6) TransformGeneric_ok by simp
    qed
  qed
qed



text \<open>
  C29. Every object the writer can write, of whatever depth, is read back by the generic parser as the same object with the entries
  of each dict in the order of their keys: integers keep type and sign, text and bytes their content, lists their order. The
  integers are those of their type, the smallest one of each signed type excepted, the keys hashable and different.
\<close>

theorem adv_roundtrip:
  assumes "GenericWriter x = Inr bs" "wf_obj x" "length bs < 2 ^ 64"
  shows "AdvParse GenericParser bs = Inr (canon x)"
  using assms by (rule written_roundtrip)

lemma adv_roundtrip_witness:
  "AdvParse GenericParser
     [0xDB, 0x22, 0xC4, 0x00, 0x82, 0x01, 0x02, 0xC8, 0x20, 0xC1, 0x01, 0xC4, 0x82, 0x08, 0x00, 0x80,
      0xC3, 0x00, 0x81, 0xFF, 0xC7, 0x83, 0x04, 0x01, 0x11, 0x82, 0x05, 0x00]
   = Inr (ODict [(OBytes [1, 2], OList [ONull, OString []]), (OBytes [0xFF], OInt Int16 (- 5))])"
proof -
  let ?x = "ODict [(OBytes [0xFF], OInt Int16 (- 5)), (OBytes [1, 2], OList [ONull, OString []])]"
  have w: "GenericWriter ?x = Inr
     [0xDB, 0x22, 0xC4, 0x00, 0x82, 0x01, 0x02, 0xC8, 0x20, 0xC1, 0x01, 0xC4, 0x82, 0x08, 0x00, 0x80,
      0xC3, 0x00, 0x81, 0xFF, 0xC7, 0x83, 0x04, 0x01, 0x11, 0x82, 0x05, 0x00]"
    by code_simp
  have "canon ?x = ODict [(OBytes [1, 2], OList [ONull, OString []]), (OBytes [0xFF], OInt Int16 (- 5))]" by code_simp
  moreover have "wf_obj ?x" by code_simp
  ultimately show ?thesis using adv_roundtrip [OF w] by simp
qed

text \<open>
  C31. The smallest value of a signed integer type never makes the round trip. For 8 and 16 bits it is written, with the magnitude
  that the sign byte makes negative, and the parser refuses what the writer wrote, because it compares that magnitude with the
  largest positive value; for 32 and 64 bits the writer's own negation overflows.
\<close>

lemma CatInteger_parse:
  assumes "BuildIntRawData t v = Inr (raw, sb)" "CatIntegerWriter t v = Inr bs" "length bs < 2 ^ 64"
  shows "AdvParse GenericParser bs = TransformCatInteger [OBytes [SerializeCatId CatInteger, width_byte t, sb], OBytes raw]"
proof -
  let ?ts = "[RBytes [SerializeCatId CatInteger, width_byte t, sb], RBytes raw]"
  have bs: "bs = Write (RList ?ts)" using assms(1,2) by (simp add: CatIntegerWriter_def Let_def)
  show ?thesis
    unfolding bs AdvParse_tr [OF assms(3) [unfolded bs]] tr.simps mapE.simps bindE_Inr scalar_transforms(4) ..
qed

theorem int_minimum_refused:
  assumes "is_signed t"
  shows "case CatIntegerWriter t (- (2 ^ (8 * int_bytes t - 1))) of
      Inr bs \<Rightarrow> int_bytes t \<le> 2 \<and> AdvParse GenericParser bs
        = Inl (AdvParseError ''The integer received exceeds the range of the targeting signed integer'')
    | Inl e \<Rightarrow> 4 \<le> int_bytes t \<and> e = AdvUndefined ''signed integer overflow''"
proof (cases "int_bytes t \<le> 2")
  case True
  let ?v = "- (2 ^ (8 * int_bytes t - 1)) :: int" and ?raw = "FromInt (int_bytes t) (2 ^ (8 * int_bytes t - 1))"
  have raw: "BuildIntRawData t ?v = Inr (?raw, 0x11)"
    using assms True by (cases t) (simp_all add: BuildIntRawData_def is_signed_def)
  moreover obtain bs where bs: "CatIntegerWriter t ?v = Inr bs" "length bs < 2 ^ 64"
    using raw True assms
    by (cases t) (simp_all add: CatIntegerWriter_def is_signed_def SerializeList_def SerializeBytes_def FromInt_def GenLeadingBytes_List_def GenLeadingBytes_Bytes_def)
  ultimately have "AdvParse GenericParser bs = TransformCatInteger [OBytes [0x04, width_byte t, 0x11], OBytes ?raw]"
    using CatInteger_parse by simp
  also have "\<dots> = Inl (AdvParseError ''The integer received exceeds the range of the targeting signed integer'')"
    unfolding TransformCatInteger_eq using True assms
    by (cases t) (simp_all add: ToInt_FromInt SolveSignedness_def is_signed_def)
  finally show ?thesis using True bs by simp
next
  case False
  then show ?thesis using assms by (cases t) (simp_all add: is_signed_def CatIntegerWriter_def BuildIntRawData_def)
qed

lemma int_minimum_refused_witness:
  "\<exists>bs. CatIntegerWriter Int8 (- 128) = Inr bs \<and> AdvParse GenericParser bs
    = Inl (AdvParseError ''The integer received exceeds the range of the targeting signed integer'')"
proof -
  have "CatIntegerWriter Int8 (- 128) = Inr [0xC6, 0x83, 0x04, 0x00, 0x11, 0x81, 0x80]" by code_simp
  then show ?thesis using int_minimum_refused [of Int8] by (simp add: is_signed_def)
qed

end
