(* ===== verification/EthMessages.thy ===== *)
theory EthMessages
  imports EthBlockchainMgr AdvRlp
begin

text \<open>
  The messages between the enclaves: the configuration of the monitor (\<open>EclipseMonitor/MonitorReport.hpp\<close>), the calls of the
  lambda server and the table of its handlers (\<open>DecentEnclave/Common/DeterministicMsg.hpp\<close>, \<open>Trusted/DecentLambdaSvr.hpp\<close>,
  \<open>DecentLambdaClt.hpp\<close>), the subscription request and the heartbeat messages of the client (\<open>Pubsub/SubscriberHandler.hpp\<close>,
  \<open>ReceiptSubscriber.hpp\<close>), and how the revoker reads them (\<open>Revoker/src/Trusted/EthHeartbeatHandler.hpp\<close>). The TLS
  connection that carries the bytes is not modelled, nor are the log messages; what the revoker logs is what its handler returns.
\<close>

datatype MsgError =
    AdvErr AdvError
  | Thrown Exception
  | KeyError "u8 list"
  | NoHandler

definition lift_adv :: "AdvError + 'a \<Rightarrow> MsgError + 'a" where
  "lift_adv m = (case m of Inl e \<Rightarrow> Inl (AdvErr e) | Inr a \<Rightarrow> Inr a)"

definition lift_exc :: "Exception + 'a \<Rightarrow> MsgError + 'a" where
  "lift_exc m = (case m of Inl e \<Rightarrow> Inl (Thrown e) | Inr a \<Rightarrow> Inr a)"

lemma lift_Inr [simp]: "lift_adv (Inr a) = Inr a" "lift_exc (Inr a) = Inr a"
  by (simp_all add: lift_adv_def lift_exc_def)

text \<open>A string literal as its bytes.\<close>

definition str :: "string \<Rightarrow> u8 list" where
  "str s = map of_char s"

section \<open>Typed parsers\<close>

definition CatBytesParser :: ObjParser where
  "CatBytesParser = PrimitiveParser TransformCatBytes"

definition CatStringParser :: ObjParser where
  "CatStringParser = PrimitiveParser TransformCatString"

definition CatIntegerParserT :: "IntType \<Rightarrow> ObjParser" where
  "CatIntegerParserT t = PrimitiveParser (TransformCatIntegerT t)"

lemma length_concat_ge: "x \<in> set xs \<Longrightarrow> length x \<le> length (concat xs)"
  by (induction xs) auto

lemma takes_bytes: "length (CatBytesWriter b) < 2 ^ 64 \<Longrightarrow> takes CatBytesParser (CatBytesWriter b) (OBytes b)"
  unfolding CatBytesParser_def
  by (rule takes_primitive [where cs = "[[SerializeCatId CatBytes], b]"])
    (simp_all add: CatBytesWriter_def spec_byte [of CatBytes, simplified] TransformCatBytes_def CheckRlpListTypeSizeEq_def
      CheckObjCat_def CheckSpecs_def ObjAsBytes_def is_bytes_def GetCatIdFromByte_def)

lemma takes_string:
  assumes "CatStringWriter s = Inr bs" "length bs < 2 ^ 64"
  shows "takes CatStringParser bs (OString s)"
proof -
  have t: "CatText s = Inr s" and bs: "bs = SerializeList (SerializeBytes [SerializeCatId CatString, 0] @ SerializeBytes s)"
    using assms(1) by (auto simp: CatStringWriter_def bindE_eq_Inr CatText_Inr)
  show ?thesis
    unfolding CatStringParser_def
    by (rule takes_primitive [where cs = "[[SerializeCatId CatString, 0], s]", OF _ assms(2)])
      (simp_all add: bs t TransformCatString_def CheckRlpListTypeSizeEq_def CheckObjCat_def CheckSpecs_def ObjAsBytes_def
        is_bytes_def GetCatIdFromByte_def)
qed

lemma takes_int:
  assumes "CatIntegerWriter t v = Inr bs" "int_ok t v" "length bs < 2 ^ 64"
  shows "takes (CatIntegerParserT t) bs (OInt t v)"
proof -
  obtain raw sb where r: "BuildIntRawData t v = Inr (raw, sb)"
    and bs: "bs = SerializeList (SerializeBytes [SerializeCatId CatInteger, width_byte t, sb] @ SerializeBytes raw)"
    using assms(1) by (auto simp: CatIntegerWriter_def bindE_eq_Inr Let_def)
  show ?thesis
    unfolding CatIntegerParserT_def
    by (rule takes_primitive [where cs = "[[SerializeCatId CatInteger, width_byte t, sb], raw]", OF _ assms(3)])
      (use int_read_back [OF assms(2) r] in \<open>simp_all add: bs TransformCatIntegerT_def\<close>)
qed

text \<open>A static dict of which every field is taken by its parser, whatever its bytes.\<close>

definition field_ok :: "ObjParser \<times> Obj \<Rightarrow> Obj \<Rightarrow> bool" where
  "field_ok f x \<longleftrightarrow> (\<forall>c. GenericWriter x = Inr c \<longrightarrow> length c < 2 ^ 64 \<longrightarrow> takes (fst f) c x)"

lemma field_ok_simps:
  "field_ok (CatBytesParser, d) (OBytes b)"
  "field_ok (CatStringParser, d) (OString s)"
  "int_ok t v \<Longrightarrow> field_ok (CatIntegerParserT t, d) (OInt t v)"
  using takes_bytes takes_string takes_int by (auto simp: field_ok_def GenericRealNumWriter_def)

lemma int_ok_uint: "int_ok UInt8 (uint (a :: 8 word))" "int_ok UInt32 (uint (b :: 32 word))" "int_ok UInt64 (uint (c :: 64 word))"
  using uint_lt2p [of a] uint_lt2p [of b] uint_lt2p [of c] by (simp_all add: int_ok_def is_signed_def)

lemma takes_written_dict:
  assumes "GenericWriter (OStaticDict xs) = Inr bs" "length bs < 2 ^ 64" "list_all2 field_ok fds xs"
  shows "takes (CatStaticDictParser am ae fds) bs (OStaticDict xs)"
proof -
  obtain cs where cs: "mapE GenericWriter xs = Inr cs" and bs: "bs = SerializeList (SerializeCatId CatStaticDict # concat cs)"
    using assms(1) by (auto simp: bindE_eq_Inr)
  have l: "length c < 2 ^ 64" if "c \<in> set cs" for c
    using length_concat_ge [OF that] length_Serialize(1) [of "SerializeCatId CatStaticDict # concat cs"] assms(2) unfolding bs by simp
  have "length cs = length xs" using cs by (induction xs arbitrary: cs) (auto simp: bindE_eq_Inr)
  then have m: "map fst (zip cs xs) = cs" "map snd (zip cs xs) = xs" by simp_all
  have "list_all2 (\<lambda>f (b, y). takes (fst f) b y) fds (zip cs xs)"
    using assms(3) cs l
  proof (induction fds xs arbitrary: cs rule: list_all2_induct)
    case (Cons f fs x xs)
    then show ?case by (auto simp: bindE_eq_Inr field_ok_def)
  qed simp
  from takes_static_dict [OF _ assms(2) this, of am ae] show ?thesis unfolding m bs by simp
qed

lemma static_dict_field:
  "list_all2 field_ok fds xs \<Longrightarrow> field_ok (CatStaticDictParser am ae fds, d) (OStaticDict xs)"
  unfolding field_ok_def [of "(CatStaticDictParser am ae fds, d)"] using takes_written_dict by simp

section \<open>The configuration and the secure state of the monitor\<close>

definition MonitorConfig_obj :: "MonitorConfig \<Rightarrow> Obj" where
  "MonitorConfig_obj c = OStaticDict
     [OInt UInt32 (uint (SVN c)), OString (str (chainName c)), OInt UInt64 (uint (checkpointSize c)),
      OInt UInt8 (uint (minDiffPercent c)), OInt UInt64 (uint (maxWaitTime c)), OInt UInt64 (uint (syncMaxWaitTime c))]"

definition MonitorConfigParserTuple :: "(ObjParser \<times> Obj) list" where
  "MonitorConfigParserTuple =
     [(CatIntegerParserT UInt32, OInt UInt32 0), (CatStringParser, OString []), (CatIntegerParserT UInt64, OInt UInt64 0),
      (CatIntegerParserT UInt8, OInt UInt8 0), (CatIntegerParserT UInt64, OInt UInt64 0), (CatIntegerParserT UInt64, OInt UInt64 0)]"

text \<open>The parsers return the static dict with the types of its fields; the last case cannot occur.\<close>

definition MonitorConfigParser :: "bytes \<Rightarrow> AdvError + MonitorConfig" where
  "MonitorConfigParser ctn =
     bindE (AdvParse (CatStaticDictParser False False MonitorConfigParserTuple) ctn) (\<lambda>x.
     case x of
       OStaticDict [OInt _ svn, OString name, OInt _ chk, OInt _ diff, OInt _ wait, OInt _ sync] \<Rightarrow>
         Inr \<lparr>SVN = of_int svn, chainName = map (\<lambda>b. char_of (unat b)) name, checkpointSize = of_int chk, minDiffPercent = of_int diff,
           maxWaitTime = of_int wait, syncMaxWaitTime = of_int sync\<rparr>
     | _ \<Rightarrow> Inl (AdvTypeError ''MonitorConfig''))"

definition MonitorSecState_obj :: "MonitorSecState \<Rightarrow> Obj" where
  "MonitorSecState_obj s = OStaticDict
     [OInt UInt32 (uint (sec_SVN s)), OBytes (genesisHash s), OInt UInt64 (uint (checkpointIter s)),
      OBytes (checkpointHash s), OBytes (checkpointNum s)]"

definition MonitorSecStateParserTuple :: "(ObjParser \<times> Obj) list" where
  "MonitorSecStateParserTuple =
     [(CatIntegerParserT UInt32, OInt UInt32 0), (CatBytesParser, OBytes []), (CatIntegerParserT UInt64, OInt UInt64 0),
      (CatBytesParser, OBytes []), (CatBytesParser, OBytes [])]"

definition MonitorSecStateParser :: "bytes \<Rightarrow> AdvError + MonitorSecState" where
  "MonitorSecStateParser ctn =
     bindE (AdvParse (CatStaticDictParser False False MonitorSecStateParserTuple) ctn) (\<lambda>x.
     case x of
       OStaticDict [OInt _ svn, OBytes gen, OInt _ iter, OBytes hash, OBytes num] \<Rightarrow>
         Inr \<lparr>sec_SVN = of_int svn, genesisHash = gen, checkpointIter = of_int iter, checkpointHash = hash, checkpointNum = num\<rparr>
     | _ \<Rightarrow> Inl (AdvTypeError ''MonitorSecState''))"

text \<open>The host writes the configuration for \<open>ecall_ethereum_clt_init\<close>, the enclave parses it.\<close>

definition EthereumCltEnclave_mConfAdvRlp :: "MonitorConfig \<Rightarrow> AdvError + bytes" where
  "EthereumCltEnclave_mConfAdvRlp mConf = GenericWriter (MonitorConfig_obj mConf)"

lemma char_byte: "char_of (unat (of_char c :: byte)) = c"
proof -
  have "(of_char c :: byte) = word_of_nat (of_char c)" by (simp only: of_nat_of_char)
  moreover have "(of_char c :: nat) < 256" by (metis rangeI atLeastLessThan_iff range_nat_of_char)
  ultimately have "unat (of_char c :: byte) = of_char c" by (metis unat_of_nat_byte)
  then show ?thesis by simp
qed

lemma str_back: "map (\<lambda>b. char_of (unat b)) (str s) = s"
  by (simp add: str_def comp_def char_byte)

lemma config_read:
  assumes "EthereumCltEnclave_mConfAdvRlp c = Inr bs" "length bs < 2 ^ 64"
  shows "MonitorConfigParser bs = Inr c"
proof -
  have "takes (CatStaticDictParser False False MonitorConfigParserTuple) bs (MonitorConfig_obj c)"
    using assms unfolding EthereumCltEnclave_mConfAdvRlp_def MonitorConfig_obj_def
    by (rule takes_written_dict) (simp add: MonitorConfigParserTuple_def field_ok_simps int_ok_uint)
  from takes_parse [OF this] show ?thesis by (simp add: MonitorConfigParser_def MonitorConfig_obj_def str_back)
qed

lemma sec_state_read:
  assumes "GenericWriter (MonitorSecState_obj s) = Inr bs" "length bs < 2 ^ 64"
  shows "MonitorSecStateParser bs = Inr s"
proof -
  have "takes (CatStaticDictParser False False MonitorSecStateParserTuple) bs (MonitorSecState_obj s)"
    using assms unfolding MonitorSecState_obj_def
    by (rule takes_written_dict) (simp add: MonitorSecStateParserTuple_def field_ok_simps int_ok_uint)
  from takes_parse [OF this] show ?thesis by (simp add: MonitorSecStateParser_def MonitorSecState_obj_def)
qed

section \<open>Calls of the lambda server\<close>

record DetMsgId =
  MsgType :: "u8 list"
  Ext :: bytes

record DetMsg =
  Version :: u32
  MsgId :: DetMsgId
  MsgContent :: bytes

definition DetMsg_default :: DetMsg where
  "DetMsg_default = \<lparr>Version = 0, MsgId = \<lparr>MsgType = [], Ext = []\<rparr>, MsgContent = []\<rparr>"

definition DetMsg_obj :: "DetMsg \<Rightarrow> Obj" where
  "DetMsg_obj m = OStaticDict
     [OInt UInt32 (uint (Version m)), OStaticDict [OString (MsgType (MsgId m)), OBytes (Ext (MsgId m))], OBytes (MsgContent m)]"

definition DetMsgIdParserTp :: "(ObjParser \<times> Obj) list" where
  "DetMsgIdParserTp = [(CatStringParser, OString []), (CatBytesParser, OBytes [])]"

definition DetMsgParserTp :: "(ObjParser \<times> Obj) list" where
  "DetMsgParserTp =
     [(CatIntegerParserT UInt32, OInt UInt32 0),
      (CatStaticDictParser False False DetMsgIdParserTp, OStaticDict [OString [], OBytes []]),
      (CatBytesParser, OBytes [])]"

definition DetMsgParser :: "bytes \<Rightarrow> AdvError + DetMsg" where
  "DetMsgParser ctn =
     bindE (AdvParse (CatStaticDictParser False False DetMsgParserTp) ctn) (\<lambda>x.
     case x of
       OStaticDict [OInt _ ver, OStaticDict [OString ty, OBytes msgIdExt], OBytes content] \<Rightarrow>
         Inr \<lparr>Version = of_int ver, MsgId = \<lparr>MsgType = ty, Ext = msgIdExt\<rparr>, MsgContent = content\<rparr>
     | _ \<Rightarrow> Inl (AdvTypeError ''DetMsg''))"

lemma det_msg_read:
  assumes "GenericWriter (DetMsg_obj m) = Inr bs" "length bs < 2 ^ 64"
  shows "DetMsgParser bs = Inr m"
proof -
  have "takes (CatStaticDictParser False False DetMsgParserTp) bs (DetMsg_obj m)"
    using assms unfolding DetMsg_obj_def
    by (rule takes_written_dict)
      (simp add: DetMsgParserTp_def DetMsgIdParserTp_def field_ok_simps int_ok_uint static_dict_field)
  from takes_parse [OF this] show ?thesis by (simp add: DetMsgParser_def DetMsg_obj_def)
qed

text \<open>\<open>MakeLambdaCall\<close>: the bytes that go over the connection.\<close>

definition MakeLambdaCall :: "DetMsg \<Rightarrow> AdvError + bytes" where
  "MakeLambdaCall msg = GenericWriter (DetMsg_obj (msg\<lparr>Version := 1\<rparr>))"

text \<open>\<open>LambdaHandlerMgr\<close>: the handlers of each message type, in the order of their registration. A handler gets the extension
  and the content of the message and works on the state \<open>'s\<close> of the enclave; an exception ends the call.\<close>

type_synonym 's HandlerFunc = "bytes \<Rightarrow> bytes \<Rightarrow> 's \<Rightarrow> (MsgError + unit) \<times> 's"
type_synonym 's HandlerMap = "(u8 list \<times> 's HandlerFunc list) list"

definition RegisterHandler :: "u8 list \<Rightarrow> 's HandlerFunc \<Rightarrow> 's HandlerMap \<Rightarrow> 's HandlerMap" where
  "RegisterHandler msgType handler m =
     map_assign msgType ((case map_of m msgType of None \<Rightarrow> [] | Some hs \<Rightarrow> hs) @ [handler]) m"

fun call_handlers :: "'s HandlerFunc list \<Rightarrow> bytes \<Rightarrow> bytes \<Rightarrow> 's \<Rightarrow> (MsgError + unit) \<times> 's" where
  "call_handlers [] msgIdExt content s = (Inr (), s)"
| "call_handlers (h # hs) msgIdExt content s =
     (case h msgIdExt content s of (Inl e, s) \<Rightarrow> (Inl e, s) | (Inr _, s) \<Rightarrow> call_handlers hs msgIdExt content s)"

definition HandleCall :: "'s HandlerMap \<Rightarrow> bytes \<Rightarrow> 's \<Rightarrow> (MsgError + unit) \<times> 's" where
  "HandleCall m msgAdvRlp s =
     (case DetMsgParser msgAdvRlp of
        Inl e \<Rightarrow> (Inl (AdvErr e), s)
      | Inr detMsg \<Rightarrow>
          (case map_of m (MsgType (MsgId detMsg)) of
             None \<Rightarrow> (Inl NoHandler, s)
           | Some handlers \<Rightarrow>
               if handlers = [] then (Inl NoHandler, s)
               else call_handlers handlers (Ext (MsgId detMsg)) (MsgContent detMsg) s))"

section \<open>Requests\<close>

definition dict_at :: "(Obj \<times> Obj) list \<Rightarrow> u8 list \<Rightarrow> MsgError + Obj" where
  "dict_at d k = (case GetItem d (OString k) of None \<Rightarrow> Inl (KeyError k) | Some v \<Rightarrow> Inr v)"

definition BuildSubscribeMsg :: "bytes \<Rightarrow> AdvError + DetMsg" where
  "BuildSubscribeMsg publisherAddr =
     bindE (GenericWriter (ODict [(OString (str ''publisher''), OBytes publisherAddr)])) (\<lambda>content.
     Inr (DetMsg_default\<lparr>MsgId := \<lparr>MsgType = str ''PubSub.Subscribe'', Ext = []\<rparr>, MsgContent := content\<rparr>))"

text \<open>The first step of \<open>SubReq\<close>: the address in the message. The rest is \<open>EthPubsub.SubReq\<close>.\<close>

definition SubReq_publisher :: "bytes \<Rightarrow> MsgError + bytes" where
  "SubReq_publisher msgContentAdvRlp =
     bindE (lift_adv (AdvParse GenericParser msgContentAdvRlp)) (\<lambda>msgContent.
     bindE (lift_adv (ObjAsDict msgContent)) (\<lambda>msgContentDict.
     bindE (dict_at msgContentDict (str ''publisher'')) (\<lambda>v.
     lift_adv (ObjAsBytes v))))"

type_synonym ClientState = "EmitterRec list \<times> PubsubEventManager \<times> PubsubState"

definition HandlePubsubSubReq :: "(nat list \<Rightarrow> nat) \<Rightarrow> (EventDataQueue \<Rightarrow> Exception + bytes) \<Rightarrow> (bytes \<Rightarrow> Exception + unit)
    \<Rightarrow> ClientState HandlerFunc" where
  "HandlePubsubSubReq alloc buildMsg send msgIdExt content = (\<lambda>(emitters, ls, s).
     case SubReq_publisher content of
       Inl e \<Rightarrow> (Inl e, emitters, ls, s)
     | Inr pubAddr \<Rightarrow>
         (case SubReq alloc buildMsg send pubAddr (ls, s) emitters of
            (r, emitters, ls, s) \<Rightarrow> (lift_exc r, emitters, ls, s)))"

text \<open>The loop over the topics stops silently at one of the wrong length, and throws at one that is no byte string.\<close>

fun read_topics :: "Obj list \<Rightarrow> MsgError + bytes list option" where
  "read_topics [] = Inr (Some [])"
| "read_topics (x # xs) =
     bindE (lift_adv (ObjAsBytes x)) (\<lambda>topicObj.
     if length topicObj \<noteq> 32 then Inr None
     else bindE (read_topics xs) (\<lambda>r. Inr (map_option ((#) topicObj) r)))"

definition HandleReceiptSubReq :: "(nat list \<Rightarrow> nat) \<Rightarrow> ClientState HandlerFunc" where
  "HandleReceiptSubReq alloc msgIdExt content = (\<lambda>(emitters, ls, s).
     let parsed =
       bindE (lift_adv (AdvParse GenericParser content)) (\<lambda>msgContent.
       bindE (lift_adv (ObjAsDict msgContent)) (\<lambda>msgContentDict.
       bindE (dict_at msgContentDict (str ''contract'')) (\<lambda>c.
       bindE (lift_adv (ObjAsBytes c)) (\<lambda>conAddr.
       if length conAddr \<noteq> 20 then Inr None
       else
         bindE (dict_at msgContentDict (str ''topics'')) (\<lambda>t.
         bindE (lift_adv (ObjAsList t)) (\<lambda>topicsObjBase.
         bindE (read_topics topicsObjBase) (\<lambda>topics.
         Inr (map_option (Pair conAddr) topics))))))))
     in case parsed of
          Inl e \<Rightarrow> (Inl e, emitters, ls, s)
        | Inr None \<Rightarrow> (Inr (), emitters, ls, s)
        | Inr (Some (conAddr, topics)) \<Rightarrow> (Inr (), ReceiptSubReq alloc conAddr topics (ls, s) emitters))"

text \<open>The handlers \<open>Init\<close> registers.\<close>

definition Init_handlers :: "(nat list \<Rightarrow> nat) \<Rightarrow> (EventDataQueue \<Rightarrow> Exception + bytes) \<Rightarrow> (bytes \<Rightarrow> Exception + unit)
    \<Rightarrow> ClientState HandlerMap" where
  "Init_handlers alloc buildMsg send =
     RegisterHandler (str ''Receipt.Subscribe'') (HandleReceiptSubReq alloc)
       (RegisterHandler (str ''PubSub.Subscribe'') (HandlePubsubSubReq alloc buildMsg send) [])"

section \<open>Heartbeat messages\<close>

definition event_obj :: "EventData \<Rightarrow> Obj" where
  "event_obj ev = OList (map OBytes ev)"

definition BuildEmittedMsg :: "bytes \<Rightarrow> bytes \<Rightarrow> EventDataQueue \<Rightarrow> AdvError + bytes" where
  "BuildEmittedMsg secState latestBlkNum evQueue =
     GenericWriter (ODict
       [(OString (str ''SecState''), OBytes secState),
        (OString (str ''LatestBlkNum''), OBytes latestBlkNum),
        (OString (str ''Events''), OList (map event_obj evQueue))])"

text \<open>What \<open>EmitterHandler\<close> and \<open>SubReq\<close> send, of the state of the monitor and its last validated block number.\<close>

definition emitted_msg :: "MonitorSecState \<Rightarrow> bytes \<Rightarrow> EventDataQueue \<Rightarrow> AdvError + bytes" where
  "emitted_msg sec latestBlkNum q =
     bindE (GenericWriter (MonitorSecState_obj sec)) (\<lambda>secState. BuildEmittedMsg secState latestBlkNum q)"

definition receipt_obj :: "ReceiptData \<Rightarrow> Obj" where
  "receipt_obj r = (case r of (num, topics, d) \<Rightarrow> OList [OBytes num, OList (map OBytes topics), OBytes d])"

definition receipts_msg :: "MonitorSecState \<Rightarrow> bytes \<Rightarrow> ReceiptData list \<Rightarrow> AdvError + bytes" where
  "receipts_msg sec latestBlkNum outQueue =
     bindE (GenericWriter (MonitorSecState_obj sec)) (\<lambda>secState.
     GenericWriter (ODict
       [(OString (str ''SecState''), OBytes secState),
        (OString (str ''LatestBlkNum''), OBytes latestBlkNum),
        (OString (str ''Receipts''), OList (map receipt_obj outQueue))]))"

section \<open>The revoker\<close>

record Heartbeat =
  hb_latestBlkNum :: BlockNumber
  hb_chkptNum :: BlockNumber
  hb_chkptHash :: bytes
  hb_events :: "(BlockNumber \<times> bytes) list"

definition Obj_at :: "Obj list \<Rightarrow> nat \<Rightarrow> MsgError + Obj" where
  "Obj_at xs i = (if i < length xs then Inr (xs ! i) else Inl (AdvErr IndexError))"

definition BlkNumFromBytesBase :: "bytes \<Rightarrow> MsgError + BlockNumber" where
  "BlkNumFromBytesBase b = lift_exc (FromBytes b)"

fun HandleRevokeEvent :: "Obj list \<Rightarrow> MsgError + (BlockNumber \<times> bytes) list" where
  "HandleRevokeEvent [] = Inr []"
| "HandleRevokeEvent (ev # evList) =
     bindE (lift_adv (ObjAsList ev)) (\<lambda>evFields.
     bindE (Obj_at evFields 0) (\<lambda>f0.
     bindE (lift_adv (ObjAsBytes f0)) (\<lambda>blkNumRef.
     bindE (Obj_at evFields 1) (\<lambda>f1.
     bindE (lift_adv (ObjAsBytes f1)) (\<lambda>evDataRef.
     bindE (BlkNumFromBytesBase blkNumRef) (\<lambda>blkNum.
     bindE (HandleRevokeEvent evList) (\<lambda>rest. Inr ((blkNum, evDataRef) # rest))))))))"

definition HandleEthHeartbeatMsg :: "bytes \<Rightarrow> MsgError + Heartbeat" where
  "HandleEthHeartbeatMsg msgAdvRlp =
     bindE (lift_adv (AdvParse GenericParser msgAdvRlp)) (\<lambda>msg.
     bindE (lift_adv (ObjAsDict msg)) (\<lambda>msgDict.
     bindE (dict_at msgDict (str ''SecState'')) (\<lambda>v1.
     bindE (lift_adv (ObjAsBytes v1)) (\<lambda>secStateAdvRlp.
     bindE (dict_at msgDict (str ''LatestBlkNum'')) (\<lambda>v2.
     bindE (lift_adv (ObjAsBytes v2)) (\<lambda>latestBlkNumBytes.
     bindE (dict_at msgDict (str ''Events'')) (\<lambda>v3.
     bindE (lift_adv (ObjAsList v3)) (\<lambda>evQueue.
     bindE (lift_adv (MonitorSecStateParser secStateAdvRlp)) (\<lambda>secState.
     bindE (BlkNumFromBytesBase latestBlkNumBytes) (\<lambda>latestBlkNum.
     bindE (BlkNumFromBytesBase (checkpointNum secState)) (\<lambda>chkptNum.
     bindE (HandleRevokeEvent evQueue) (\<lambda>evs.
     Inr \<lparr>hb_latestBlkNum = latestBlkNum, hb_chkptNum = chkptNum, hb_chkptHash = checkpointHash secState, hb_events = evs\<rparr>))))))))))))"

section \<open>What is sent is what is read\<close>

text \<open>The labels are plain ASCII, so writing them never fails; they are different, and in this order.\<close>

lemma unat_char: "unat (of_char c :: u32) = of_char c"
proof (rule of_nat_inverse)
  show "word_of_nat (of_char c) = (of_char c :: u32)" by (rule of_nat_of_char)
  have "(of_char c :: nat) \<in> {0..<256}" unfolding range_nat_of_char [symmetric] by (rule rangeI)
  then have "(of_char c :: nat) < 256" unfolding atLeastLessThan_iff by (rule conjunct2)
  also have "(256 :: nat) < 2 ^ LENGTH(32)" by simp
  finally show "(of_char c :: nat) < 2 ^ LENGTH(32)" .
qed

lemma ascii_text:
  assumes "list_all (\<lambda>c. of_char c < (128 :: nat)) s"
  shows "CatText (str s) = Inr (str s)"
proof -
  have b: "word_of_nat (of_char c) = (of_char c :: byte)" for c by (rule of_nat_of_char)
  have "utf8 (of_char c) = [of_char c]" "IsValidCodePt (of_char c)" if "c \<in> set s" for c
    using assms that by (auto simp: list_all_iff utf8_def Let_def unat_char b IsValidCodePt_iff)
  then have "concat (map utf8 (map of_char s)) = str s" "list_all IsValidCodePt (map of_char s)"
    unfolding str_def by (induction s) (auto simp: list_all_iff)
  then show ?thesis by (metis CatText_Inr)
qed

lemma label_text:
  "CatText (str ''publisher'') = Inr (str ''publisher'')" "CatText (str ''PubSub.Subscribe'') = Inr (str ''PubSub.Subscribe'')"
  "CatText (str ''SecState'') = Inr (str ''SecState'')" "CatText (str ''LatestBlkNum'') = Inr (str ''LatestBlkNum'')"
  "CatText (str ''Events'') = Inr (str ''Events'')" "CatText (str ''Ethereum'') = Inr (str ''Ethereum'')"
  by (rule ascii_text, simp)+

lemma label_order:
  "obj_less (OString (str ''SecState'')) (OString (str ''Events'')) = Inr False"
  "obj_less (OString (str ''SecState'')) (OString (str ''LatestBlkNum'')) = Inr False"
  "obj_less (OString (str ''LatestBlkNum'')) (OString (str ''Events'')) = Inr False"
  "str ''PubSub.Subscribe'' \<noteq> str ''Receipt.Subscribe''"
  "str ''SecState'' \<noteq> str ''Events''" "str ''SecState'' \<noteq> str ''LatestBlkNum''" "str ''LatestBlkNum'' \<noteq> str ''Events''"
  "str ''Events'' \<noteq> str ''SecState''" "str ''LatestBlkNum'' \<noteq> str ''SecState''" "str ''Events'' \<noteq> str ''LatestBlkNum''"
  by code_simp+

lemma label_eq: "obj_eq (OString s) (OString t) \<longleftrightarrow> s = t"
  by (simp add: obj_eq_def)

lemma Serialize_upper: "length (SerializeBytes b) \<le> length b + 9" "length (SerializeList c) \<le> length c + 9"
  using EncodedWidth_le [of "of_nat (length b)"] EncodedWidth_le [of "of_nat (length c)"]
  by (auto simp: SerializeBytes_def SerializeList_def GenLeadingBytes_Bytes_def GenLeadingBytes_List_def Let_def split: list.splits)

lemma CatStringWriter_label: "CatText s = Inr s \<Longrightarrow>
    CatStringWriter s = Inr (SerializeList (SerializeBytes [SerializeCatId CatString, 0] @ SerializeBytes s))"
  by (simp add: CatStringWriter_def)

lemma length_str [simp]: "length (str s) = length s"
  by (simp add: str_def)

text \<open>What a string, bytes and an unsigned number of the messages take at most.\<close>

lemma string_written: "CatText s = Inr s \<Longrightarrow> \<exists>c. CatStringWriter s = Inr c \<and> length c \<le> length s + 29"
  using Serialize_upper(1) [of "[SerializeCatId CatString, 0]"] Serialize_upper(1) [of s]
    Serialize_upper(2) [of "SerializeBytes [SerializeCatId CatString, 0] @ SerializeBytes s"]
  by (simp add: CatStringWriter_label del: SerializeCatId.simps)

lemma length_CatBytesWriter: "length (CatBytesWriter b) \<le> length b + 19" "length b \<le> length (CatBytesWriter b)"
proof -
  let ?c = "SerializeCatId CatBytes # SerializeBytes b"
  have "length ?c \<le> length b + 10" using Serialize_upper(1) [of b] by simp
  then show "length (CatBytesWriter b) \<le> length b + 19" unfolding CatBytesWriter_def using Serialize_upper(2) [of ?c] by linarith
  show "length b \<le> length (CatBytesWriter b)"
    unfolding CatBytesWriter_def using length_Serialize(1) [of ?c] length_Serialize(2) [of b] by simp
qed

lemma unsigned_written:
  assumes "\<not> is_signed t"
  shows "\<exists>c. CatIntegerWriter t v = Inr c \<and> length c \<le> 38"
proof -
  let ?s = "[SerializeCatId CatInteger, width_byte t, 0]" and ?r = "FromInt (int_bytes t) (nat v)"
  have "length ?r \<le> 8" by (cases t) (simp_all add: FromInt_def)
  moreover have "length (SerializeList (SerializeBytes ?s @ SerializeBytes ?r)) \<le> length (SerializeBytes ?s) + length (SerializeBytes ?r) + 9"
    using Serialize_upper(2) [of "SerializeBytes ?s @ SerializeBytes ?r"] by simp
  moreover have "length (SerializeBytes ?s) \<le> 12" using Serialize_upper(1) [of ?s] by simp
  moreover have "length (SerializeBytes ?r) \<le> length ?r + 9" by (rule Serialize_upper(1))
  ultimately have "length (SerializeList (SerializeBytes ?s @ SerializeBytes ?r)) \<le> 38" by linarith
  then show ?thesis using assms by (simp add: CatIntegerWriter_def BuildIntRawData_def)
qed

lemma unsigned_types: "\<not> is_signed UInt8" "\<not> is_signed UInt32" "\<not> is_signed UInt64"
  by (simp_all add: is_signed_def)

lemma publisher_read:
  assumes "GenericWriter (ODict [(OString (str ''publisher''), OBytes addr)]) = Inr bs" "length bs < 2 ^ 64"
  shows "SubReq_publisher bs = Inr addr"
proof -
  have "AdvParse GenericParser bs = Inr (canon (ODict [(OString (str ''publisher''), OBytes addr)]))"
    using assms by (intro written_roundtrip) (simp_all add: AsHashable_def)
  then show ?thesis by (simp add: SubReq_publisher_def sorted_dict_def ObjAsDict_def dict_at_def ObjAsBytes_def label_eq)
qed

text \<open>The whole heartbeat.\<close>

lemma event_written: "\<exists>c. GenericWriter (event_obj ev) = Inr c"
proof -
  have "\<exists>cs. mapE GenericWriter (map OBytes ev) = Inr cs" by (induction ev) auto
  then show ?thesis by (auto simp: event_obj_def)
qed

lemma sec_state_written: "\<exists>c. GenericWriter (MonitorSecState_obj s) = Inr c"
  by (simp add: MonitorSecState_obj_def GenericRealNumWriter_def CatIntegerWriter_def BuildIntRawData_def is_signed_def)

lemma emitted_written: "\<exists>msg. emitted_msg sec blk q = Inr msg"
proof -
  obtain ss where ss: "GenericWriter (MonitorSecState_obj sec) = Inr ss" using sec_state_written by blast
  have "\<exists>cs. mapE GenericWriter (map event_obj q) = Inr cs"
  proof (induction q)
    case (Cons e q)
    then show ?case using event_written [of e] by auto
  qed simp
  then show ?thesis
    using ss by (auto simp: emitted_msg_def BuildEmittedMsg_def label_order CatStringWriter_label label_text)
qed

lemma emitted_read:
  assumes "BuildEmittedMsg ss blk q = Inr msg" "length msg < 2 ^ 64"
  shows "AdvParse GenericParser msg = Inr (ODict
    [(OString (str ''Events''), OList (map event_obj q)), (OString (str ''LatestBlkNum''), OBytes blk),
     (OString (str ''SecState''), OBytes ss)])"
proof -
  let ?x = "ODict [(OString (str ''SecState''), OBytes ss), (OString (str ''LatestBlkNum''), OBytes blk),
    (OString (str ''Events''), OList (map event_obj q))]"
  have c: "map (canon \<circ> event_obj) q = map event_obj q" "list_all (wf_obj \<circ> event_obj) q"
    by (simp_all add: event_obj_def comp_def list_all_iff)
  have "wf_obj ?x" using c(2) by (simp add: AsHashable_def label_eq label_order list_all_iff)
  moreover have "canon ?x = ODict [(OString (str ''Events''), OList (map event_obj q)), (OString (str ''LatestBlkNum''), OBytes blk),
     (OString (str ''SecState''), OBytes ss)]"
    by (simp add: sorted_dict_def label_order c(1))
  ultimately show ?thesis using assms written_roundtrip [of ?x] by (simp add: BuildEmittedMsg_def)
qed

lemma emitted_holds:
  assumes "BuildEmittedMsg ss blk q = Inr msg"
  shows "length ss \<le> length msg"
proof -
  obtain l1 e l2 l3 where m: "msg = SerializeList (SerializeCatId CatDict # l1 @ e @ l2 @ CatBytesWriter blk @ l3 @ CatBytesWriter ss)"
    using assms by (auto simp: BuildEmittedMsg_def label_order bindE_eq_Inr)
  show ?thesis unfolding m
    using length_CatBytesWriter(2) [of ss]
      length_Serialize(1) [of "SerializeCatId CatDict # l1 @ e @ l2 @ CatBytesWriter blk @ l3 @ CatBytesWriter ss"] by simp
qed

lemma events_read:
  "list_all (\<lambda>(b, d, n). FromBytes b = Inr n) evs \<Longrightarrow>
    HandleRevokeEvent (map event_obj (map (\<lambda>(b, d, n). [b, d]) evs)) = Inr (map (\<lambda>(b, d, n). (n, d)) evs)"
  by (induction evs)
    (auto simp: event_obj_def ObjAsList_def Obj_at_def ObjAsBytes_def BlkNumFromBytesBase_def)

section \<open>Properties\<close>

text \<open>
  C27. A subscription request arrives. Whatever the state of the client, the bytes that the revoker sends to subscribe to the
  publisher at \<open>addr\<close> make the lambda server of the client call the handler of subscriptions, and that one runs \<open>SubReq\<close> for
  exactly this address: its result, its emitters and its state are those of the call.
\<close>

theorem subscribe_delivered:
  assumes "length addr = 20"
  shows "\<exists>bs. bindE (BuildSubscribeMsg addr) MakeLambdaCall = Inr bs
    \<and> HandleCall (Init_handlers alloc buildMsg send) bs (emitters, ls, s)
      = (case SubReq alloc buildMsg send addr (ls, s) emitters of (r, emitters, ls, s) \<Rightarrow> (lift_exc r, emitters, ls, s))"
proof -
  let ?d = "ODict [(OString (str ''publisher''), OBytes addr)]"
  obtain k where k: "CatStringWriter (str ''publisher'') = Inr k" "length k \<le> 38" using string_written label_text(1) by fastforce
  obtain c where c: "GenericWriter ?d = Inr c" "length c \<le> 200"
    using k length_CatBytesWriter(1) [of addr] assms
      Serialize_upper(2) [of "SerializeCatId CatDict # k @ CatBytesWriter addr"] by simp
  let ?m = "\<lparr>Version = 1, MsgId = \<lparr>MsgType = str ''PubSub.Subscribe'', Ext = []\<rparr>, MsgContent = c\<rparr>"
  have build: "BuildSubscribeMsg addr = Inr (?m\<lparr>Version := 0\<rparr>)" using c(1) by (simp add: BuildSubscribeMsg_def DetMsg_default_def)
  obtain v where v: "CatIntegerWriter UInt32 1 = Inr v" "length v \<le> 38" using unsigned_written unsigned_types by blast
  obtain t where t: "CatStringWriter (str ''PubSub.Subscribe'') = Inr t" "length t \<le> 45" using string_written label_text(2) by fastforce
  let ?i = "SerializeList (SerializeCatId CatStaticDict # t @ CatBytesWriter [])"
  have i: "length ?i \<le> 74"
    using t(2) length_CatBytesWriter(1) [of "[]"] Serialize_upper(2) [of "SerializeCatId CatStaticDict # t @ CatBytesWriter []"] by simp
  obtain bs where bs: "GenericWriter (DetMsg_obj ?m) = Inr bs" "length bs < 2 ^ 64"
    using v t(1) i c(2) length_CatBytesWriter(1) [of c]
      Serialize_upper(2) [of "SerializeCatId CatStaticDict # v @ ?i @ CatBytesWriter c"]
    by (simp add: DetMsg_obj_def GenericRealNumWriter_def)
  have parsed: "DetMsgParser bs = Inr ?m" using det_msg_read [OF bs] .
  have pub: "SubReq_publisher c = Inr addr" using publisher_read [OF c(1)] c(2) by simp
  show ?thesis
    using bs(1) build parsed pub label_order(4)
    by (auto simp: MakeLambdaCall_def HandleCall_def Init_handlers_def RegisterHandler_def HandlePubsubSubReq_def
        split: prod.splits sum.splits)
qed

lemma subscribe_delivered_witness:
  "\<exists>bs. bindE (BuildSubscribeMsg (replicate 20 2)) MakeLambdaCall = Inr bs
    \<and> HandleCall (Init_handlers first_free (\<lambda>q. Inr []) (\<lambda>m. Inr ())) bs ([], [],
        \<lparr>m_svcStore = demo_svc\<lparr>m_evMgrAddrMap := [(replicate 20 2, [3])]\<rparr>, eventQueues = [], receiptQueues = []\<rparr>)
      = (Inr (), [(0, 0)], [(0, BuildNotifyEventDescr [3] [8] 0)],
          \<lparr>m_svcStore = demo_svc\<lparr>m_evMgrAddrMap := [(replicate 20 2, [3])]\<rparr>, eventQueues = [[]], receiptQueues = []\<rparr>)"
  using subscribe_delivered [of "replicate 20 2" first_free "\<lambda>q. Inr []" "\<lambda>m. Inr ()" "[]" "[]"
      "\<lparr>m_svcStore = demo_svc\<lparr>m_evMgrAddrMap := [(replicate 20 2, [3])]\<rparr>, eventQueues = [], receiptQueues = []\<rparr>"]
  by (simp add: SubReq_def SubReq_listen_def SubReq_answer_def AddEmitter_def demo_svc_def GetEventMgrAddr_def Listen_def first_free_def
      map_emplace_def Let_def numeral_eq_Suc)

text \<open>
  C3. The revoker reads what the client sends. For every state of the monitor, last validated block number and queue of events
  there is a heartbeat message; unless it is longer than the 64 bits of the length, the handler of the revoker accepts it, and
  reads the latest block number, the number and hash of the checkpoint, and every event of the queue, in order, with its
  block number and data.
\<close>

theorem heartbeat_delivered:
  assumes "FromBytes blk = Inr latest" "FromBytes (checkpointNum sec) = Inr chkpt"
    "list_all (\<lambda>(b, d, n). FromBytes b = Inr n) evs"
  shows "\<exists>msg. emitted_msg sec blk (map (\<lambda>(b, d, n). [b, d]) evs) = Inr msg
    \<and> (length msg < 2 ^ 64 \<longrightarrow> HandleEthHeartbeatMsg msg = Inr \<lparr>hb_latestBlkNum = latest, hb_chkptNum = chkpt,
         hb_chkptHash = checkpointHash sec, hb_events = map (\<lambda>(b, d, n). (n, d)) evs\<rparr>)"
proof -
  let ?q = "map (\<lambda>(b, d, n). [b, d]) evs"
  obtain msg where msg: "emitted_msg sec blk ?q = Inr msg" using emitted_written by blast
  then obtain ss where ss: "GenericWriter (MonitorSecState_obj sec) = Inr ss" "BuildEmittedMsg ss blk ?q = Inr msg"
    by (auto simp: emitted_msg_def bindE_eq_Inr)
  have "HandleEthHeartbeatMsg msg = Inr \<lparr>hb_latestBlkNum = latest, hb_chkptNum = chkpt,
         hb_chkptHash = checkpointHash sec, hb_events = map (\<lambda>(b, d, n). (n, d)) evs\<rparr>" if l: "length msg < 2 ^ 64"
  proof -
    have "length ss \<le> length msg" using emitted_holds [OF ss(2)] .
    then have "MonitorSecStateParser ss = Inr sec" using sec_state_read [OF ss(1)] l by simp
    then show ?thesis
      unfolding HandleEthHeartbeatMsg_def emitted_read [OF ss(2) l]
      using assms events_read [OF assms(3)]
      by (simp add: ObjAsDict_def dict_at_def label_eq label_order ObjAsBytes_def ObjAsList_def BlkNumFromBytesBase_def)
  qed
  with msg show ?thesis by blast
qed

lemma heartbeat_delivered_witness:
  "\<exists>msg. emitted_msg \<lparr>sec_SVN = 0, genesisHash = [1], checkpointIter = 1, checkpointHash = [7], checkpointNum = [4]\<rparr> [6] [[[5], [9]]] = Inr msg
    \<and> HandleEthHeartbeatMsg msg = Inr \<lparr>hb_latestBlkNum = 6, hb_chkptNum = 4, hb_chkptHash = [7], hb_events = [(5, [9])]\<rparr>"
proof -
  let ?sec = "\<lparr>sec_SVN = 0, genesisHash = [1], checkpointIter = 1, checkpointHash = [7], checkpointNum = [4]\<rparr> :: MonitorSecState"
  have n: "FromBytes [6] = Inr 6" "FromBytes (checkpointNum ?sec) = Inr 4" "list_all (\<lambda>(b, d :: bytes, n). FromBytes b = Inr n) [([5], [9], 5)]"
    by code_simp+
  obtain msg where msg: "emitted_msg ?sec [6] [[[5], [9]]] = Inr msg" using emitted_written by blast
  obtain a where a: "CatIntegerWriter UInt32 0 = Inr a" "length a \<le> 38" using unsigned_written [OF unsigned_types(2)] by blast
  obtain b where b: "CatIntegerWriter UInt64 1 = Inr b" "length b \<le> 38" using unsigned_written [OF unsigned_types(3)] by blast
  let ?ss = "SerializeCatId CatStaticDict # a @ CatBytesWriter [1] @ b @ CatBytesWriter [7] @ CatBytesWriter [4]"
  obtain k1 where k1: "CatStringWriter (str ''SecState'') = Inr k1" "length k1 \<le> 37" using string_written [OF label_text(3)] by auto
  obtain k2 where k2: "CatStringWriter (str ''LatestBlkNum'') = Inr k2" "length k2 \<le> 41" using string_written [OF label_text(4)] by auto
  obtain k3 where k3: "CatStringWriter (str ''Events'') = Inr k3" "length k3 \<le> 35" using string_written [OF label_text(5)] by auto
  let ?ev = "SerializeCatId CatArray # CatBytesWriter [5] @ CatBytesWriter [9]"
  let ?q = "SerializeCatId CatArray # SerializeList ?ev"
  let ?m = "SerializeCatId CatDict # k3 @ SerializeList ?q @ k2 @ CatBytesWriter [6] @ k1 @ CatBytesWriter (SerializeList ?ss)"
  have "msg = SerializeList ?m"
    using msg a(1) b(1) k1(1) k2(1) k3(1)
    by (simp add: emitted_msg_def MonitorSecState_obj_def GenericRealNumWriter_def BuildEmittedMsg_def label_order event_obj_def)
  moreover have "length ?ss \<le> 140" "length ?ev \<le> 50"
    using a(2) b(2) length_CatBytesWriter(1) [of "[1]"] length_CatBytesWriter(1) [of "[7]"] length_CatBytesWriter(1) [of "[4]"]
      length_CatBytesWriter(1) [of "[5]"] length_CatBytesWriter(1) [of "[9]"] by simp_all
  moreover from this have "length ?m \<le> 1000"
    using k1(2) k2(2) k3(2) Serialize_upper(2) [of ?ss] Serialize_upper(2) [of ?ev] Serialize_upper(2) [of ?q]
      length_CatBytesWriter(1) [of "[6]"] length_CatBytesWriter(1) [of "SerializeList ?ss"] by simp
  ultimately have "length msg < 2 ^ 64" using Serialize_upper(2) [of ?m] by simp
  then show ?thesis using heartbeat_delivered [OF n] msg by simp
qed

text \<open>
  C28. The enclave starts with the configuration the host wrote: the parser of \<open>ecall_ethereum_clt_init\<close> reads every field of
  the written configuration back, whatever the configuration.
\<close>

theorem config_delivered:
  assumes "EthereumCltEnclave_mConfAdvRlp c = Inr bs" "length bs < 2 ^ 64"
  shows "MonitorConfigParser bs = Inr c"
  using assms by (rule config_read)

lemma config_delivered_witness:
  "\<exists>bs. EthereumCltEnclave_mConfAdvRlp BuildEthereumMonitorConfig = Inr bs
    \<and> MonitorConfigParser bs = Inr BuildEthereumMonitorConfig"
proof -
  let ?E = BuildEthereumMonitorConfig
  note u = unsigned_written [OF unsigned_types(1)] unsigned_written [OF unsigned_types(2)] unsigned_written [OF unsigned_types(3)]
  obtain a where a: "CatIntegerWriter UInt32 (uint (SVN ?E)) = Inr a" "length a \<le> 38" using u(2) by blast
  obtain b where b: "CatStringWriter (str ''Ethereum'') = Inr b" "length b \<le> 37" using string_written [OF label_text(6)] by auto
  obtain c where c: "CatIntegerWriter UInt64 (uint (checkpointSize ?E)) = Inr c" "length c \<le> 38" using u(3) by blast
  obtain d where d: "CatIntegerWriter UInt8 (uint (minDiffPercent ?E)) = Inr d" "length d \<le> 38" using u(1) by blast
  obtain e where e: "CatIntegerWriter UInt64 (uint (maxWaitTime ?E)) = Inr e" "length e \<le> 38" using u(3) by blast
  obtain f where f: "CatIntegerWriter UInt64 (uint (syncMaxWaitTime ?E)) = Inr f" "length f \<le> 38" using u(3) by blast
  let ?bs = "SerializeList (SerializeCatId CatStaticDict # a @ b @ c @ d @ e @ f)"
  have "chainName ?E = ''Ethereum''" by (simp add: BuildEthereumMonitorConfig_def)
  then have "EthereumCltEnclave_mConfAdvRlp ?E = Inr ?bs"
    using a b c d e f by (simp add: EthereumCltEnclave_mConfAdvRlp_def MonitorConfig_obj_def GenericRealNumWriter_def)
  moreover have "length ?bs < 2 ^ 64"
    using a b c d e f Serialize_upper(2) [of "SerializeCatId CatStaticDict # a @ b @ c @ d @ e @ f"] by simp
  ultimately show "\<exists>bs. EthereumCltEnclave_mConfAdvRlp ?E = Inr bs \<and> MonitorConfigParser bs = Inr ?E"
    using config_delivered by blast
qed

end
